(* ===== verification/Prelude.thy ===== *)
theory Prelude
  imports "HOL-Library.Word" "HOL-Library.Code_Target_Nat"
begin

text \<open>
  Shared vocabulary of the development.

  \<^item> Machine integers.  Rust's \<open>i32\<close> and \<open>i64\<close> are \<open>32 word\<close> and \<open>64 word\<close>, read as signed
    values with \<open>sint\<close>; \<open>wrapping_add\<close> and \<open>wrapping_sub\<close> are the word operations.  \<open>u8\<close> and
    \<open>u16\<close> are words as well.  \<open>u32\<close> and \<open>usize\<close> values (offsets, lengths, counts) are \<open>nat\<close>;
    where a \<open>u32\<close> addition of the source can exceed the type, the model writes the reduction
    modulo \<open>2 ^ 32\<close> that a release build performs.
  \<^item> Memory.  A byte buffer is a \<open>byte list\<close>.  \<open>bslice\<close> reads a range, \<open>write_at\<close> writes one and
    fails (\<open>None\<close>) when the range leaves the buffer: that is a panic of a bounds-checked write
    or an access outside the allocation of an unchecked one.
  \<^item> Results.  \<open>Ok\<close> and \<open>Err\<close> are the two sides of a Rust \<open>Result\<close>; \<open>Fault\<close> is the outcome of an
    execution that panics or leaves its buffer.
  \<^item> Little-endian encodings of words and the lemmas on slices, words and powers of two that the
    component theories share.
\<close>

unbundle bit_operations_syntax

type_synonym byte = "8 word"
type_synonym u8 = "8 word"
type_synonym u16 = "16 word"
type_synonym i32 = "32 word"
type_synonym i64 = "64 word"
type_synonym sockaddr_storage = "byte list"

named_theorems le_simps \<open>encoding and decoding of little-endian fields\<close>
named_theorems slice_simps \<open>reading ranges of written buffers\<close>
named_theorems word_conv \<open>moving between words and integers in range\<close>

section \<open>Outcomes\<close>

datatype ('e, 'a) outcome = Ok 'a | Err 'e | Fault

fun outcome_bind :: "('e, 'a) outcome \<Rightarrow> ('a \<Rightarrow> ('e, 'b) outcome) \<Rightarrow> ('e, 'b) outcome" where
  "outcome_bind (Ok x) f = f x"
| "outcome_bind (Err e) f = Err e"
| "outcome_bind Fault f = Fault"

definition of_option :: "'a option \<Rightarrow> ('e, 'a) outcome" where
  "of_option r = (case r of None \<Rightarrow> Fault | Some x \<Rightarrow> Ok x)"

lemma of_option_simps [simp]: "of_option (Some x) = Ok x" "of_option None = Fault"
  by (simp_all add: of_option_def)

section \<open>Little-endian encodings\<close>

fun le_bytes :: "nat \<Rightarrow> 'a::len word \<Rightarrow> byte list" where
  "le_bytes 0 w = []"
| "le_bytes (Suc n) w = ucast w # le_bytes n (drop_bit 8 w)"

fun of_le :: "byte list \<Rightarrow> 'a::len word" where
  "of_le [] = 0"
| "of_le (b # bs) = ucast b OR push_bit 8 (of_le bs)"

lemma length_le_bytes [simp]: "length (le_bytes n w) = n"
  by (induction n arbitrary: w) auto

lemma bit_of_le_le_bytes:
  "bit (of_le (le_bytes n w) :: 'a::len word) i \<longleftrightarrow> i < 8 * n \<and> bit (w :: 'a word) i"
proof (induction n arbitrary: w i)
  case (Suc n)
  show ?case
  proof (cases "i < 8")
    case True
    then show ?thesis by (simp add: bit_simps Suc) (auto dest: bit_imp_le_length)
  next
    case False
    then show ?thesis by (simp add: bit_simps Suc) (auto dest: bit_imp_le_length)
  qed
qed simp

lemma of_le_le_bytes: "of_le (le_bytes n w) = take_bit (8 * n) (w :: 'a::len word)"
  by (rule bit_word_eqI) (simp add: bit_of_le_le_bytes bit_take_bit_iff)

lemma of_le_full [simp]: "of_le (le_bytes n w) = w" if "LENGTH('a) \<le> 8 * n"
  for w :: "'a::len word"
  using that by (simp add: of_le_le_bytes take_bit_word_eq_self)

lemma bit_of_le_bound: "bit (of_le bs :: 'a::len word) i \<Longrightarrow> i < 8 * length bs"
proof (induction bs arbitrary: i)
  case (Cons b bs)
  show ?case
  proof (cases "i < 8")
    case False
    with Cons.prems have "bit (of_le bs :: 'a word) (i - 8)"
      by (auto simp: bit_simps dest: bit_imp_le_length)
    from Cons.IH [OF this] False show ?thesis by simp
  qed simp
qed simp

lemma take_bit_of_le:
  "8 * length bs \<le> n \<Longrightarrow> take_bit n (of_le bs :: 'a::len word) = of_le bs"
  by (rule bit_word_eqI) (auto simp: bit_take_bit_iff dest: bit_of_le_bound)

lemma le_bytes_of_le [le_simps]:
  "8 * length bs \<le> LENGTH('a) \<Longrightarrow> le_bytes (length bs) (of_le bs :: 'a::len word) = bs"
proof (induction bs)
  case (Cons b bs)
  have low: "ucast (ucast b OR push_bit 8 (of_le bs) :: 'a word) = b"
    using Cons.prems by (intro bit_word_eqI) (auto simp: bit_simps)
  have "drop_bit 8 (ucast b OR push_bit 8 (of_le bs) :: 'a word)
      = take_bit (LENGTH('a) - 8) (of_le bs)"
    by (rule bit_word_eqI) (auto simp: bit_simps dest: bit_imp_le_length)
  also have "\<dots> = of_le bs"
    using Cons.prems by (intro take_bit_of_le) simp
  finally show ?case
    using Cons low by simp
qed simp

section \<open>Ranges of byte buffers\<close>

definition bslice :: "nat \<Rightarrow> nat \<Rightarrow> 'a list \<Rightarrow> 'a list" where
  "bslice off len buf = take len (drop off buf)"

definition overwrite :: "'a list \<Rightarrow> nat \<Rightarrow> 'a list \<Rightarrow> 'a list" where
  "overwrite buf off bs = take off buf @ bs @ drop (off + length bs) buf"

definition write_at :: "'a list \<Rightarrow> nat \<Rightarrow> 'a list \<Rightarrow> 'a list option" where
  "write_at buf off bs =
     (if off + length bs \<le> length buf then Some (overwrite buf off bs) else None)"

definition read_i32 :: "byte list \<Rightarrow> nat \<Rightarrow> i32" where
  "read_i32 buf off = of_le (bslice off 4 buf)"

definition read_i64 :: "byte list \<Rightarrow> nat \<Rightarrow> i64" where
  "read_i64 buf off = of_le (bslice off 8 buf)"

definition read_u16 :: "byte list \<Rightarrow> nat \<Rightarrow> u16" where
  "read_u16 buf off = of_le (bslice off 2 buf)"

lemma length_bslice [simp]: "length (bslice off len buf) = min len (length buf - off)"
  by (simp add: bslice_def)

lemma length_overwrite [simp]:
  "off + length bs \<le> length buf \<Longrightarrow> length (overwrite buf off bs) = length buf"
  by (simp add: overwrite_def)

lemma nth_bslice: "i < len \<Longrightarrow> off + i < length buf \<Longrightarrow> bslice off len buf ! i = buf ! (off + i)"
  by (simp add: bslice_def)

lemma nth_overwrite:
  assumes "off + length bs \<le> length buf" "i < length buf"
  shows "overwrite buf off bs ! i =
    (if off \<le> i \<and> i < off + length bs then bs ! (i - off) else buf ! i)"
proof -
  consider "i < off" | "off \<le> i" "i < off + length bs" | "off + length bs \<le> i"
    by linarith
  then show ?thesis
  proof cases
    case 3
    then obtain k where "i = off + length bs + k"
      using le_Suc_ex by blast
    with assms show ?thesis
      by (simp add: overwrite_def nth_append min_def)
  qed (use assms in \<open>simp_all add: overwrite_def nth_append less_diff_conv2\<close>)
qed

lemma slice_overwrite_same [slice_simps]:
  "off + length bs \<le> length buf \<Longrightarrow> bslice off (length bs) (overwrite buf off bs) = bs"
  by (simp add: bslice_def overwrite_def)

lemma slice_overwrite_disjoint [slice_simps]:
  assumes "off + length bs \<le> length buf" "o' + n \<le> off \<or> off + length bs \<le> o'"
  shows "bslice o' n (overwrite buf off bs) = bslice o' n buf"
proof (rule nth_equalityI)
  fix i
  assume "i < length (bslice o' n (overwrite buf off bs))"
  with assms show "bslice o' n (overwrite buf off bs) ! i = bslice o' n buf ! i"
    by (auto simp: nth_bslice nth_overwrite)
qed (use assms in simp)

lemma slice_overwrite_inside [slice_simps]:
  assumes "off + length bs \<le> length buf" "off \<le> o'" "o' + n \<le> off + length bs"
  shows "bslice o' n (overwrite buf off bs) = bslice (o' - off) n bs"
proof (rule nth_equalityI)
  fix i
  assume "i < length (bslice o' n (overwrite buf off bs))"
  with assms show "bslice o' n (overwrite buf off bs) ! i = bslice (o' - off) n bs ! i"
    by (auto simp: nth_bslice nth_overwrite)
qed (use assms in simp)

lemma slice_slice [slice_simps]:
  "i + n \<le> len \<Longrightarrow> bslice i n (bslice off len buf) = bslice (off + i) n buf"
  by (simp add: bslice_def drop_take add.commute min_def)

lemma slice_append_left [slice_simps]:
  "off + n \<le> length xs \<Longrightarrow> bslice off n (xs @ ys) = bslice off n xs"
  by (simp add: bslice_def)

lemma slice_append_right [slice_simps]:
  "length xs \<le> off \<Longrightarrow> bslice off n (xs @ ys) = bslice (off - length xs) n ys"
  by (simp add: bslice_def)

lemma slice_0_full [slice_simps]: "length xs \<le> n \<Longrightarrow> bslice 0 n xs = xs"
  by (simp add: bslice_def)

lemma write_at_Some_iff:
  "write_at buf off bs = Some buf' \<longleftrightarrow> off + length bs \<le> length buf \<and> buf' = overwrite buf off bs"
  by (auto simp: write_at_def)

lemma length_write_at: "write_at buf off bs = Some buf' \<Longrightarrow> length buf' = length buf"
  by (simp add: write_at_Some_iff)

section \<open>Powers of two\<close>

fun is_power_of_two :: "nat \<Rightarrow> bool" where
  "is_power_of_two n =
     (if n = 0 then False else if odd n then n = 1 else is_power_of_two (n div 2))"

fun trailing_zeros :: "nat \<Rightarrow> nat" where
  "trailing_zeros n =
     (if n = 0 then 32 else if odd n then 0 else Suc (trailing_zeros (n div 2)))"

declare is_power_of_two.simps [simp del] trailing_zeros.simps [simp del]

lemma is_power_of_two_iff: "is_power_of_two n \<longleftrightarrow> (\<exists>k. n = 2 ^ k)"
proof
  show "is_power_of_two n \<Longrightarrow> \<exists>k. n = 2 ^ k"
  proof (induction n rule: is_power_of_two.induct)
    case (1 n)
    show ?case
    proof (cases "odd n")
      case True
      with "1.prems" have "n = 2 ^ 0"
        by (simp add: is_power_of_two.simps [of n] split: if_splits)
      then show ?thesis by blast
    next
      case False
      with "1.prems" have n: "n \<noteq> 0" "is_power_of_two (n div 2)"
        by (simp_all add: is_power_of_two.simps [of n] split: if_splits)
      with "1.IH" False obtain k where "n div 2 = 2 ^ k" by blast
      with False have "n = 2 ^ Suc k" by auto
      then show ?thesis by blast
    qed
  qed
next
  have "is_power_of_two (2 ^ k)" for k
    by (induction k) (simp_all add: is_power_of_two.simps)
  then show "\<exists>k. n = 2 ^ k \<Longrightarrow> is_power_of_two n" by blast
qed

lemma trailing_zeros_power [simp]: "trailing_zeros (2 ^ k) = k"
  by (induction k) (simp_all add: trailing_zeros.simps)

lemma power_of_two_dvd:
  "32 \<le> n \<Longrightarrow> is_power_of_two n \<Longrightarrow> 32 dvd n"
proof -
  assume "32 \<le> n" "is_power_of_two n"
  then obtain k where k: "n = 2 ^ k" "(2::nat) ^ 5 \<le> 2 ^ k"
    by (auto simp: is_power_of_two_iff)
  then have "5 \<le> k" by (simp only: power_increasing_iff)
  then have "(2::nat) ^ 5 dvd 2 ^ k" by (rule le_imp_power_dvd)
  with k show ?thesis by simp
qed

section \<open>Words and integers in range\<close>

lemma sint_of_int [word_conv]:
  "- (2 ^ (LENGTH('a) - 1)) \<le> x \<Longrightarrow> x < 2 ^ (LENGTH('a) - 1) \<Longrightarrow> sint (of_int x :: 'a::len word) = x"
  by (simp add: signed_of_int signed_take_bit_int_eq_self)

lemma sint_of_nat [word_conv]:
  assumes "int n < 2 ^ (LENGTH('a) - 1)"
  shows "sint (of_nat n :: 'a::len word) = int n"
proof -
  have "- (2 ^ (LENGTH('a) - 1)) \<le> (0 :: int)" by simp
  then have "- (2 ^ (LENGTH('a) - 1)) \<le> int n" by linarith
  from sint_of_int [OF this assms] show ?thesis by simp
qed

lemma sint_nonneg:
  assumes "0 \<le> sint (w :: 'a::len word)"
  shows "unat w < 2 ^ (LENGTH('a) - 1)" "sint w = int (unat w)"
proof -
  have b: "\<not> bit w (LENGTH('a) - 1)" using assms by (simp add: sint_uint bit_uint_iff)
  have "bit w n \<Longrightarrow> n < LENGTH('a) - 1" for n
    using b bit_imp_le_length [of w n] by (cases "n = LENGTH('a) - 1") auto
  then have "uint w = take_bit (LENGTH('a) - 1) (uint w)"
    by (intro bit_eqI) (auto simp: bit_simps)
  then have lt: "uint w < 2 ^ (LENGTH('a) - 1)" by (metis take_bit_int_less_exp)
  then have "int (unat w) < int (2 ^ (LENGTH('a) - 1))" by simp
  then show "unat w < 2 ^ (LENGTH('a) - 1)" by (simp only: of_nat_less_iff)
  have "sint (of_nat (unat w) :: 'a word) = int (unat w)"
    using lt by (intro sint_of_nat) simp
  then show "sint w = int (unat w)" by simp
qed
lemma unat_of_nat_lt [word_conv]: "n < 2 ^ LENGTH('a) \<Longrightarrow> unat (of_nat n :: 'a::len word) = n"
  by (simp add: unat_of_nat take_bit_nat_eq_self)

lemma uint_of_nat_lt [word_conv]: "n < 2 ^ LENGTH('a) \<Longrightarrow> uint (of_nat n :: 'a::len word) = int n"
  by (simp add: uint_nat unat_of_nat_lt)

lemma signed_drop_bit_of_nat [word_conv]:
  assumes "int n < 2 ^ (LENGTH('a) - 1)"
  shows "signed_drop_bit k (of_nat n :: 'a::len word) = of_nat (n div 2 ^ k)"
proof -
  have "int (n div 2 ^ k) \<le> int n" by simp
  with assms have lt: "int (n div 2 ^ k) < 2 ^ (LENGTH('a) - 1)" by linarith
  have "sint (signed_drop_bit k (of_nat n :: 'a word)) = drop_bit k (int n)"
    by (simp add: sint_signed_drop_bit_eq sint_of_nat [OF assms])
  also have "\<dots> = sint (of_nat (n div 2 ^ k) :: 'a word)"
    by (simp only: sint_of_nat [OF lt]) (simp add: drop_bit_eq_div zdiv_int)
  finally show ?thesis by (simp only: signed_word_eqI)
qed

lemma and_mask_of_nat [word_conv]:
  "(of_nat n :: 'a::len word) AND of_nat (2 ^ k - 1) = of_nat (n mod 2 ^ k)"
proof -
  have "(of_nat (2 ^ k - 1) :: 'a word) = mask k"
    by (simp add: mask_eq_exp_minus_1)
  then show ?thesis
    by (simp add: take_bit_eq_mask [symmetric] take_bit_of_nat take_bit_eq_mod [of k n])
qed

end
