(* ===== verification/Frame.thy ===== *)
theory Frame
  imports Prelude
begin

text \<open>
  The Aeron wire frames of \<^verbatim>\<open>src/src/frame.rs\<close>.

  Each \<open>repr(C, packed)\<close> struct is a record.  \<open>*_bytes\<close> is its memory image on a little-endian
  target (the fields in order, no padding) and \<open>*_view\<close> is the overlay \<open>&*(ptr as *const T)\<close> that
  \<open>parse\<close> performs; \<open>parse\<close> checks the length and overlays, \<open>write\<close> copies the image to the front
  of a buffer.  The locale \<open>wire_struct\<close> is the contract of such an overlay, and every struct is an
  interpretation of it: its round-trip facts are those of the locale.
\<close>

section \<open>The overlay contract\<close>

definition struct_parse :: "nat \<Rightarrow> (byte list \<Rightarrow> 'h) \<Rightarrow> byte list \<Rightarrow> 'h option" where
  "struct_parse len view buf = (if length buf < len then None else Some (view buf))"

definition struct_write :: "('h \<Rightarrow> byte list) \<Rightarrow> 'h \<Rightarrow> byte list \<Rightarrow> byte list option" where
  "struct_write bytes h buf = write_at buf 0 (bytes h)"

lemma read_i32_head [le_simps]: "read_i32 (le_bytes 4 w @ ys) 0 = w"
  by (simp add: read_i32_def bslice_def)

lemma read_i64_head [le_simps]: "read_i64 (le_bytes 8 w @ ys) 0 = w"
  by (simp add: read_i64_def bslice_def)

lemma read_u16_head [le_simps]: "read_u16 (le_bytes 2 w @ ys) 0 = w"
  by (simp add: read_u16_def bslice_def)

lemma read_skip [le_simps]:
  "length xs \<le> off \<Longrightarrow> read_i32 (xs @ ys) off = read_i32 ys (off - length xs)"
  "length xs \<le> off \<Longrightarrow> read_i64 (xs @ ys) off = read_i64 ys (off - length xs)"
  "length xs \<le> off \<Longrightarrow> read_u16 (xs @ ys) off = read_u16 ys (off - length xs)"
  by (simp_all add: read_i32_def read_i64_def read_u16_def slice_append_right)

lemma read_skip1 [le_simps]:
  "0 < off \<Longrightarrow> read_i32 (x # ys) off = read_i32 ys (off - 1)"
  "0 < off \<Longrightarrow> read_i64 (x # ys) off = read_i64 ys (off - 1)"
  "0 < off \<Longrightarrow> read_u16 (x # ys) off = read_u16 ys (off - 1)"
  by (cases off; simp add: read_i32_def read_i64_def read_u16_def bslice_def)+

lemma le_bytes_read [le_simps]:
  "off + 4 \<le> length buf \<Longrightarrow> le_bytes 4 (read_i32 buf off) = bslice off 4 buf"
  "off + 8 \<le> length buf \<Longrightarrow> le_bytes 8 (read_i64 buf off) = bslice off 8 buf"
  "off + 2 \<le> length buf \<Longrightarrow> le_bytes 2 (read_u16 buf off) = bslice off 2 buf"
  using le_bytes_of_le [of "bslice off 4 buf", where ?'a = 32]
    le_bytes_of_le [of "bslice off 8 buf", where ?'a = 64]
    le_bytes_of_le [of "bslice off 2 buf", where ?'a = 16]
  by (simp_all add: read_i32_def read_i64_def read_u16_def)

lemma bslice_add: "bslice off (n + m) buf = bslice off n buf @ bslice (off + n) m buf"
  unfolding bslice_def by (metis take_add drop_drop add.commute)

lemma bslice_join [le_simps]:
  "o' = off + n \<Longrightarrow> bslice off n buf @ bslice o' m buf = bslice off (n + m) buf"
  "o' = off + n \<Longrightarrow> bslice off n buf @ bslice o' m buf @ ys = bslice off (n + m) buf @ ys"
  by (simp_all only: bslice_add append_assoc)

lemma Cons_nth_bslice [le_simps]:
  "off < length buf \<Longrightarrow> buf ! off # ys = bslice off 1 buf @ ys"
  by (simp add: bslice_def take_Suc_conv_app_nth flip: Cons_nth_drop_Suc)

lemma nth_skip [le_simps]:
  "length xs \<le> off \<Longrightarrow> (xs @ ys) ! off = ys ! (off - length xs)"
  by (simp add: nth_append)

lemma bslice_Suc2 [le_simps]: "bslice off (Suc (Suc 0)) buf = bslice off 2 buf"
  by (simp add: numeral_2_eq_2)

locale wire_struct =
  fixes len :: nat
    and bytes :: "'h \<Rightarrow> byte list"
    and view :: "byte list \<Rightarrow> 'h"
  assumes length_bytes: "length (bytes h) = len"
    and view_bytes: "view (bytes h @ rest) = h"
    and bytes_view: "len \<le> length buf \<Longrightarrow> bytes (view buf) = bslice 0 len buf"
begin

lemma parse_None_iff: "struct_parse len view buf = None \<longleftrightarrow> length buf < len"
  by (simp add: struct_parse_def)

lemma parse_bytes: "struct_parse len view (bytes h @ rest) = Some h"
  by (simp add: struct_parse_def view_bytes length_bytes)

lemma write_Some_iff:
  "struct_write bytes h buf = Some buf' \<longleftrightarrow>
     len \<le> length buf \<and> buf' = bytes h @ drop len buf"
  by (auto simp: struct_write_def write_at_def overwrite_def length_bytes)

lemma parse_write: "struct_write bytes h buf = Some buf' \<Longrightarrow> struct_parse len view buf' = Some h"
  by (auto simp: write_Some_iff parse_bytes)

lemma write_parse:
  "struct_parse len view buf = Some h \<Longrightarrow> struct_write bytes h buf = Some buf"
  by (auto simp: struct_parse_def write_Some_iff bytes_view bslice_def split: if_splits)

lemma parse_roundtrip:
  "len \<le> length buf \<Longrightarrow> (\<exists>buf'. struct_write bytes h buf = Some buf' \<and>
     struct_parse len view buf' = Some h \<and> length buf' = length buf \<and>
     drop len buf' = drop len buf)"
  by (auto simp: write_Some_iff parse_bytes length_bytes)

lemma bytes_inj: "bytes h = bytes h' \<Longrightarrow> h = h'"
  using view_bytes [of h "[]"] view_bytes [of h' "[]"] by simp

end

section \<open>Constants\<close>

definition FRAME_HEADER_LENGTH :: nat where "FRAME_HEADER_LENGTH = 8"
definition DATA_HEADER_LENGTH :: nat where "DATA_HEADER_LENGTH = 32"
definition SM_TOTAL_LENGTH :: nat where "SM_TOTAL_LENGTH = 36"
definition NAK_TOTAL_LENGTH :: nat where "NAK_TOTAL_LENGTH = 28"
definition SETUP_TOTAL_LENGTH :: nat where "SETUP_TOTAL_LENGTH = 40"
definition RTTM_TOTAL_LENGTH :: nat where "RTTM_TOTAL_LENGTH = 40"

definition CURRENT_VERSION :: u8 where "CURRENT_VERSION = 0"

definition FRAME_TYPE_PAD :: u16 where "FRAME_TYPE_PAD = 0"
definition FRAME_TYPE_DATA :: u16 where "FRAME_TYPE_DATA = 1"
definition FRAME_TYPE_NAK :: u16 where "FRAME_TYPE_NAK = 2"
definition FRAME_TYPE_SM :: u16 where "FRAME_TYPE_SM = 3"
definition FRAME_TYPE_ERR :: u16 where "FRAME_TYPE_ERR = 4"
definition FRAME_TYPE_SETUP :: u16 where "FRAME_TYPE_SETUP = 5"
definition FRAME_TYPE_RTTM :: u16 where "FRAME_TYPE_RTTM = 6"
definition FRAME_TYPE_RESOLUTION :: u16 where "FRAME_TYPE_RESOLUTION = 7"
definition FRAME_TYPE_HEARTBEAT :: u16 where "FRAME_TYPE_HEARTBEAT = 8"

definition DATA_FLAG_BEGIN :: u8 where "DATA_FLAG_BEGIN = 0x80"
definition DATA_FLAG_END :: u8 where "DATA_FLAG_END = 0x40"
definition RTTM_FLAG_REPLY :: u8 where "RTTM_FLAG_REPLY = 0x80"

lemmas header_lengths =
  FRAME_HEADER_LENGTH_def DATA_HEADER_LENGTH_def SM_TOTAL_LENGTH_def NAK_TOTAL_LENGTH_def
  SETUP_TOTAL_LENGTH_def RTTM_TOTAL_LENGTH_def

lemmas frame_types =
  FRAME_TYPE_PAD_def FRAME_TYPE_DATA_def FRAME_TYPE_NAK_def FRAME_TYPE_SM_def FRAME_TYPE_ERR_def
  FRAME_TYPE_SETUP_def FRAME_TYPE_RTTM_def FRAME_TYPE_RESOLUTION_def FRAME_TYPE_HEARTBEAT_def

section \<open>FrameHeader\<close>

record frame_header =
  fh_frame_length :: i32
  fh_version :: u8
  fh_flags :: u8
  fh_frame_type :: u16

definition frame_header_bytes :: "frame_header \<Rightarrow> byte list" where
  "frame_header_bytes h =
     le_bytes 4 (fh_frame_length h) @ [fh_version h, fh_flags h] @
     le_bytes 2 (fh_frame_type h)"

definition frame_header_view :: "byte list \<Rightarrow> frame_header" where
  "frame_header_view buf =
     \<lparr>fh_frame_length = read_i32 buf 0, fh_version = buf ! 4, fh_flags = buf ! 5,
      fh_frame_type = read_u16 buf 6\<rparr>"

definition frame_header_parse :: "byte list \<Rightarrow> frame_header option" where
  "frame_header_parse = struct_parse FRAME_HEADER_LENGTH frame_header_view"

definition frame_header_write :: "frame_header \<Rightarrow> byte list \<Rightarrow> byte list option" where
  "frame_header_write = struct_write frame_header_bytes"

interpretation fh: wire_struct 8 frame_header_bytes frame_header_view
  by unfold_locales (simp_all add: frame_header_bytes_def frame_header_view_def le_simps)

section \<open>DataHeader (data and pad frames)\<close>

record data_header =
  dh_frame_header :: frame_header
  dh_term_offset :: i32
  dh_session_id :: i32
  dh_stream_id :: i32
  dh_term_id :: i32
  dh_reserved_value :: i64

definition data_header_bytes :: "data_header \<Rightarrow> byte list" where
  "data_header_bytes h =
     frame_header_bytes (dh_frame_header h) @ le_bytes 4 (dh_term_offset h) @
     le_bytes 4 (dh_session_id h) @ le_bytes 4 (dh_stream_id h) @ le_bytes 4 (dh_term_id h) @
     le_bytes 8 (dh_reserved_value h)"

definition data_header_view :: "byte list \<Rightarrow> data_header" where
  "data_header_view buf =
     \<lparr>dh_frame_header = frame_header_view buf, dh_term_offset = read_i32 buf 8,
      dh_session_id = read_i32 buf 12, dh_stream_id = read_i32 buf 16,
      dh_term_id = read_i32 buf 20, dh_reserved_value = read_i64 buf 24\<rparr>"

definition data_header_parse :: "byte list \<Rightarrow> data_header option" where
  "data_header_parse = struct_parse DATA_HEADER_LENGTH data_header_view"

interpretation dh: wire_struct 32 data_header_bytes data_header_view
  by unfold_locales
    (simp_all add: data_header_bytes_def data_header_view_def fh.length_bytes fh.view_bytes
      fh.bytes_view le_simps)

text \<open>\<open>parse_mut\<close> returns a mutable overlay; an update through it rewrites the image in place.\<close>

definition data_header_parse_mut ::
  "byte list \<Rightarrow> (data_header \<Rightarrow> data_header) \<Rightarrow> byte list option" where
  "data_header_parse_mut buf upd =
     (if length buf < DATA_HEADER_LENGTH then None
      else Some (overwrite buf 0 (data_header_bytes (upd (data_header_view buf)))))"

text \<open>\<open>frame_length as usize\<close> sign-extends, so a negative length exceeds every buffer.\<close>

definition data_header_payload :: "data_header \<Rightarrow> byte list \<Rightarrow> byte list" where
  "data_header_payload h buf =
     (let frame_len = unat (scast (fh_frame_length (dh_frame_header h)) :: i64)
      in if DATA_HEADER_LENGTH < frame_len \<and> frame_len \<le> length buf
         then bslice DATA_HEADER_LENGTH (frame_len - DATA_HEADER_LENGTH) buf else [])"

section \<open>StatusMessage\<close>

record status_message =
  sm_frame_header :: frame_header
  sm_session_id :: i32
  sm_stream_id :: i32
  sm_consumption_term_id :: i32
  sm_consumption_term_offset :: i32
  sm_receiver_window :: i32
  sm_receiver_id :: i64

definition status_message_bytes :: "status_message \<Rightarrow> byte list" where
  "status_message_bytes h =
     frame_header_bytes (sm_frame_header h) @ le_bytes 4 (sm_session_id h) @
     le_bytes 4 (sm_stream_id h) @ le_bytes 4 (sm_consumption_term_id h) @
     le_bytes 4 (sm_consumption_term_offset h) @ le_bytes 4 (sm_receiver_window h) @
     le_bytes 8 (sm_receiver_id h)"

definition status_message_view :: "byte list \<Rightarrow> status_message" where
  "status_message_view buf =
     \<lparr>sm_frame_header = frame_header_view buf, sm_session_id = read_i32 buf 8,
      sm_stream_id = read_i32 buf 12, sm_consumption_term_id = read_i32 buf 16,
      sm_consumption_term_offset = read_i32 buf 20, sm_receiver_window = read_i32 buf 24,
      sm_receiver_id = read_i64 buf 28\<rparr>"

definition status_message_parse :: "byte list \<Rightarrow> status_message option" where
  "status_message_parse = struct_parse SM_TOTAL_LENGTH status_message_view"

definition status_message_write :: "status_message \<Rightarrow> byte list \<Rightarrow> byte list option" where
  "status_message_write = struct_write status_message_bytes"

interpretation sm: wire_struct 36 status_message_bytes status_message_view
  by unfold_locales
    (simp_all add: status_message_bytes_def status_message_view_def fh.length_bytes fh.view_bytes
      fh.bytes_view le_simps)

section \<open>NakHeader\<close>

record nak_header =
  nak_frame_header :: frame_header
  nak_session_id :: i32
  nak_stream_id :: i32
  nak_active_term_id :: i32
  nak_term_offset :: i32
  nak_length :: i32

definition nak_header_bytes :: "nak_header \<Rightarrow> byte list" where
  "nak_header_bytes h =
     frame_header_bytes (nak_frame_header h) @ le_bytes 4 (nak_session_id h) @
     le_bytes 4 (nak_stream_id h) @ le_bytes 4 (nak_active_term_id h) @
     le_bytes 4 (nak_term_offset h) @ le_bytes 4 (nak_length h)"

definition nak_header_view :: "byte list \<Rightarrow> nak_header" where
  "nak_header_view buf =
     \<lparr>nak_frame_header = frame_header_view buf, nak_session_id = read_i32 buf 8,
      nak_stream_id = read_i32 buf 12, nak_active_term_id = read_i32 buf 16,
      nak_term_offset = read_i32 buf 20, nak_length = read_i32 buf 24\<rparr>"

definition nak_header_parse :: "byte list \<Rightarrow> nak_header option" where
  "nak_header_parse = struct_parse NAK_TOTAL_LENGTH nak_header_view"

definition nak_header_write :: "nak_header \<Rightarrow> byte list \<Rightarrow> byte list option" where
  "nak_header_write = struct_write nak_header_bytes"

interpretation nak: wire_struct 28 nak_header_bytes nak_header_view
  by unfold_locales
    (simp_all add: nak_header_bytes_def nak_header_view_def fh.length_bytes fh.view_bytes
      fh.bytes_view le_simps)

section \<open>SetupHeader\<close>

record setup_header =
  su_frame_header :: frame_header
  su_term_offset :: i32
  su_session_id :: i32
  su_stream_id :: i32
  su_initial_term_id :: i32
  su_active_term_id :: i32
  su_term_length :: i32
  su_mtu :: i32
  su_ttl :: i32

definition setup_header_bytes :: "setup_header \<Rightarrow> byte list" where
  "setup_header_bytes h =
     frame_header_bytes (su_frame_header h) @ le_bytes 4 (su_term_offset h) @
     le_bytes 4 (su_session_id h) @ le_bytes 4 (su_stream_id h) @
     le_bytes 4 (su_initial_term_id h) @ le_bytes 4 (su_active_term_id h) @
     le_bytes 4 (su_term_length h) @ le_bytes 4 (su_mtu h) @ le_bytes 4 (su_ttl h)"

definition setup_header_view :: "byte list \<Rightarrow> setup_header" where
  "setup_header_view buf =
     \<lparr>su_frame_header = frame_header_view buf, su_term_offset = read_i32 buf 8,
      su_session_id = read_i32 buf 12, su_stream_id = read_i32 buf 16,
      su_initial_term_id = read_i32 buf 20, su_active_term_id = read_i32 buf 24,
      su_term_length = read_i32 buf 28, su_mtu = read_i32 buf 32,
      su_ttl = read_i32 buf 36\<rparr>"

definition setup_header_parse :: "byte list \<Rightarrow> setup_header option" where
  "setup_header_parse = struct_parse SETUP_TOTAL_LENGTH setup_header_view"

definition setup_header_write :: "setup_header \<Rightarrow> byte list \<Rightarrow> byte list option" where
  "setup_header_write = struct_write setup_header_bytes"

interpretation su: wire_struct 40 setup_header_bytes setup_header_view
  by unfold_locales
    (simp_all add: setup_header_bytes_def setup_header_view_def fh.length_bytes fh.view_bytes
      fh.bytes_view le_simps)

section \<open>RttmHeader\<close>

record rttm_header =
  rttm_frame_header :: frame_header
  rttm_session_id :: i32
  rttm_stream_id :: i32
  rttm_echo_timestamp :: i64
  rttm_reception_delta :: i64
  rttm_receiver_id :: i64

definition rttm_header_bytes :: "rttm_header \<Rightarrow> byte list" where
  "rttm_header_bytes h =
     frame_header_bytes (rttm_frame_header h) @ le_bytes 4 (rttm_session_id h) @
     le_bytes 4 (rttm_stream_id h) @ le_bytes 8 (rttm_echo_timestamp h) @
     le_bytes 8 (rttm_reception_delta h) @ le_bytes 8 (rttm_receiver_id h)"

definition rttm_header_view :: "byte list \<Rightarrow> rttm_header" where
  "rttm_header_view buf =
     \<lparr>rttm_frame_header = frame_header_view buf, rttm_session_id = read_i32 buf 8,
      rttm_stream_id = read_i32 buf 12, rttm_echo_timestamp = read_i64 buf 16,
      rttm_reception_delta = read_i64 buf 24, rttm_receiver_id = read_i64 buf 32\<rparr>"

definition rttm_header_parse :: "byte list \<Rightarrow> rttm_header option" where
  "rttm_header_parse = struct_parse RTTM_TOTAL_LENGTH rttm_header_view"

definition rttm_header_write :: "rttm_header \<Rightarrow> byte list \<Rightarrow> byte list option" where
  "rttm_header_write = struct_write rttm_header_bytes"

interpretation rttm: wire_struct 40 rttm_header_bytes rttm_header_view
  by unfold_locales
    (simp_all add: rttm_header_bytes_def rttm_header_view_def fh.length_bytes fh.view_bytes
      fh.bytes_view le_simps)

section \<open>Dispatch\<close>

datatype frame_type =
  Pad | Data | Nak | StatusMessage | Error | Setup | Rttm | Resolution | Heartbeat | Unknown u16

definition frame_type_from :: "u16 \<Rightarrow> frame_type" where
  "frame_type_from val =
     (if val = FRAME_TYPE_PAD then Pad
      else if val = FRAME_TYPE_DATA then Data
      else if val = FRAME_TYPE_NAK then Nak
      else if val = FRAME_TYPE_SM then StatusMessage
      else if val = FRAME_TYPE_ERR then Error
      else if val = FRAME_TYPE_SETUP then Setup
      else if val = FRAME_TYPE_RTTM then Rttm
      else if val = FRAME_TYPE_RESOLUTION then Resolution
      else if val = FRAME_TYPE_HEARTBEAT then Heartbeat
      else Unknown val)"

definition classify_frame :: "byte list \<Rightarrow> frame_type option" where
  "classify_frame buf = map_option (\<lambda>hdr. frame_type_from (fh_frame_type hdr)) (frame_header_parse buf)"

section \<open>Properties\<close>

lemmas header_defs = frame_header_parse_def frame_header_write_def data_header_parse_def
  status_message_parse_def status_message_write_def nak_header_parse_def nak_header_write_def
  setup_header_parse_def setup_header_write_def rttm_header_parse_def rttm_header_write_def
  header_lengths



text \<open>
  A buffer in which a header parses is what writing that header back leaves: the parsers lose
  nothing and every wire image has exactly one header.  They reject exactly the buffers shorter
  than the header.
\<close>

theorem header_parse_write:
  "frame_header_parse buf = (if length buf < 8 then None else Some (frame_header_view buf)) \<and>
   (frame_header_parse buf = Some h \<longrightarrow> frame_header_write h buf = Some buf) \<and>
   (data_header_parse buf = Some d \<longrightarrow> data_header_parse_mut buf id = Some buf \<and>
      buf = data_header_bytes d @ drop 32 buf) \<and>
   (status_message_parse buf = Some sm \<longrightarrow> status_message_write sm buf = Some buf) \<and>
   (nak_header_parse buf = Some nak \<longrightarrow> nak_header_write nak buf = Some buf) \<and>
   (setup_header_parse buf = Some su \<longrightarrow> setup_header_write su buf = Some buf) \<and>
   (rttm_header_parse buf = Some rttm \<longrightarrow> rttm_header_write rttm buf = Some buf)"
  using fh.write_parse [of buf h] dh.write_parse [of buf d] sm.write_parse [of buf sm]
    nak.write_parse [of buf nak] su.write_parse [of buf su] rttm.write_parse [of buf rttm]
    dh.bytes_view [of buf]
  by (auto simp: header_defs data_header_parse_mut_def struct_parse_def struct_write_def
      overwrite_def bslice_def dh.length_bytes split: if_splits)

theorem header_parse_write_witness:
  "frame_header_write \<lparr>fh_frame_length = 0x04030201, fh_version = 5, fh_flags = 6,
     fh_frame_type = 0x0807\<rparr> [1, 2, 3, 4, 5, 6, 7, 8, 9] = Some [1, 2, 3, 4, 5, 6, 7, 8, 9]"
  by (rule header_parse_write [THEN conjunct2, THEN conjunct1, rule_format])
    (simp add: header_defs struct_parse_def frame_header_view_def read_i32_def read_u16_def bslice_def)

text \<open>
  Frame dispatch never misreads a frame: each frame type number of the protocol classifies as
  its own frame type, every other number is reported unchanged, and only a buffer too short for a
  frame header is refused.
\<close>

theorem classify_frame_spec:
  "(classify_frame buf = None \<longleftrightarrow> length buf < FRAME_HEADER_LENGTH) \<and>
   (classify_frame buf = Some ft \<longrightarrow>
      (case ft of Pad \<Rightarrow> 0 | Data \<Rightarrow> 1 | Nak \<Rightarrow> 2 | StatusMessage \<Rightarrow> 3 | Error \<Rightarrow> 4 | Setup \<Rightarrow> 5
         | Rttm \<Rightarrow> 6 | Resolution \<Rightarrow> 7 | Heartbeat \<Rightarrow> 8 | Unknown n \<Rightarrow> n) = read_u16 buf 6)"
  by (auto simp: classify_frame_def header_defs struct_parse_def frame_header_view_def
      frame_type_from_def frame_types split: if_splits)

theorem classify_frame_spec_witness:
  "classify_frame [32, 0, 0, 0, 0, 192, 1, 0] = Some Data \<and> read_u16 [32, 0, 0, 0, 0, 192, 1, 0] 6 = 1"
proof -
  have d: "classify_frame [32, 0, 0, 0, 0, 192, 1, 0] = Some Data"
    by (simp add: classify_frame_def header_defs struct_parse_def frame_header_view_def
      frame_type_from_def frame_types read_u16_def bslice_def)
  show ?thesis
    using classify_frame_spec [of "[32, 0, 0, 0, 0, 192, 1, 0]" Data] d by simp
qed

end
