(* ===== verification/Term_Buffer.thy ===== *)
theory Term_Buffer
  imports Frame
begin

text \<open>
  The term buffers of \<^verbatim>\<open>src/src/media/term_buffer.rs\<close>: \<open>RawLog\<close> (single-threaded) and
  \<open>SharedLogBuffer\<close> (shared between two threads), four equal partitions in one byte buffer.

  The second half is the layout theory the publication and image proofs rest on.  A \<open>frame\<close> is the
  byte image of a committed frame (header, then payload); \<open>enc_frames\<close> lays frames out one after
  the other, each padded with zeros to 32 bytes.  \<open>scan_loop_layout\<close> says what the scanning loop
  of the source returns on a partition that holds such a layout followed by zeros.
\<close>

section \<open>Constants and errors\<close>

definition PARTITION_COUNT :: nat where "PARTITION_COUNT = 4"
definition PARTITION_INDEX_MASK :: i32 where "PARTITION_INDEX_MASK = 3"
definition FRAME_ALIGNMENT :: nat where "FRAME_ALIGNMENT = DATA_HEADER_LENGTH"
definition MIN_TERM_LENGTH :: nat where "MIN_TERM_LENGTH = FRAME_ALIGNMENT"

lemmas term_constants = PARTITION_COUNT_def FRAME_ALIGNMENT_def MIN_TERM_LENGTH_def
  DATA_HEADER_LENGTH_def

datatype append_error = TermFull | InvalidPartition

text \<open>
  \<open>(len + FRAME_ALIGNMENT - 1) & ALIGNMENT_MASK\<close>; \<open>align_frame_length_bitmask\<close> shows that the
  bit mask of the source computes this multiple of the alignment.
\<close>

definition align_frame_length :: "nat \<Rightarrow> nat" where
  "align_frame_length len = (len + FRAME_ALIGNMENT - 1) div FRAME_ALIGNMENT * FRAME_ALIGNMENT"

definition align_frame_length_mask :: "64 word \<Rightarrow> 64 word" where
  "align_frame_length_mask len = (len + 32 - 1) AND NOT (32 - 1)"

definition partition_index :: "i32 \<Rightarrow> i32 \<Rightarrow> nat" where
  "partition_index term_id initial_term_id =
     unat ((term_id - initial_term_id) AND PARTITION_INDEX_MASK)"

section \<open>RawLog\<close>

record raw_log =
  rl_buffer :: "byte list"
  rl_term_length :: nat

definition raw_log_new :: "nat \<Rightarrow> raw_log option" where
  "raw_log_new term_length =
     (if term_length < MIN_TERM_LENGTH \<or> \<not> is_power_of_two term_length then None
      else Some \<lparr>rl_buffer = replicate (term_length * PARTITION_COUNT) 0,
                 rl_term_length = term_length\<rparr>)"

definition raw_log_capacity :: "raw_log \<Rightarrow> nat" where
  "raw_log_capacity log = length (rl_buffer log)"

definition raw_log_partition :: "raw_log \<Rightarrow> nat \<Rightarrow> byte list option" where
  "raw_log_partition log partition_idx =
     (if PARTITION_COUNT \<le> partition_idx then None
      else Some (bslice (partition_idx * rl_term_length log) (rl_term_length log) (rl_buffer log)))"

definition raw_log_append_frame ::
  "raw_log \<Rightarrow> nat \<Rightarrow> nat \<Rightarrow> data_header \<Rightarrow> byte list \<Rightarrow> (append_error, nat \<times> raw_log) outcome" where
  "raw_log_append_frame log partition_idx term_offset header payload =
     (if PARTITION_COUNT \<le> partition_idx then Err InvalidPartition
      else
        let raw_len = DATA_HEADER_LENGTH + length payload;
            aligned_len = align_frame_length raw_len;
            new_offset = (term_offset + aligned_len mod 2 ^ 32) mod 2 ^ 32
        in if rl_term_length log < new_offset then Err TermFull
           else
             let base = partition_idx * rl_term_length log + term_offset
             in outcome_bind (of_option (write_at (rl_buffer log) base (data_header_bytes header)))
                  (\<lambda>b1. outcome_bind (of_option (write_at b1 (base + DATA_HEADER_LENGTH) payload))
                    (\<lambda>b2. Ok (new_offset, log\<lparr>rl_buffer := b2\<rparr>))))"

text \<open>
  The scanning loop.  \<open>emit\<close> is called with the offset and the bytes of each frame; the model
  returns these calls as a list, in order, together with the number of bytes scanned.
\<close>

function scan_loop ::
  "nat \<Rightarrow> byte list \<Rightarrow> nat \<Rightarrow> nat \<Rightarrow> nat \<Rightarrow> (nat \<times> byte list) list \<times> nat" where
  "scan_loop tlen part limit pos scanned =
     (if pos < tlen \<and> scanned < limit then
        (if tlen - pos < 4 then ([], scanned)
         else
           let frame_length = read_i32 part pos
           in if sint frame_length \<le> 0 then ([], scanned)
              else
                let frame_len_u = unat frame_length
                in if frame_len_u < DATA_HEADER_LENGTH then ([], scanned)
                   else
                     let aligned_len = align_frame_length frame_len_u
                     in if tlen < pos + aligned_len then ([], scanned)
                        else
                          let rest = scan_loop tlen part limit (pos + aligned_len)
                                       (scanned + aligned_len)
                          in ((pos, bslice pos frame_len_u part) # fst rest, snd rest))
      else ([], scanned))"
  by pat_completeness auto
termination
  by (relation "measure (\<lambda>(tlen, part, limit, pos, scanned). tlen - pos)")
    (auto simp: align_frame_length_def term_constants)

declare scan_loop.simps [simp del]

definition raw_log_scan_frames ::
  "raw_log \<Rightarrow> nat \<Rightarrow> nat \<Rightarrow> nat \<Rightarrow> (nat \<times> byte list) list \<times> nat" where
  "raw_log_scan_frames log partition_idx off limit =
     (case raw_log_partition log partition_idx of
        None \<Rightarrow> ([], 0)
      | Some part \<Rightarrow> scan_loop (rl_term_length log) part limit off 0)"

definition raw_log_clean_partition :: "raw_log \<Rightarrow> nat \<Rightarrow> raw_log" where
  "raw_log_clean_partition log partition_idx =
     (if PARTITION_COUNT \<le> partition_idx then log
      else log\<lparr>rl_buffer := overwrite (rl_buffer log) (partition_idx * rl_term_length log)
                              (replicate (rl_term_length log) 0)\<rparr>)"

definition pad_header :: "nat \<Rightarrow> nat \<Rightarrow> data_header" where
  "pad_header remaining term_offset =
     \<lparr>dh_frame_header = \<lparr>fh_frame_length = of_nat remaining, fh_version = CURRENT_VERSION,
                          fh_flags = 0, fh_frame_type = FRAME_TYPE_PAD\<rparr>,
      dh_term_offset = of_nat term_offset, dh_session_id = 0, dh_stream_id = 0, dh_term_id = 0,
      dh_reserved_value = 0\<rparr>"

definition raw_log_write_pad_frame :: "raw_log \<Rightarrow> nat \<Rightarrow> nat \<Rightarrow> raw_log option" where
  "raw_log_write_pad_frame log partition_idx term_offset =
     (if PARTITION_COUNT \<le> partition_idx then Some log
      else if rl_term_length log \<le> term_offset then Some log
      else
        let remaining = rl_term_length log - term_offset
        in if remaining < DATA_HEADER_LENGTH then Some log
           else map_option (\<lambda>b. log\<lparr>rl_buffer := b\<rparr>)
                  (write_at (rl_buffer log) (partition_idx * rl_term_length log + term_offset)
                     (data_header_bytes (pad_header remaining term_offset))))"

section \<open>SharedLogBuffer\<close>

record shared_log_buffer =
  slb_buffer :: "byte list"
  slb_term_length :: nat

definition shared_log_buffer_new :: "nat \<Rightarrow> shared_log_buffer option" where
  "shared_log_buffer_new term_length =
     (if term_length < MIN_TERM_LENGTH \<or> \<not> is_power_of_two term_length then None
      else Some \<lparr>slb_buffer = replicate (term_length * PARTITION_COUNT) 0,
                 slb_term_length = term_length\<rparr>)"

definition shared_log_capacity :: "shared_log_buffer \<Rightarrow> nat" where
  "shared_log_capacity log = length (slb_buffer log)"

definition shared_log_partition_slice :: "shared_log_buffer \<Rightarrow> nat \<Rightarrow> byte list option" where
  "shared_log_partition_slice log partition_idx =
     (if PARTITION_COUNT \<le> partition_idx then None
      else Some (bslice (partition_idx * slb_term_length log) (slb_term_length log) (slb_buffer log)))"

definition shared_log_clean_partition :: "shared_log_buffer \<Rightarrow> nat \<Rightarrow> shared_log_buffer" where
  "shared_log_clean_partition log partition_idx =
     (if PARTITION_COUNT \<le> partition_idx then log
      else log\<lparr>slb_buffer := overwrite (slb_buffer log) (partition_idx * slb_term_length log)
                              (replicate (slb_term_length log) 0)\<rparr>)"

text \<open>The commit word of a frame: a Release store and an Acquire load of its first four bytes.\<close>

definition atomic_frame_length_store :: "byte list \<Rightarrow> nat \<Rightarrow> i32 \<Rightarrow> byte list option" where
  "atomic_frame_length_store buf off val = write_at buf off (le_bytes 4 val)"

definition atomic_frame_length_load :: "byte list \<Rightarrow> nat \<Rightarrow> i32" where
  "atomic_frame_length_load buf off = read_i32 buf off"

section \<open>Alignment\<close>

lemma align_eq: "align_frame_length n = (n + 31) div 32 * 32"
  by (simp add: align_frame_length_def term_constants)

lemma align_ge: "n \<le> align_frame_length n"
  unfolding align_eq by presburger

lemma align_lt: "align_frame_length n < n + 32"
  unfolding align_eq by presburger

lemma align_dvd: "32 dvd align_frame_length n"
  by (simp add: align_eq)

lemma align_id: "32 dvd n \<Longrightarrow> align_frame_length n = n"
  unfolding align_eq by (auto simp: dvd_def)

lemma align_pos: "0 < n \<Longrightarrow> 32 \<le> align_frame_length n"
  unfolding align_eq by presburger

lemma align_least: "n \<le> m \<Longrightarrow> 32 dvd m \<Longrightarrow> align_frame_length n \<le> m"
  unfolding align_eq by (auto simp: dvd_def) 

lemma align_bitmask:
  assumes "unat len + 31 < 2 ^ 64"
  shows "unat (align_frame_length_mask len) = align_frame_length (unat len)"
proof -
  have "align_frame_length_mask len = (len + 31) AND NOT (mask 5)"
    by (simp add: align_frame_length_mask_def mask_eq_exp_minus_1 add.commute)
  also have "\<dots> = push_bit 5 (drop_bit 5 (len + 31))"
    by (rule bit_word_eqI) (auto simp: bit_simps)
  finally have *: "align_frame_length_mask len = push_bit 5 (drop_bit 5 (len + 31))" .
  have u: "unat (len + 31) = unat len + 31"
    using assms by (simp add: unat_word_ariths)
  have "unat (drop_bit 5 (len + 31)) = (unat len + 31) div 32"
    by (simp only: unat_drop_bit_eq u) (simp add: drop_bit_eq_div)
  moreover have "(unat len + 31) div 32 * 32 < 2 ^ 64"
    using assms by (meson div_times_less_eq_dividend le_less_trans)
  ultimately show ?thesis
    by (simp add: * align_eq push_bit_eq_mult unat_word_ariths)
qed

section \<open>Frames and layouts\<close>

type_synonym frame = "byte list"

definition valid_frame :: "frame \<Rightarrow> bool" where
  "valid_frame f \<longleftrightarrow> DATA_HEADER_LENGTH \<le> length f \<and> length f < 2 ^ 31 \<and>
     read_i32 f 0 = of_nat (length f)"

definition enc :: "frame \<Rightarrow> byte list" where
  "enc f = f @ replicate (align_frame_length (length f) - length f) 0"

definition enc_frames :: "frame list \<Rightarrow> byte list" where
  "enc_frames fs = concat (map enc fs)"

definition enc_len :: "frame list \<Rightarrow> nat" where
  "enc_len fs = (\<Sum>f\<leftarrow>fs. align_frame_length (length f))"

lemma length_enc [simp]: "length (enc f) = align_frame_length (length f)"
  by (simp add: enc_def align_ge)

lemma length_enc_frames [simp]: "length (enc_frames fs) = enc_len fs"
  by (induction fs) (simp_all add: enc_frames_def enc_len_def)

lemma enc_simps [simp]:
  "enc_frames [] = []" "enc_frames (f # fs) = enc f @ enc_frames fs"
  "enc_frames (fs @ gs) = enc_frames fs @ enc_frames gs"
  "enc_len [] = 0" "enc_len (f # fs) = align_frame_length (length f) + enc_len fs"
  "enc_len (fs @ gs) = enc_len fs + enc_len gs"
  by (simp_all add: enc_frames_def enc_len_def)

lemma enc_len_dvd: "32 dvd enc_len fs"
  by (induction fs) (simp_all add: align_dvd)

fun scan_spec :: "nat \<Rightarrow> nat \<Rightarrow> nat \<Rightarrow> frame list \<Rightarrow> (nat \<times> frame) list \<times> nat" where
  "scan_spec limit pos scanned [] = ([], scanned)"
| "scan_spec limit pos scanned (f # fs) =
     (if scanned < limit then
        let rest = scan_spec limit (pos + align_frame_length (length f))
                     (scanned + align_frame_length (length f)) fs
        in ((pos, f) # fst rest, snd rest)
      else ([], scanned))"

lemma valid_frame_length:
  assumes "valid_frame f"
  shows "sint (read_i32 f 0) = int (length f)" "unat (read_i32 f 0) = length f"
    "32 \<le> length f"
  using assms by (simp_all add: valid_frame_def word_conv term_constants)

lemma read_i32_append: "off + 4 \<le> length xs \<Longrightarrow> read_i32 (xs @ ys) off = read_i32 xs off"
  by (simp add: read_i32_def bslice_def)

lemma read_i32_replicate: "read_i32 (replicate n 0) off = 0"
proof -
  have "of_le (replicate k 0) = (0 :: i32)" for k by (induction k) auto
  then show ?thesis by (simp add: read_i32_def bslice_def)
qed

lemma scan_loop_stop:
  "tlen \<le> pos \<or> limit \<le> scanned \<or> read_i32 part pos = 0 \<Longrightarrow>
     scan_loop tlen part limit pos scanned = ([], scanned)"
  by (subst scan_loop.simps) auto

lemma scan_loop_layout:
  assumes "list_all valid_frame fs" "part = enc_frames fs0 @ enc_frames fs @ replicate k 0"
    "pos = enc_len fs0" "length part = tlen"
  shows "scan_loop tlen part limit pos scanned = scan_spec limit pos scanned fs"
  using assms
proof (induction fs arbitrary: fs0 pos scanned)
  case Nil
  then show ?case
    by (simp add: scan_loop_stop read_skip read_i32_replicate)
next
  case (Cons f fs)
  let ?a = "align_frame_length (length f)"
  have v: "valid_frame f" and l: "32 \<le> length f" using Cons.prems valid_frame_length by auto
  have p: "part = enc_frames fs0 @ f @ replicate (?a - length f) 0 @ enc_frames fs @ replicate k 0"
    using Cons.prems by (simp add: enc_def)
  have r: "read_i32 part pos = read_i32 f 0"
    using Cons.prems(3) l by (simp add: p read_skip read_i32_append)
  have s: "bslice pos (length f) part = f"
    using Cons.prems(3) by (simp add: p bslice_def)
  have t: "tlen = pos + ?a + enc_len fs + k"
    using Cons.prems by auto
  have IH: "scan_loop tlen part limit (pos + ?a) (scanned + ?a)
      = scan_spec limit (pos + ?a) (scanned + ?a) fs"
    using Cons.prems by (intro Cons.IH [of "fs0 @ [f]"]) auto
  show ?case
  proof (cases "scanned < limit")
    case True
    then show ?thesis
      using l align_ge [of "length f"] valid_frame_length [OF v]
      by (subst scan_loop.simps) (auto simp: t r s IH [unfolded t] Let_def term_constants)
  next
    case False
    then show ?thesis by (simp add: scan_loop_stop)
  qed
qed


text \<open>What a scan returns: the next frames in order, at their offsets, and the bytes they span.\<close>

lemma scan_spec_prefix:
  "\<exists>k. map snd (fst (scan_spec limit pos scanned fs)) = take k fs \<and>
     snd (scan_spec limit pos scanned fs) = scanned + enc_len (take k fs)"
proof (induction fs arbitrary: pos scanned)
  case (Cons f fs)
  let ?a = "align_frame_length (length f)"
  obtain k where "map snd (fst (scan_spec limit (pos + ?a) (scanned + ?a) fs)) = take k fs"
    "snd (scan_spec limit (pos + ?a) (scanned + ?a) fs) = scanned + ?a + enc_len (take k fs)"
    using Cons.IH by blast
  then show ?case
    by (cases "scanned < limit") (auto simp: Let_def intro: exI [of _ "Suc k"] exI [of _ 0])
qed simp

lemma scan_spec_all:
  "list_all valid_frame fs \<Longrightarrow> scanned + enc_len fs \<le> limit \<Longrightarrow>
     map snd (fst (scan_spec limit pos scanned fs)) = fs \<and>
     snd (scan_spec limit pos scanned fs) = scanned + enc_len fs"
proof (induction fs arbitrary: pos scanned)
  case (Cons f fs)
  have "0 < align_frame_length (length f)"
    using Cons.prems valid_frame_length(3) [of f] align_ge [of "length f"] by simp
  with Cons show ?case by (simp add: Let_def)
qed simp

lemma scan_spec_bound:
  "\<forall>f\<in>set fs. align_frame_length (length f) \<le> m \<Longrightarrow> 0 < limit \<Longrightarrow>
     snd (scan_spec limit pos scanned fs) < max (Suc scanned) (limit + m)"
proof (induction fs arbitrary: pos scanned)
  case (Cons f fs)
  show ?case
  proof (cases "scanned < limit")
    case True
    have "snd (scan_spec limit (pos + align_frame_length (length f))
        (scanned + align_frame_length (length f)) fs)
      < max (Suc (scanned + align_frame_length (length f))) (limit + m)"
      using Cons.prems by (intro Cons.IH) auto
    moreover have "align_frame_length (length f) \<le> m" using Cons.prems by simp
    ultimately show ?thesis using True by (auto simp: Let_def)
  qed simp
qed simp

lemma scan_spec_progress:
  "scanned < limit \<Longrightarrow> fs \<noteq> [] \<Longrightarrow> fst (scan_spec limit pos scanned fs) \<noteq> []"
  by (cases fs) (auto simp: Let_def)

section \<open>Partitions\<close>

definition part_of :: "byte list \<Rightarrow> nat \<Rightarrow> nat \<Rightarrow> byte list" where
  "part_of buf tlen i = bslice (i * tlen) tlen buf"

lemma part_in_range: "i < 4 \<Longrightarrow> off \<le> tlen \<Longrightarrow> i * tlen + off \<le> 4 * (tlen :: nat)"
proof -
  assume "i < 4" "off \<le> tlen"
  then have "Suc i * tlen \<le> 4 * tlen" by (intro mult_le_mono1) simp
  with \<open>off \<le> tlen\<close> show ?thesis by (simp only: mult_Suc)
qed

lemma length_part_of [simp]:
  assumes "length buf = 4 * tlen" "i < 4"
  shows "length (part_of buf tlen i) = tlen"
proof -
  have "tlen \<le> length buf - i * tlen"
    using part_in_range [OF assms(2), of tlen tlen] assms(1) by linarith
  then show ?thesis by (simp only: part_of_def length_bslice min_absorb1)
qed

lemma part_of_overwrite:
  assumes "length buf = 4 * tlen" "i < 4" "off + length bs \<le> tlen"
  shows "part_of (overwrite buf (i * tlen + off) bs) tlen i = overwrite (part_of buf tlen i) off bs"
proof (rule nth_equalityI)
  have r: "i * tlen + off + length bs \<le> length buf"
    using part_in_range [of i "off + length bs" tlen] assms by (simp add: add.assoc)
  show "length (part_of (overwrite buf (i * tlen + off) bs) tlen i)
      = length (overwrite (part_of buf tlen i) off bs)"
    using assms r by simp
  fix n
  assume "n < length (part_of (overwrite buf (i * tlen + off) bs) tlen i)"
  then have n: "n < tlen" using assms r by simp
  have q: "i * tlen + n < length buf"
    using part_in_range [of i "Suc n" tlen] assms n by simp
  show "part_of (overwrite buf (i * tlen + off) bs) tlen i ! n
      = overwrite (part_of buf tlen i) off bs ! n"
    using assms r n q
    by (simp add: part_of_def nth_bslice nth_overwrite)
qed

lemma part_of_overwrite_other:
  assumes "length buf = 4 * tlen" "i < 4" "j < 4" "i \<noteq> j" "off + length bs \<le> tlen"
  shows "part_of (overwrite buf (i * tlen + off) bs) tlen j = part_of buf tlen j"
proof -
  have r: "i * tlen + off + length bs \<le> length buf"
    using part_in_range [of i "off + length bs" tlen] assms by (simp add: add.assoc)
  have "j * tlen + tlen \<le> i * tlen + off \<or> i * tlen + off + length bs \<le> j * tlen"
  proof (cases "j < i")
    case True
    then have "Suc j * tlen \<le> i * tlen" by (intro mult_le_mono1) simp
    then show ?thesis by simp
  next
    case False
    with assms have "Suc i * tlen \<le> j * tlen" by (intro mult_le_mono1) simp
    with assms show ?thesis by simp
  qed
  with r show ?thesis by (simp add: part_of_def slice_overwrite_disjoint)
qed

lemma overwrite_layout:
  "length bs \<le> k \<Longrightarrow> overwrite (xs @ replicate k 0) (length xs) bs = xs @ bs @ replicate (k - length bs) 0"
  by (simp add: overwrite_def)

lemma overwrite_all: "length bs = length xs \<Longrightarrow> overwrite xs 0 bs = bs"
  by (simp add: overwrite_def)

lemma partition_index_of_nat: "partition_index (t0 + of_nat n) t0 = n mod 4"
proof -
  have "(of_nat n :: i32) AND PARTITION_INDEX_MASK = of_nat (n mod 2 ^ 2)"
    using and_mask_of_nat [of n 2, where ?'a = 32] by (simp add: PARTITION_INDEX_MASK_def)
  then show ?thesis
    by (simp add: partition_index_def unat_of_nat_lt)
qed

lemma partition_index_lt: "partition_index t t0 < 4"
proof -
  have "partition_index t t0 = partition_index (t0 + of_nat (unat (t - t0))) t0"
    by simp
  also have "\<dots> = unat (t - t0) mod 4" by (rule partition_index_of_nat)
  finally show ?thesis by simp
qed

section \<open>Properties\<close>

text \<open>
  The branch-free alignment of the source (add 31, clear the low five bits of the machine word)
  is rounding up to the next multiple of 32: the result is a multiple of 32, not below the length,
  and no smaller multiple of 32 is.
\<close>

theorem align_frame_length_bitmask:
  assumes "unat len + 31 < 2 ^ 64"
  shows "unat (align_frame_length_mask len) = align_frame_length (unat len) \<and>
    32 dvd unat (align_frame_length_mask len) \<and> unat len \<le> unat (align_frame_length_mask len) \<and>
    (32 dvd m \<longrightarrow> unat len \<le> m \<longrightarrow> unat (align_frame_length_mask len) \<le> m)"
  using align_bitmask [OF assms] align_dvd align_ge align_least by simp

theorem align_frame_length_bitmask_witness:
  "unat (align_frame_length_mask 33) = 64 \<and> 32 dvd unat (align_frame_length_mask 33)"
  using align_frame_length_bitmask [of 33 0] by (simp add: align_eq)

end
