(* ===== verification/Publication_Log.thy ===== *)
theory Publication_Log
  imports Term_Buffer
begin

text \<open>
  The log behind a publication.  Both publication types of the source write frames into four
  partitions in rotation; this theory states, for the bytes of the buffer, which history of frames
  they hold, and what appending, rotating and scanning do to that history.

  A history has one list of frames per term, the last one for the active term.  \<open>log_rel\<close> says that
  the partitions of the last four terms hold exactly the layouts of these terms.  A position is the
  number of bytes laid out before a frame: \<open>enc_len (take i (concat hist))\<close>.
\<close>

definition log_rel :: "nat \<Rightarrow> byte list \<Rightarrow> frame list list \<Rightarrow> bool" where
  "log_rel tlen buf hist \<longleftrightarrow>
     length buf = 4 * tlen \<and> hist \<noteq> [] \<and> 32 dvd tlen \<and> 0 < tlen \<and>
     (\<forall>t < length hist. list_all valid_frame (hist ! t) \<and> enc_len (hist ! t) \<le> tlen) \<and>
     (\<forall>t. Suc t < length hist \<longrightarrow> enc_len (hist ! t) = tlen) \<and>
     (\<forall>t < length hist. length hist \<le> t + 4 \<longrightarrow>
        part_of buf tlen (t mod 4) =
          enc_frames (hist ! t) @ replicate (tlen - enc_len (hist ! t)) 0)"

lemma log_relD:
  assumes "log_rel tlen buf hist"
  shows "length buf = 4 * tlen" "hist \<noteq> []" "32 dvd tlen" "0 < tlen"
    "t < length hist \<Longrightarrow> list_all valid_frame (hist ! t)"
    "t < length hist \<Longrightarrow> enc_len (hist ! t) \<le> tlen"
    "Suc t < length hist \<Longrightarrow> enc_len (hist ! t) = tlen"
    "t < length hist \<Longrightarrow> length hist \<le> t + 4 \<Longrightarrow>
       part_of buf tlen (t mod 4) = enc_frames (hist ! t) @ replicate (tlen - enc_len (hist ! t)) 0"
  using assms by (auto simp: log_rel_def)

lemma log_relI:
  assumes "length buf = 4 * tlen" "hist \<noteq> []" "32 dvd tlen" "0 < tlen"
    "\<And>t. t < length hist \<Longrightarrow> list_all valid_frame (hist ! t) \<and> enc_len (hist ! t) \<le> tlen"
    "\<And>t. t < length hist \<Longrightarrow> Suc t < length hist \<Longrightarrow> enc_len (hist ! t) = tlen"
    "\<And>t. t < length hist \<Longrightarrow> length hist \<le> t + 4 \<Longrightarrow>
       part_of buf tlen (t mod 4) = enc_frames (hist ! t) @ replicate (tlen - enc_len (hist ! t)) 0"
  shows "log_rel tlen buf hist"
  using assms by (simp add: log_rel_def)

lemma log_rel_new: "32 dvd tlen \<Longrightarrow> 0 < tlen \<Longrightarrow> log_rel tlen (replicate (4 * tlen) 0) [[]]"
  by (auto simp: log_rel_def part_of_def bslice_def)

lemma mod4_neq: "t < n \<Longrightarrow> n < t + 4 \<Longrightarrow> t mod 4 \<noteq> (n :: nat) mod 4"
  by presburger

text \<open>
  Appending a frame to the active term.  Bytes behind the written ones that are still zero may
  belong to the frame, as in a pad frame, of which only the header is written.
\<close>

lemma log_append:
  assumes rel: "log_rel tlen buf (hs @ [fs])"
    and f: "valid_frame f" "f = bs @ replicate z 0"
    and fits: "enc_len fs + align_frame_length (length f) \<le> tlen"
  shows "log_rel tlen (overwrite buf ((length hs mod 4) * tlen + enc_len fs) bs) (hs @ [fs @ [f]])"
proof -
  let ?buf = "overwrite buf ((length hs mod 4) * tlen + enc_len fs) bs"
  have len: "length buf = 4 * tlen" using log_relD(1) [OF rel] .
  have bs: "length bs \<le> length f" using f by simp
  have room: "enc_len fs + length bs \<le> tlen" using fits bs align_ge [of "length f"] by linarith
  have lenb: "length ?buf = length buf"
    using part_in_range [of "length hs mod 4" "enc_len fs + length bs" tlen] room len
    by (simp add: add.assoc)
  have old: "part_of buf tlen (length hs mod 4) = enc_frames fs @ replicate (tlen - enc_len fs) 0"
    using log_relD(8) [OF rel, of "length hs"] by simp
  have "part_of ?buf tlen (length hs mod 4) =
      overwrite (enc_frames fs @ replicate (tlen - enc_len fs) 0) (length (enc_frames fs)) bs"
    using len room by (simp add: part_of_overwrite old)
  also have "\<dots> = enc_frames fs @ bs @ replicate (tlen - enc_len fs - length bs) 0"
    using room by (intro overwrite_layout) simp
  also have "\<dots> = enc_frames (fs @ [f]) @ replicate (tlen - enc_len (fs @ [f])) 0"
    using fits f(2) align_ge [of "length f"]
    by (simp add: enc_def replicate_add [symmetric])
  finally have new: "part_of ?buf tlen (length hs mod 4) = \<dots>" .
  have other: "part_of ?buf tlen (t mod 4) = part_of buf tlen (t mod 4)"
    if "t < length hs" "length hs < t + 4" for t
    using mod4_neq [OF that] len room by (intro part_of_overwrite_other) auto
  have old_terms: "(hs @ [fs @ [f]]) ! t = (hs @ [fs]) ! t" if "t \<noteq> length hs" "t < Suc (length hs)" for t
    using that by (simp add: nth_append)
  show ?thesis
  proof (rule log_relI)
    fix t
    assume t: "t < length (hs @ [fs @ [f]])"
    show "list_all valid_frame ((hs @ [fs @ [f]]) ! t) \<and> enc_len ((hs @ [fs @ [f]]) ! t) \<le> tlen"
      using log_relD(5,6) [OF rel, of t] log_relD(5) [OF rel, of "length hs"] t f(1) fits
      by (cases "t = length hs") (simp_all add: old_terms)
    show "enc_len ((hs @ [fs @ [f]]) ! t) = tlen" if "Suc t < length (hs @ [fs @ [f]])"
      using log_relD(7) [OF rel, of t] that by (simp add: old_terms)
    show "part_of ?buf tlen (t mod 4) = enc_frames ((hs @ [fs @ [f]]) ! t) @
        replicate (tlen - enc_len ((hs @ [fs @ [f]]) ! t)) 0"
      if "length (hs @ [fs @ [f]]) \<le> t + 4"
    proof (cases "t = length hs")
      case True
      with new show ?thesis by simp
    next
      case False
      with log_relD(8) [OF rel, of t] t that other [of t] show ?thesis by (simp add: old_terms)
    qed
  qed (use rel len lenb in \<open>auto simp: log_rel_def\<close>)
qed

lemma log_rotate:
  assumes rel: "log_rel tlen buf hist" and full: "enc_len (last hist) = tlen"
  shows "log_rel tlen (overwrite buf ((length hist mod 4) * tlen) (replicate tlen 0)) (hist @ [[]])"
proof -
  let ?buf = "overwrite buf ((length hist mod 4) * tlen + 0) (replicate tlen 0)"
  have len: "length buf = 4 * tlen" using log_relD(1) [OF rel] .
  have lenb: "length ?buf = length buf"
    using part_in_range [of "length hist mod 4" tlen tlen] len by simp
  have new: "part_of ?buf tlen (length hist mod 4) = replicate tlen 0"
    using len by (subst part_of_overwrite) (simp_all add: overwrite_all)
  have other: "part_of ?buf tlen (t mod 4) = part_of buf tlen (t mod 4)"
    if "t < length hist" "length hist < t + 4" for t
    using mod4_neq [OF that] len by (intro part_of_overwrite_other) auto
  have "enc_len (hist ! t) = tlen" if "t < length hist" for t
  proof (cases "Suc t = length hist")
    case True
    then have "t = length hist - 1" by simp
    with full log_relD(2) [OF rel] show ?thesis by (simp add: last_conv_nth)
  qed (use log_relD(7) [OF rel] that in auto)
  with rel len lenb new other show ?thesis
    unfolding log_rel_def by (auto simp: nth_append less_Suc_eq)
qed

text \<open>Scanning a term that is among the last four.\<close>

lemma log_scan:
  assumes rel: "log_rel tlen buf hist" and t: "t < length hist" "length hist \<le> t + 4"
  shows "scan_loop tlen (part_of buf tlen (t mod 4)) limit (enc_len (take j (hist ! t))) scanned =
    scan_spec limit (enc_len (take j (hist ! t))) scanned (drop j (hist ! t))"
proof (rule scan_loop_layout)
  show "list_all valid_frame (drop j (hist ! t))"
    using log_relD(5) [OF rel t(1)] by (auto simp: list_all_iff dest: in_set_dropD)
  show "part_of buf tlen (t mod 4) = enc_frames (take j (hist ! t)) @
      enc_frames (drop j (hist ! t)) @ replicate (tlen - enc_len (hist ! t)) 0"
    using log_relD(8) [OF rel t]
    by (metis append_assoc append_take_drop_id enc_simps(3))
  show "length (part_of buf tlen (t mod 4)) = tlen"
    using log_relD(1) [OF rel] by simp
qed simp

section \<open>Positions in the history\<close>

lemma enc_len_take_mono: "i \<le> j \<Longrightarrow> enc_len (take i fs) \<le> enc_len (take j fs)"
  by (metis enc_simps(6) le_add1 le_add_diff_inverse take_add)

lemma enc_len_take_less:
  assumes "enc_len (take i fs) < enc_len (take j fs)"
  shows "i < j"
  using assms enc_len_take_mono [of j i fs] by (meson not_le)

lemma enc_len_take_strict:
  assumes "list_all valid_frame fs" "i < j" "i < length fs"
  shows "enc_len (take i fs) < enc_len (take j fs)"
proof -
  have "enc_len (take (Suc i) fs) = enc_len (take i fs) + align_frame_length (length (fs ! i))"
    using assms by (simp add: take_Suc_conv_app_nth)
  moreover have "0 < align_frame_length (length (fs ! i))"
    using assms valid_frame_length(3) [of "fs ! i"] align_ge [of "length (fs ! i)"]
    by (simp add: list_all_length)
  ultimately show ?thesis
    using enc_len_take_mono [of "Suc i" j fs] assms by simp
qed

lemma enc_len_concat_full:
  "\<forall>h \<in> set hs. enc_len h = tlen \<Longrightarrow> enc_len (concat hs) = length hs * tlen"
  by (induction hs) auto

text \<open>The term and the index in it of the frame with index \<open>i\<close> of the whole history.\<close>

lemma history_locate:
  assumes "i < length (concat hist)"
  shows "\<exists>t j. t < length hist \<and> j < length (hist ! t) \<and>
    take i (concat hist) = concat (take t hist) @ take j (hist ! t) \<and>
    drop i (concat hist) = drop j (hist ! t) @ concat (drop (Suc t) hist)"
  using assms
proof (induction hist arbitrary: i)
  case (Cons h hist)
  show ?case
  proof (cases "i < length h")
    case True
    then show ?thesis by (intro exI [of _ 0] exI [of _ i]) simp
  next
    case False
    with Cons.prems have "i - length h < length (concat hist)" by simp
    from Cons.IH [OF this] obtain t j where
      "t < length hist" "j < length (hist ! t)"
      "take (i - length h) (concat hist) = concat (take t hist) @ take j (hist ! t)"
      "drop (i - length h) (concat hist) = drop j (hist ! t) @ concat (drop (Suc t) hist)"
      by blast
    with False show ?thesis by (intro exI [of _ "Suc t"] exI [of _ j]) simp
  qed
qed simp

lemma log_rel_frames:
  assumes "log_rel tlen buf hist"
  shows "list_all valid_frame (concat hist)"
proof -
  have "list_all valid_frame h" if "h \<in> set hist" for h
    using that log_relD(5) [OF assms] by (auto simp: in_set_conv_nth)
  then show ?thesis by (auto simp: list_all_iff)
qed

lemma log_rel_total:
  assumes "log_rel tlen buf (hs @ [fs])"
  shows "enc_len (concat (hs @ [fs])) = length hs * tlen + enc_len fs"
proof -
  have "\<forall>h \<in> set hs. enc_len h = tlen"
    using log_relD(7) [OF assms] by (auto simp: in_set_conv_nth nth_append) 
  then show ?thesis by (simp add: enc_len_concat_full)
qed

lemma log_locate:
  assumes rel: "log_rel tlen buf hist" and i: "i < length (concat hist)"
    and s: "s = enc_len (take i (concat hist))"
  obtains t j where "t < length hist" "j < length (hist ! t)" "s div tlen = t"
    "s mod tlen = enc_len (take j (hist ! t))"
    "drop i (concat hist) = drop j (hist ! t) @ concat (drop (Suc t) hist)"
proof -
  obtain t j where t: "t < length hist" "j < length (hist ! t)"
    "take i (concat hist) = concat (take t hist) @ take j (hist ! t)"
    "drop i (concat hist) = drop j (hist ! t) @ concat (drop (Suc t) hist)"
    using history_locate [OF i] by blast
  have "\<forall>h \<in> set (take t hist). enc_len h = tlen"
    using log_relD(7) [OF rel] t(1) by (auto simp: in_set_conv_nth)
  then have s': "s = t * tlen + enc_len (take j (hist ! t))"
    using t(1,3) enc_len_concat_full [of "take t hist" tlen] by (simp add: s)
  have "enc_len (take j (hist ! t)) < enc_len (take (length (hist ! t)) (hist ! t))"
    using log_relD(5) [OF rel t(1)] t(2) by (intro enc_len_take_strict)
  then have "enc_len (take j (hist ! t)) < tlen"
    using log_relD(6) [OF rel t(1)] by simp
  with s' have "s div tlen = t" "s mod tlen = enc_len (take j (hist ! t))"
    by simp_all
  with t that show ?thesis by blast
qed

lemma scan_spec_length:
  "fst (scan_spec limit pos scanned gs) \<noteq> [] \<Longrightarrow>
     scanned + enc_len (take (length (fst (scan_spec limit pos scanned gs)) - 1) gs) < limit"
proof (induction gs arbitrary: pos scanned)
  case (Cons g gs)
  show ?case
  proof (cases "fst (scan_spec limit (pos + align_frame_length (length g))
      (scanned + align_frame_length (length g)) gs) = []")
    case True
    with Cons.prems show ?thesis by (auto simp: Let_def split: if_splits)
  next
    case False
    then obtain x xs where "fst (scan_spec limit (pos + align_frame_length (length g))
      (scanned + align_frame_length (length g)) gs) = x # xs"
      by (meson list.exhaust)
    with Cons.IH [OF False] Cons.prems show ?thesis
      by (simp add: Let_def split: if_splits)
  qed
qed simp

text \<open>
  A scan that starts at a frame, is limited to the bytes before frame \<open>q\<close> and reads a term that is
  still in the buffer returns the next frames of the history, never beyond \<open>q\<close>, and at least one
  when there is one and the limit allows.
\<close>

lemma log_scan_history:
  assumes rel: "log_rel tlen buf hist" and s: "s = enc_len (take i (concat hist))"
    and q: "i \<le> q" "q \<le> length (concat hist)"
    and lim: "limit \<le> enc_len (take q (concat hist)) - s"
    and window: "length hist \<le> s div tlen + 4"
    and r: "r = scan_loop tlen (part_of buf tlen (s div tlen mod 4)) (min limit (tlen - s mod tlen))
              (s mod tlen) 0"
  shows "\<exists>k. i + k \<le> q \<and> map snd (fst r) = take k (drop i (concat hist)) \<and>
    s + snd r = enc_len (take (i + k) (concat hist)) \<and>
    (0 < limit \<longrightarrow> 0 < k)"
proof (cases "limit = 0")
  case True
  with r have "r = ([], 0)" by (simp add: scan_loop_stop)
  with True s q show ?thesis by (intro exI [of _ 0]) simp
next
  case False
  let ?fs = "concat hist" and ?lim = "min limit (tlen - s mod tlen)"
  have "i < q" using lim False s enc_len_take_mono [of q i ?fs] by (cases "i < q") auto
  obtain t j where t: "t < length hist" "j < length (hist ! t)" "s div tlen = t"
    "s mod tlen = enc_len (take j (hist ! t))"
    "drop i ?fs = drop j (hist ! t) @ concat (drop (Suc t) hist)"
    by (rule log_locate [OF rel less_le_trans [OF \<open>i < q\<close> q(2)] s])
  let ?gs = "drop j (hist ! t)"
  have r': "r = scan_spec ?lim (s mod tlen) 0 ?gs"
    unfolding r using log_scan [OF rel t(1), of "?lim" j 0] window t(3,4) by simp
  obtain k0 where k0: "map snd (fst r) = take k0 ?gs" "snd r = enc_len (take k0 ?gs)"
    using scan_spec_prefix [of ?lim "s mod tlen" 0 ?gs] r' by auto
  define k where "k = length (fst r)"
  have kl: "k = min k0 (length ?gs)"
    using arg_cong [OF k0(1), of length] by (simp add: k_def min.commute)
  have k: "map snd (fst r) = take k ?gs" "snd r = enc_len (take k ?gs)" "k \<le> length ?gs"
    using k0 kl by (simp_all add: min_def)
  have tk: "take l (drop i ?fs) = take l ?gs" if "l \<le> length ?gs" for l
    using that by (simp add: t(5))
  have split: "enc_len (take (i + l) ?fs) = s + enc_len (take l (drop i ?fs))" for l
    by (simp add: take_add s)
  have pos: "0 < ?lim" using False log_relD(4) [OF rel] by (simp add: min_def) 
  have ne: "fst r \<noteq> []" using scan_spec_progress [OF pos, of ?gs] t(2) r' by auto
  then have "enc_len (take (k - 1) ?gs) < ?lim"
    using scan_spec_length [of ?lim "s mod tlen" 0 ?gs] r' k_def by simp
  then have "enc_len (take (k - 1) (drop i ?fs)) < enc_len (take (q - i) (drop i ?fs))"
    using lim split [of "q - i"] \<open>i < q\<close> k(3) by (simp add: tk)
  then have "k - 1 < q - i"
    by (rule enc_len_take_less)
  moreover have "0 < k" using ne k_def by simp
  ultimately have "i + k \<le> q" using \<open>i < q\<close> by linarith
  moreover have "map snd (fst r) = take k (drop i ?fs)" "s + snd r = enc_len (take (i + k) ?fs)"
    using k(1,2) split [of k] tk [OF k(3)] by simp_all
  ultimately show ?thesis using \<open>0 < k\<close> by blast
qed

end
