(* ===== verification/Network_Publication.thy ===== *)
theory Network_Publication
  imports Publication_Log
begin

text \<open>
  The single-threaded publication of \<^verbatim>\<open>src/src/media/network_publication.rs\<close>: \<open>offer\<close> appends
  a data frame to the active term or rotates to the next one, \<open>sender_scan\<close> walks the committed
  frames behind the publisher.
\<close>

section \<open>The publication\<close>

datatype offer_error = BackPressured | AdminAction | PayloadTooLarge | InvalidState

record network_publication =
  np_raw_log :: raw_log
  np_initial_term_id :: i32
  np_active_term_id :: i32
  np_term_offset :: nat
  np_term_length :: nat
  np_term_length_mask :: nat
  np_position_bits_to_shift :: nat
  np_pub_position :: i64
  np_sender_position :: i64
  np_session_id :: i32
  np_stream_id :: i32
  np_mtu :: nat
  np_max_payload_length :: nat

definition network_publication_new ::
  "i32 \<Rightarrow> i32 \<Rightarrow> i32 \<Rightarrow> nat \<Rightarrow> nat \<Rightarrow> network_publication option" where
  "network_publication_new session_id stream_id initial_term_id term_length mtu =
     (if mtu < DATA_HEADER_LENGTH then None
      else case raw_log_new term_length of
        None \<Rightarrow> None
      | Some raw_log \<Rightarrow> Some
          \<lparr>np_raw_log = raw_log, np_initial_term_id = initial_term_id,
           np_active_term_id = initial_term_id, np_term_offset = 0,
           np_term_length = term_length, np_term_length_mask = term_length - 1,
           np_position_bits_to_shift = trailing_zeros term_length,
           np_pub_position = 0, np_sender_position = 0, np_session_id = session_id,
           np_stream_id = stream_id, np_mtu = mtu,
           np_max_payload_length = mtu - DATA_HEADER_LENGTH\<rparr>)"

text \<open>\<open>compute_position\<close>: the wrapped difference of term ids is sign-extended to \<open>i64\<close>.\<close>

definition compute_position :: "i32 \<Rightarrow> nat \<Rightarrow> i32 \<Rightarrow> nat \<Rightarrow> i64" where
  "compute_position initial_term_id term_length term_id term_offset =
     scast (term_id - initial_term_id) * of_nat term_length + of_nat term_offset"

definition offer_header :: "i32 \<Rightarrow> i32 \<Rightarrow> i32 \<Rightarrow> nat \<Rightarrow> i32 \<Rightarrow> data_header" where
  "offer_header session_id stream_id term_id term_offset frame_length =
     \<lparr>dh_frame_header = \<lparr>fh_frame_length = frame_length, fh_version = CURRENT_VERSION,
        fh_flags = DATA_FLAG_BEGIN OR DATA_FLAG_END, fh_frame_type = FRAME_TYPE_DATA\<rparr>,
      dh_term_offset = of_nat term_offset, dh_session_id = session_id, dh_stream_id = stream_id,
      dh_term_id = term_id, dh_reserved_value = 0\<rparr>"

definition np_rotate_term :: "network_publication \<Rightarrow> network_publication" where
  "np_rotate_term np =
     (let active = np_active_term_id np + 1;
          new_partition_idx = partition_index active (np_initial_term_id np)
      in np\<lparr>np_active_term_id := active, np_term_offset := 0,
            np_raw_log := raw_log_clean_partition (np_raw_log np) new_partition_idx\<rparr>)"

definition np_offer ::
  "network_publication \<Rightarrow> byte list \<Rightarrow> (offer_error, i64) outcome \<times> network_publication" where
  "np_offer np payload =
     (if np_max_payload_length np < length payload then (Err PayloadTooLarge, np)
      else if sint (of_nat (np_term_length np) * (of_nat PARTITION_COUNT - 1) :: i64)
              \<le> sint (np_pub_position np - np_sender_position np) then (Err BackPressured, np)
      else
        let partition_idx = partition_index (np_active_term_id np) (np_initial_term_id np);
            frame_length = of_nat DATA_HEADER_LENGTH + of_nat (length payload);
            hdr = offer_header (np_session_id np) (np_stream_id np) (np_active_term_id np)
                    (np_term_offset np) frame_length
        in case raw_log_append_frame (np_raw_log np) partition_idx (np_term_offset np) hdr payload of
             Ok (new_offset, log) \<Rightarrow>
               let pos = compute_position (np_initial_term_id np) (np_term_length np)
                           (np_active_term_id np) new_offset
               in (Ok pos, np\<lparr>np_raw_log := log, np_term_offset := new_offset,
                              np_pub_position := pos\<rparr>)
           | Err TermFull \<Rightarrow>
               (case raw_log_write_pad_frame (np_raw_log np) partition_idx (np_term_offset np) of
                  None \<Rightarrow> (Fault, np)
                | Some log \<Rightarrow> (Err AdminAction, np_rotate_term (np\<lparr>np_raw_log := log\<rparr>)))
           | Err InvalidPartition \<Rightarrow> (Err InvalidState, np)
           | Fault \<Rightarrow> (Fault, np))"

definition np_sender_scan ::
  "network_publication \<Rightarrow> nat \<Rightarrow> ((nat \<times> byte list) list \<times> nat) \<times> network_publication" where
  "np_sender_scan np limit =
     (let term_id = np_initial_term_id np
            + ucast (signed_drop_bit (np_position_bits_to_shift np) (np_sender_position np));
          term_offset = unat (ucast (np_sender_position np AND of_nat (np_term_length_mask np)) :: 32 word);
          partition_idx = partition_index term_id (np_initial_term_id np);
          remaining_in_term = np_term_length np - term_offset;
          effective_limit = (if limit < remaining_in_term then limit else remaining_in_term);
          scan = raw_log_scan_frames (np_raw_log np) partition_idx term_offset effective_limit
      in (scan, np\<lparr>np_sender_position := np_sender_position np + of_nat (snd scan)\<rparr>))"

section \<open>The frames a publication writes\<close>

definition is_data_frame :: "frame \<Rightarrow> bool" where
  "is_data_frame f \<longleftrightarrow> read_u16 f 6 \<noteq> FRAME_TYPE_PAD"

definition offer_frame :: "i32 \<Rightarrow> i32 \<Rightarrow> i32 \<Rightarrow> nat \<Rightarrow> byte list \<Rightarrow> frame" where
  "offer_frame session_id stream_id term_id term_offset payload =
     data_header_bytes (offer_header session_id stream_id term_id term_offset
       (of_nat (DATA_HEADER_LENGTH + length payload))) @ payload"

definition pad_frame :: "nat \<Rightarrow> nat \<Rightarrow> frame" where
  "pad_frame remaining term_offset =
     data_header_bytes (pad_header remaining term_offset) @
     replicate (remaining - DATA_HEADER_LENGTH) 0"

definition payloads :: "frame list \<Rightarrow> byte list list" where
  "payloads fs = map (drop DATA_HEADER_LENGTH) (filter is_data_frame fs)"

lemma payloads_simps [simp]:
  "payloads [] = []" "payloads (fs @ gs) = payloads fs @ payloads gs"
  "payloads (f # fs) = (if is_data_frame f then [drop DATA_HEADER_LENGTH f] else []) @ payloads fs"
  by (simp_all add: payloads_def)

lemma data_header_type: "read_u16 (data_header_bytes h @ xs) 6 = fh_frame_type (dh_frame_header h)"
  by (simp add: data_header_bytes_def frame_header_bytes_def le_simps)

lemma data_header_len: "read_i32 (data_header_bytes h @ xs) 0 = fh_frame_length (dh_frame_header h)"
  by (simp add: data_header_bytes_def frame_header_bytes_def le_simps)

lemma offer_frame_valid:
  assumes "DATA_HEADER_LENGTH + length payload < 2 ^ 31"
  shows "valid_frame (offer_frame sid stid tid off payload)"
    "is_data_frame (offer_frame sid stid tid off payload)"
    "drop DATA_HEADER_LENGTH (offer_frame sid stid tid off payload) = payload"
    "length (offer_frame sid stid tid off payload) = DATA_HEADER_LENGTH + length payload"
  using assms
  by (simp_all add: offer_frame_def valid_frame_def data_header_len is_data_frame_def
      data_header_type offer_header_def frame_types dh.length_bytes term_constants)

lemma not_4_le_mod [simp]: "\<not> 4 \<le> (n :: nat) mod 4"
  by (simp add: not_le)

lemma pad_frame_no_data [simp]: "\<not> is_data_frame (pad_frame remaining off)"
  by (simp add: pad_frame_def is_data_frame_def data_header_type pad_header_def)

lemma pad_frame_valid:
  assumes "DATA_HEADER_LENGTH \<le> remaining" "remaining < 2 ^ 31"
  shows "valid_frame (pad_frame remaining off)" "length (pad_frame remaining off) = remaining"
  using assms
  by (simp_all add: pad_frame_def valid_frame_def data_header_len is_data_frame_def
      data_header_type pad_header_def frame_types dh.length_bytes term_constants)

section \<open>Positions\<close>

text \<open>Positions are below \<open>2 ^ 62\<close> as long as fewer than \<open>2 ^ 31\<close> terms have been used.\<close>

lemma ucast_of_nat: "(ucast (of_nat n :: i64) :: i32) = of_nat n"
  by (rule bit_word_eqI) (simp add: bit_simps of_nat_take_bit)

lemma position_term_id:
  assumes "tlen = 2 ^ k" "p < 2 ^ 62"
  shows "(ucast (signed_drop_bit k (of_nat p :: i64)) :: i32) = of_nat (p div tlen)"
  using assms by (simp add: signed_drop_bit_of_nat ucast_of_nat)

lemma position_term_offset:
  assumes "tlen = 2 ^ k" "tlen \<le> 2 ^ 31"
  shows "unat (ucast (of_nat p AND of_nat (tlen - 1) :: i64) :: 32 word) = p mod tlen"
proof -
  have "p mod tlen < tlen" using assms by simp
  with assms(2) have "p mod tlen < 2 ^ 32" by simp
  moreover have "(of_nat p AND of_nat (tlen - 1) :: i64) = of_nat (p mod tlen)"
    using and_mask_of_nat [of p k, where ?'a = 64] assms by simp
  ultimately show ?thesis by (simp only: ucast_of_nat) (simp add: word_conv)
qed

lemma compute_position_of_nat:
  assumes "n < 2 ^ 31"
  shows "compute_position t0 tlen (t0 + of_nat n) off = of_nat (n * tlen + off)"
proof -
  have "sint (of_nat n :: i32) = int n" using assms by (simp add: word_conv)
  then have "(scast (of_nat n :: i32) :: i64) = of_nat n"
    by (metis of_int_of_nat_eq of_int_sint)
  then show ?thesis by (simp add: compute_position_def)
qed

lemma position_diff:
  assumes "s \<le> p" "p < 2 ^ 62"
  shows "sint (of_nat p - of_nat s :: i64) = int p - int s"
proof -
  have "(of_nat p - of_nat s :: i64) = of_nat (p - s)" using assms by simp
  moreover have "sint (of_nat (p - s) :: i64) = int (p - s)"
    using assms by (intro sint_of_nat) simp
  ultimately show ?thesis using assms by simp
qed

section \<open>Log operations on layouts\<close>

lemma overwrite_append:
  assumes "off + length xs + length ys \<le> length buf"
  shows "overwrite (overwrite buf off xs) (off + length xs) ys = overwrite buf off (xs @ ys)"
proof (rule nth_equalityI)
  fix n
  assume "n < length (overwrite (overwrite buf off xs) (off + length xs) ys)"
  then show "overwrite (overwrite buf off xs) (off + length xs) ys ! n
      = overwrite buf off (xs @ ys) ! n"
    using assms by (auto simp: nth_overwrite nth_append)
qed (use assms in simp)

lemma raw_log_append_fits:
  assumes "length (rl_buffer log) = 4 * rl_term_length log" "idx < 4"
    and "off + align_frame_length (32 + length payload) \<le> rl_term_length log"
    and "rl_term_length log \<le> 2 ^ 30"
  shows "raw_log_append_frame log idx off hdr payload =
    Ok (off + align_frame_length (32 + length payload),
        log\<lparr>rl_buffer := overwrite (rl_buffer log) (idx * rl_term_length log + off)
              (data_header_bytes hdr @ payload)\<rparr>)"
proof -
  let ?a = "align_frame_length (32 + length payload)" and ?base = "idx * rl_term_length log + off"
  have "off + ?a < 2 ^ 32" using assms(3,4) by simp
  then have m: "(off + ?a mod 2 ^ 32) mod 2 ^ 32 = off + ?a" by simp
  have "?base + (32 + length payload) \<le> length (rl_buffer log)"
    using part_in_range [OF assms(2), of "off + (32 + length payload)" "rl_term_length log"]
      assms(1,3) align_ge [of "32 + length payload"] by linarith
  then show ?thesis
    using assms(2,3) m overwrite_append [of ?base "data_header_bytes hdr" payload "rl_buffer log"]
    by (simp add: raw_log_append_frame_def term_constants Let_def write_at_def dh.length_bytes)
qed

lemma raw_log_append_full:
  assumes "idx < 4" "rl_term_length log < off + align_frame_length (32 + length payload)"
    and "off + align_frame_length (32 + length payload) < 2 ^ 32"
  shows "raw_log_append_frame log idx off hdr payload = Err TermFull"
  using assms by (simp add: raw_log_append_frame_def term_constants Let_def)

lemma raw_log_pad:
  assumes "length (rl_buffer log) = 4 * rl_term_length log" "idx < 4"
    and "32 dvd rl_term_length log" "32 dvd off" "off < rl_term_length log"
  shows "raw_log_write_pad_frame log idx off =
    Some (log\<lparr>rl_buffer := overwrite (rl_buffer log) (idx * rl_term_length log + off)
      (data_header_bytes (pad_header (rl_term_length log - off) off))\<rparr>)"
proof -
  have r: "32 \<le> rl_term_length log - off"
    using assms(3-5) by (auto simp: dvd_def simp flip: right_diff_distrib')
  then have "idx * rl_term_length log + off + 32 \<le> length (rl_buffer log)"
    using part_in_range [OF assms(2), of "off + 32" "rl_term_length log"] assms(1,5) by linarith
  with r assms(2,5) show ?thesis
    by (simp add: raw_log_write_pad_frame_def term_constants Let_def write_at_def dh.length_bytes)
qed

lemma raw_log_pad_end:
  "rl_term_length log \<le> off \<Longrightarrow> raw_log_write_pad_frame log idx off = Some log"
  by (simp add: raw_log_write_pad_frame_def)

section \<open>The invariant\<close>

text \<open>
  \<open>np_inv np hist q i\<close>: the publication holds the history \<open>hist\<close>; the published position is the
  start of frame \<open>q\<close> (every frame is published, except a pad frame that closes a term whose
  successor is still empty), the sender has scanned the first \<open>i\<close> frames.
\<close>

definition np_inv :: "network_publication \<Rightarrow> frame list list \<Rightarrow> nat \<Rightarrow> nat \<Rightarrow> bool" where
  "np_inv np hist q i \<longleftrightarrow>
     is_power_of_two (np_term_length np) \<and> 32 \<le> np_term_length np \<and> np_term_length np \<le> 2 ^ 30 \<and>
     np_term_length_mask np = np_term_length np - 1 \<and>
     np_position_bits_to_shift np = trailing_zeros (np_term_length np) \<and>
     rl_term_length (np_raw_log np) = np_term_length np \<and>
     32 \<le> np_mtu np \<and> np_mtu np \<le> np_term_length np \<and> np_max_payload_length np = np_mtu np - 32 \<and>
     log_rel (np_term_length np) (rl_buffer (np_raw_log np)) hist \<and> length hist \<le> 2 ^ 31 \<and>
     np_active_term_id np = np_initial_term_id np + of_nat (length hist - 1) \<and>
     np_term_offset np = enc_len (last hist) \<and>
     i \<le> q \<and> np_pub_position np = of_nat (enc_len (take q (concat hist))) \<and>
     np_sender_position np = of_nat (enc_len (take i (concat hist))) \<and>
     (q = length (concat hist) \<or>
      last hist = [] \<and> Suc q = length (concat hist) \<and> \<not> is_data_frame (last (concat hist)))"

definition np_config :: "network_publication \<Rightarrow> i32 \<times> nat \<times> i32 \<times> i32 \<times> nat" where
  "np_config np = (np_initial_term_id np, np_term_length np, np_session_id np, np_stream_id np, np_mtu np)"

lemma log_rel_bound:
  assumes "log_rel tlen buf hist"
  shows "enc_len (take q (concat hist)) \<le> length hist * tlen"
proof -
  have "enc_len (concat hist) \<le> length hist * tlen"
  proof -
    obtain hs fs where h: "hist = hs @ [fs]" using log_relD(2) [OF assms] by (metis rev_exhaust)
    with log_rel_total [of tlen buf hs fs] log_relD(6) [OF assms, of "length hs"] assms
    show ?thesis by simp
  qed
  moreover have "enc_len (take q (concat hist)) \<le> enc_len (concat hist)"
    by (metis append_take_drop_id enc_simps(6) le_add1)
  ultimately show ?thesis by linarith
qed

lemma np_inv_bound:
  assumes "np_inv np hist q i"
  shows "enc_len (take k (concat hist)) < 2 ^ 62"
proof -
  have "length hist * np_term_length np \<le> 2 ^ 31 * 2 ^ 30"
    using assms by (intro mult_le_mono) (simp_all add: np_inv_def)
  moreover have "enc_len (take k (concat hist)) \<le> length hist * np_term_length np"
    using assms log_rel_bound by (auto simp: np_inv_def)
  ultimately have "enc_len (take k (concat hist)) \<le> 2 ^ 31 * 2 ^ 30" by linarith
  then show ?thesis by simp
qed

lemma np_inv_diff:
  assumes "np_inv np hist q i"
  shows "sint (np_pub_position np - np_sender_position np) =
    int (enc_len (take q (concat hist))) - int (enc_len (take i (concat hist)))"
proof -
  have p: "np_pub_position np = of_nat (enc_len (take q (concat hist)))"
    "np_sender_position np = of_nat (enc_len (take i (concat hist)))" "i \<le> q"
    using assms by (simp_all add: np_inv_def)
  show ?thesis
    unfolding p(1,2) using np_inv_bound [OF assms] p(3)
    by (intro position_diff enc_len_take_mono)
qed

lemma np_back_pressure:
  assumes "np_inv np hist q i"
  shows "sint (of_nat (np_term_length np) * (of_nat PARTITION_COUNT - 1) :: i64)
      \<le> sint (np_pub_position np - np_sender_position np) \<longleftrightarrow>
    enc_len (take i (concat hist)) + 3 * np_term_length np \<le> enc_len (take q (concat hist))"
proof -
  have "(of_nat (np_term_length np) * (of_nat PARTITION_COUNT - 1) :: i64)
      = of_nat (3 * np_term_length np)"
    by (simp add: PARTITION_COUNT_def)
  moreover have "sint (of_nat (3 * np_term_length np) :: i64) = int (3 * np_term_length np)"
    using assms by (intro sint_of_nat) (simp add: np_inv_def)
  ultimately show ?thesis by (simp only: np_inv_diff [OF assms]) linarith
qed

lemma np_inv_partition:
  assumes "np_inv np hist q i"
  shows "partition_index (np_active_term_id np) (np_initial_term_id np) = (length hist - 1) mod 4"
  using assms partition_index_of_nat by (simp add: np_inv_def)

text \<open>A frame that fits in the active term is appended to the history and published.\<close>

lemma np_offer_append:
  assumes inv: "np_inv np (hs @ [fs]) q i" and pl: "length payload \<le> np_max_payload_length np"
    and bp: "enc_len (take q (concat (hs @ [fs]))) <
      enc_len (take i (concat (hs @ [fs]))) + 3 * np_term_length np"
    and fits: "enc_len fs + align_frame_length (32 + length payload) \<le> np_term_length np"
    and f: "f = offer_frame (np_session_id np) (np_stream_id np) (np_active_term_id np)
              (np_term_offset np) payload"
  shows "\<exists>np'. np_offer np payload =
      (Ok (of_nat (length hs * np_term_length np + enc_len fs
             + align_frame_length (32 + length payload))), np') \<and>
    np_inv np' (hs @ [fs @ [f]]) (length (concat (hs @ [fs @ [f]]))) i \<and>
    np_config np' = np_config np"
proof -
  let ?log = "np_raw_log np" and ?tlen = "np_term_length np"
    and ?a = "align_frame_length (32 + length payload)"
  let ?hdr = "offer_header (np_session_id np) (np_stream_id np) (np_active_term_id np)
      (np_term_offset np) (of_nat (32 + length payload))"
  let ?buf = "overwrite (rl_buffer ?log) (length hs mod 4 * ?tlen + enc_len fs) f"
  have rel: "log_rel ?tlen (rl_buffer ?log) (hs @ [fs])" and tl: "rl_term_length ?log = ?tlen"
    and b: "?tlen \<le> 2 ^ 30" "length hs < 2 ^ 31" and off: "np_term_offset np = enc_len fs"
    and act: "np_active_term_id np = np_initial_term_id np + of_nat (length hs)"
    using inv by (simp_all add: np_inv_def)
  have small: "DATA_HEADER_LENGTH + length payload < 2 ^ 31"
    using fits b align_ge [of "32 + length payload"] by (simp add: term_constants)
  note v = offer_frame_valid [OF small]
  have f': "f = data_header_bytes ?hdr @ payload"
    by (simp add: f offer_frame_def term_constants)
  have lenf: "length f = 32 + length payload"
    using v(4) by (simp add: f term_constants)
  have app: "raw_log_append_frame ?log (length hs mod 4) (enc_len fs) ?hdr payload =
      Ok (enc_len fs + ?a, ?log\<lparr>rl_buffer := ?buf\<rparr>)"
    using raw_log_append_fits [of ?log "length hs mod 4" "enc_len fs" payload ?hdr]
      log_relD(1) [OF rel] fits b tl by (simp add: f')
  have rel': "log_rel ?tlen ?buf (hs @ [fs @ [f]])"
    using v(1) fits lenf by (intro log_append [OF rel, of f f 0]) (simp_all add: f)
  let ?np = "np\<lparr>np_raw_log := ?log\<lparr>rl_buffer := ?buf\<rparr>, np_term_offset := enc_len fs + ?a,
    np_pub_position := of_nat (length hs * ?tlen + enc_len fs + ?a)\<rparr>"
  have pos: "compute_position (np_initial_term_id np) ?tlen (np_active_term_id np) (enc_len fs + ?a)
      = of_nat (length hs * ?tlen + enc_len fs + ?a)"
    using compute_position_of_nat [OF b(2), of "np_initial_term_id np" ?tlen "enc_len fs + ?a"]
    by (simp only: act add.assoc)
  have "np_offer np payload = (Ok (of_nat (length hs * ?tlen + enc_len fs + ?a)), ?np)"
    using pl bp np_back_pressure [OF inv] np_inv_partition [OF inv] app pos off
    by (simp add: np_offer_def Let_def term_constants)
  moreover have "i \<le> length (concat (hs @ [fs]))"
    using inv by (auto simp: np_inv_def)
  then have "np_inv ?np (hs @ [fs @ [f]]) (length (concat (hs @ [fs @ [f]]))) i"
    using inv rel' log_rel_total [OF rel'] lenf by (simp add: np_inv_def add.assoc)
  ultimately show ?thesis by (auto simp: np_config_def)
qed

text \<open>
  A frame that does not fit closes the term, with a pad frame when bytes are left, and opens an
  empty term; nothing is published.
\<close>

definition closing_pad :: "nat \<Rightarrow> nat \<Rightarrow> frame list" where
  "closing_pad tlen off = (if off < tlen then [pad_frame (tlen - off) off] else [])"

lemma log_close:
  assumes rel: "log_rel (rl_term_length log) (rl_buffer log) (hs @ [fs])"
    and tlen: "rl_term_length log \<le> 2 ^ 30"
  shows "\<exists>log'. raw_log_write_pad_frame log (length hs mod 4) (enc_len fs) = Some log' \<and>
    rl_term_length log' = rl_term_length log \<and>
    log_rel (rl_term_length log) (rl_buffer log')
      (hs @ [fs @ closing_pad (rl_term_length log) (enc_len fs)]) \<and>
    enc_len (fs @ closing_pad (rl_term_length log) (enc_len fs)) = rl_term_length log"
proof (cases "enc_len fs < rl_term_length log")
  case True
  let ?rem = "rl_term_length log - enc_len fs"
  note d = log_relD(3) [OF rel] enc_len_dvd [of fs]
  then have d': "32 dvd ?rem" using True by simp
  with True have "32 \<le> ?rem" by (intro dvd_imp_le) simp_all
  with tlen have v: "valid_frame (pad_frame ?rem (enc_len fs))"
    "length (pad_frame ?rem (enc_len fs)) = ?rem"
    using pad_frame_valid [of ?rem "enc_len fs"] by (simp_all add: term_constants)
  from raw_log_pad [OF log_relD(1) [OF rel] _ d True, of "length hs mod 4"]
    log_append [OF rel v(1) pad_frame_def] align_id [OF d'] v(2) True
  show ?thesis by (simp add: closing_pad_def)
next
  case False
  with rel log_relD(6) [OF rel, of "length hs"] show ?thesis
    by (simp add: raw_log_pad_end closing_pad_def)
qed

lemma np_offer_rotate:
  assumes inv: "np_inv np (hs @ [fs]) q i" and pl: "length payload \<le> np_max_payload_length np"
    and bp: "enc_len (take q (concat (hs @ [fs]))) <
      enc_len (take i (concat (hs @ [fs]))) + 3 * np_term_length np"
    and full: "np_term_length np < enc_len fs + align_frame_length (32 + length payload)"
    and n: "Suc (length hs) < 2 ^ 31"
  shows "\<exists>np'. np_offer np payload = (Err AdminAction, np') \<and>
    np_inv np' (hs @ [fs @ closing_pad (np_term_length np) (enc_len fs), []]) q i \<and>
    np_config np' = np_config np \<and> q = length (concat (hs @ [fs]))"
proof -
  let ?log = "np_raw_log np" and ?tlen = "np_term_length np"
    and ?pads = "closing_pad (np_term_length np) (enc_len fs)"
  let ?hist = "hs @ [fs @ ?pads]"
  have rel: "log_rel ?tlen (rl_buffer ?log) (hs @ [fs])" and tl: "rl_term_length ?log = ?tlen"
    and b: "?tlen \<le> 2 ^ 30" and off: "np_term_offset np = enc_len fs"
    and act: "np_active_term_id np = np_initial_term_id np + of_nat (length hs)"
    and mtu: "np_mtu np \<le> ?tlen" "np_max_payload_length np = np_mtu np - 32" "32 \<le> np_mtu np"
    using inv by (simp_all add: np_inv_def)
  have a: "align_frame_length (32 + length payload) \<le> ?tlen"
    using pl mtu log_relD(3) [OF rel] by (intro align_least) auto
  have q: "q = length (concat (hs @ [fs]))" using full a inv by (auto simp: np_inv_def)
  have i: "i \<le> length (concat (hs @ [fs]))" using inv by (auto simp: np_inv_def)
  have "enc_len fs + align_frame_length (32 + length payload) < 2 ^ 32"
    using a b log_relD(6) [OF rel, of "length hs"] by simp
  then have app: "raw_log_append_frame ?log (length hs mod 4) (enc_len fs) hdr payload = Err TermFull"
    for hdr using full tl by (intro raw_log_append_full) simp_all
  obtain log' where l: "raw_log_write_pad_frame ?log (length hs mod 4) (enc_len fs) = Some log'"
    "rl_term_length log' = ?tlen" "log_rel ?tlen (rl_buffer log') ?hist" "enc_len (fs @ ?pads) = ?tlen"
    using log_close [of ?log hs fs] rel tl b by auto
  let ?log'' = "raw_log_clean_partition log' (Suc (length hs) mod 4)"
  have rel': "log_rel ?tlen (rl_buffer ?log'') (?hist @ [[]])"
    using log_rotate [OF l(3)] l(2,4)
    by (simp add: raw_log_clean_partition_def PARTITION_COUNT_def)
  have p: "partition_index (np_initial_term_id np + of_nat (length hs) + 1) (np_initial_term_id np)
      = Suc (length hs) mod 4"
    using partition_index_of_nat [of "np_initial_term_id np" "Suc (length hs)"]
    by (simp add: add.commute add.left_commute)
  let ?np = "np\<lparr>np_raw_log := ?log'', np_active_term_id := np_active_term_id np + 1,
    np_term_offset := 0\<rparr>"
  have "np_offer np payload = (Err AdminAction, ?np)"
    using pl bp np_back_pressure [OF inv] np_inv_partition [OF inv] app off l(1) p
    by (simp add: np_offer_def np_rotate_term_def act Let_def)
  moreover have "np_inv ?np (?hist @ [[]]) q i"
    using inv rel' n i l(2)
    by (simp add: np_inv_def q act closing_pad_def raw_log_clean_partition_def add.commute) 
  ultimately show ?thesis using q by (auto simp: np_config_def)
qed

text \<open>
  A scan that is limited to the published bytes and starts in one of the last four terms walks on
  in the history.
\<close>

lemma np_scan_history:
  assumes inv: "np_inv np hist q i"
    and lim: "limit \<le> enc_len (take q (concat hist)) - enc_len (take i (concat hist))"
    and window: "length hist \<le> enc_len (take i (concat hist)) div np_term_length np + 4"
    and r: "np_sender_scan np limit = ((emitted, scanned), np')"
  shows "\<exists>k. i + k \<le> q \<and> map snd emitted = take k (drop i (concat hist)) \<and>
    np_inv np' hist q (i + k) \<and> np_config np' = np_config np \<and>
    enc_len (take i (concat hist)) + scanned = enc_len (take (i + k) (concat hist)) \<and>
    (0 < limit \<longrightarrow> 0 < k)"
proof -
  let ?s = "enc_len (take i (concat hist))" and ?tlen = "np_term_length np" and ?log = "np_raw_log np"
  obtain k where k: "?tlen = 2 ^ k" using inv by (auto simp: np_inv_def is_power_of_two_iff)
  have inv': "log_rel ?tlen (rl_buffer ?log) hist" "rl_term_length ?log = ?tlen"
    "np_sender_position np = of_nat ?s" "np_position_bits_to_shift np = trailing_zeros ?tlen"
    "np_term_length_mask np = ?tlen - 1" "?tlen \<le> 2 ^ 30" "i \<le> q" "q \<le> length (concat hist)"
    using inv by (auto simp: np_inv_def)
  have s: "?s < 2 ^ 62" using np_inv_bound [OF inv] .
  have off: "unat (ucast (of_nat ?s AND of_nat (?tlen - 1) :: i64) :: 32 word) = ?s mod ?tlen"
    using inv'(6) by (intro position_term_offset [OF k]) simp
  have part: "partition_index (np_initial_term_id np + of_nat (?s div ?tlen)) (np_initial_term_id np)
      = ?s div ?tlen mod 4"
    by (rule partition_index_of_nat)
  have term_id: "(ucast (signed_drop_bit (np_position_bits_to_shift np) (np_sender_position np)) :: i32)
      = of_nat (?s div ?tlen)"
    using position_term_id [OF k s] inv'(3,4) k by simp
  let ?scan = "scan_loop ?tlen (part_of (rl_buffer ?log) ?tlen (?s div ?tlen mod 4))
      (min limit (?tlen - ?s mod ?tlen)) (?s mod ?tlen) 0"
  have "np_sender_scan np limit =
      (?scan, np\<lparr>np_sender_position := of_nat (?s + snd ?scan)\<rparr>)"
    unfolding np_sender_scan_def Let_def inv'(3,5) off term_id [unfolded inv'(3)] part
    by (simp add: inv'(2) raw_log_scan_frames_def raw_log_partition_def PARTITION_COUNT_def
        part_of_def min_def not_le)
  with r have r': "?scan = (emitted, scanned)" "np' = np\<lparr>np_sender_position := of_nat (?s + scanned)\<rparr>"
    by auto
  obtain k where "i + k \<le> q" "map snd emitted = take k (drop i (concat hist))"
    "?s + scanned = enc_len (take (i + k) (concat hist))" "0 < limit \<longrightarrow> 0 < k"
    using log_scan_history [OF inv'(1) refl inv'(7,8) lim window refl] r'(1) by auto
  with inv r'(2) show ?thesis
    by (intro exI [of _ k]) (simp add: np_inv_def np_config_def)
qed

lemma np_new_inv:
  assumes new: "network_publication_new sid stid t0 tlen mtu = Some np"
    and b: "tlen \<le> 2 ^ 30" "mtu \<le> tlen"
  shows "np_inv np [[]] 0 0" "np_config np = (t0, tlen, sid, stid, mtu)"
proof -
  have t: "32 \<le> tlen" "is_power_of_two tlen" "32 \<le> mtu"
    using new by (auto simp: network_publication_new_def raw_log_new_def term_constants
        split: if_splits)
  then have "log_rel tlen (replicate (tlen * 4) 0) [[]]"
    using log_rel_new [of tlen] power_of_two_dvd by (simp add: mult.commute)
  with new b t show "np_inv np [[]] 0 0" "np_config np = (t0, tlen, sid, stid, mtu)"
    by (auto simp: network_publication_new_def raw_log_new_def np_inv_def np_config_def term_constants)
qed

section \<open>Refinement of an abstract log\<close>

text \<open>
  The abstract publication is a history of terms with two cursors: the number of published and of
  sent frames.  It has no bytes, partitions or words.
\<close>

record abs_pub =
  ap_hist :: "frame list list"
  ap_published :: nat
  ap_sent :: nat

definition ap_position :: "abs_pub \<Rightarrow> nat \<Rightarrow> nat" where
  "ap_position ap k = enc_len (take k (concat (ap_hist ap)))"

definition abs_offer ::
  "i32 \<times> nat \<times> i32 \<times> i32 \<times> nat \<Rightarrow> abs_pub \<Rightarrow> byte list \<Rightarrow> (offer_error, nat) outcome \<times> abs_pub" where
  "abs_offer cfg ap payload =
     (case cfg of (t0, tlen, sid, stid, mtu) \<Rightarrow>
        let term_count = length (ap_hist ap) - 1;
            off = enc_len (last (ap_hist ap));
            end_off = off + align_frame_length (DATA_HEADER_LENGTH + length payload);
            f = offer_frame sid stid (t0 + of_nat term_count) off payload
        in if mtu < DATA_HEADER_LENGTH + length payload then (Err PayloadTooLarge, ap)
           else if ap_position ap (ap_sent ap) + 3 * tlen \<le> ap_position ap (ap_published ap)
           then (Err BackPressured, ap)
           else if end_off \<le> tlen then
             let hist = butlast (ap_hist ap) @ [last (ap_hist ap) @ [f]]
             in (Ok (term_count * tlen + end_off),
                 ap\<lparr>ap_hist := hist, ap_published := length (concat hist)\<rparr>)
           else
             (Err AdminAction,
              ap\<lparr>ap_hist := butlast (ap_hist ap) @ [last (ap_hist ap) @ closing_pad tlen off, []]\<rparr>))"

definition np_refines :: "network_publication \<Rightarrow> abs_pub \<Rightarrow> bool" where
  "np_refines np ap \<longleftrightarrow> np_inv np (ap_hist ap) (ap_published ap) (ap_sent ap)"

fun map_outcome :: "('a \<Rightarrow> 'b) \<Rightarrow> ('e, 'a) outcome \<Rightarrow> ('e, 'b) outcome" where
  "map_outcome f (Ok x) = Ok (f x)"
| "map_outcome f (Err e) = Err e"
| "map_outcome f Fault = Fault"

lemma np_offer_refines:
  assumes ref: "np_refines np ap" and n: "length (ap_hist ap) < 2 ^ 31"
    and a: "abs_offer (np_config np) ap payload = (r, ap')"
  shows "\<exists>np'. np_offer np payload = (map_outcome of_nat r, np') \<and> np_refines np' ap' \<and>
    np_config np' = np_config np"
proof -
  obtain hs fs where h: "ap_hist ap = hs @ [fs]"
    using ref log_relD(2) by (cases "ap_hist ap" rule: rev_cases) (auto simp: np_refines_def np_inv_def)
  have inv: "np_inv np (hs @ [fs]) (ap_published ap) (ap_sent ap)"
    using ref by (simp add: np_refines_def h)
  have c: "np_config np = (np_initial_term_id np, np_term_length np, np_session_id np, np_stream_id np, np_mtu np)"
    by (simp add: np_config_def)
  have cfg: "np_max_payload_length np = np_mtu np - 32" "32 \<le> np_mtu np"
    "np_term_offset np = enc_len fs" "np_active_term_id np = np_initial_term_id np + of_nat (length hs)"
    using inv by (simp_all add: np_inv_def)
  have a': "abs_offer (np_initial_term_id np, np_term_length np, np_session_id np,
      np_stream_id np, np_mtu np) ap payload = (r, ap')"
    using a by (simp only: c)
  let ?bp = "enc_len (take (ap_sent ap) (concat (hs @ [fs]))) + 3 * np_term_length np
      \<le> enc_len (take (ap_published ap) (concat (hs @ [fs])))"
  let ?fits = "enc_len fs + align_frame_length (32 + length payload) \<le> np_term_length np"
  note abs = abs_offer_def ap_position_def Let_def DATA_HEADER_LENGTH_def h
  consider (large) "np_mtu np < 32 + length payload"
    | (bp) "\<not> np_mtu np < 32 + length payload" ?bp
    | (fits) "\<not> np_mtu np < 32 + length payload" "\<not> ?bp" ?fits
    | (full) "\<not> np_mtu np < 32 + length payload" "\<not> ?bp" "\<not> ?fits"
    by blast
  then show ?thesis
  proof cases
    case large
    then have "np_max_payload_length np < length payload" using cfg by linarith
    moreover have "r = Err PayloadTooLarge" "ap' = ap" using a' large by (simp_all add: abs)
    ultimately show ?thesis using ref by (simp add: np_offer_def)
  next
    case bp
    then have "\<not> np_max_payload_length np < length payload" using cfg by linarith
    moreover have "r = Err BackPressured" "ap' = ap"
      using a' bp by (simp_all add: abs del: concat_append)
    ultimately show ?thesis
      using ref np_back_pressure [OF inv] bp(2) by (simp add: np_offer_def del: concat_append)
  next
    case fits
    have pl: "length payload \<le> np_max_payload_length np" using fits(1) cfg by linarith
    let ?hist = "hs @ [fs @ [offer_frame (np_session_id np) (np_stream_id np)
      (np_active_term_id np) (np_term_offset np) payload]]"
    have "r = Ok (length hs * np_term_length np + (enc_len fs + align_frame_length (32 + length payload)))"
      "ap' = ap\<lparr>ap_hist := ?hist, ap_published := length (concat ?hist)\<rparr>"
      using a' fits cfg by (simp_all add: abs del: concat_append)
    with np_offer_append [OF inv pl _ fits(3) refl] fits(2) show ?thesis
      by (simp add: np_refines_def not_le add.assoc del: concat_append)
  next
    case full
    have pl: "length payload \<le> np_max_payload_length np" using full(1) cfg by linarith
    have "r = Err AdminAction"
      "ap' = ap\<lparr>ap_hist := hs @ [fs @ closing_pad (np_term_length np) (enc_len fs), []]\<rparr>"
      using a' full by (simp_all add: abs del: concat_append)
    with np_offer_rotate [OF inv pl] full(2,3) n show ?thesis
      by (auto simp: np_refines_def not_le h simp del: concat_append)
  qed
qed

section \<open>Properties\<close>

text \<open>
  C10: \<open>offer\<close> implements the abstract log on every branch.  If the publication represents an abstract
  log, then \<open>offer\<close> returns what the abstract offer returns (payload too large, back pressure, the
  new position, or an administrative action), never faults, and the resulting publication represents
  the resulting abstract log: byte layout, partition rotation, pad frame, cleaning and positions
  included.
\<close>

theorem offer_implements_log:
  assumes "np_refines np ap" "length (ap_hist ap) < 2 ^ 31"
    and "abs_offer (np_config np) ap payload = (r, ap')"
  shows "\<exists>np'. np_offer np payload = (map_outcome of_nat r, np') \<and> np_refines np' ap' \<and>
    np_config np' = np_config np"
  by (rule np_offer_refines [OF assms])

definition example_pub :: network_publication where
  "example_pub = the (network_publication_new 7 10 100 64 64)"

lemma example_pub_refines:
  "np_refines example_pub \<lparr>ap_hist = [[]], ap_published = 0, ap_sent = 0\<rparr>"
  "np_config example_pub = (100, 64, 7, 10, 64)"
proof -
  have "network_publication_new 7 10 100 64 64 = Some example_pub"
    by (simp add: example_pub_def network_publication_new_def raw_log_new_def term_constants
        is_power_of_two.simps)
  from np_new_inv [OF this]
  show "np_refines example_pub \<lparr>ap_hist = [[]], ap_published = 0, ap_sent = 0\<rparr>"
    "np_config example_pub = (100, 64, 7, 10, 64)"
    by (simp_all add: np_refines_def)
qed

theorem offer_implements_log_witness:
  "\<exists>np'. np_offer example_pub [1, 2] = (Ok 64, np') \<and>
     np_refines np' \<lparr>ap_hist = [[offer_frame 7 10 100 0 [1, 2]]], ap_published = 1, ap_sent = 0\<rparr>"
  using offer_implements_log [OF example_pub_refines(1), of "[1, 2]" "Ok 64"
      "\<lparr>ap_hist = [[offer_frame 7 10 100 0 [1, 2]]], ap_published = 1, ap_sent = 0\<rparr>"]
  by (auto simp: example_pub_refines(2) abs_offer_def ap_position_def term_constants align_eq)

text \<open>
  C25: Positions are exact up to \<open>2 ^ 31\<close> terms: the term id and the term offset that the sender reads
  off a position by shift and mask are those the publisher computed it from, across the wrap-around
  of the term id.
\<close>

theorem position_decodes:
  assumes "is_power_of_two tlen" "tlen \<le> 2 ^ 30" "n < 2 ^ 31" "off < tlen"
    and "pos = compute_position t0 tlen (t0 + of_nat n) off"
  shows "t0 + ucast (signed_drop_bit (trailing_zeros tlen) pos) = t0 + of_nat n \<and>
    unat (ucast (pos AND of_nat (tlen - 1)) :: 32 word) = off \<and> 0 \<le> sint pos"
proof -
  obtain k where k: "tlen = 2 ^ k" using assms(1) by (auto simp: is_power_of_two_iff)
  have pos: "pos = of_nat (n * tlen + off)" using assms(3,5) by (simp only: compute_position_of_nat)
  have "Suc n * tlen \<le> 2 ^ 31 * 2 ^ 30" using assms(2,3) by (intro mult_le_mono) simp_all
  then have b: "n * tlen + off < 2 ^ 62" using assms(4) by simp
  have "sint pos = int (n * tlen + off)" unfolding pos using b by (intro sint_of_nat) (simp del: of_nat_mult of_nat_add)
  moreover have "unat (ucast (pos AND of_nat (tlen - 1)) :: 32 word) = (n * tlen + off) mod tlen"
    unfolding pos using assms(2) by (intro position_term_offset [OF k]) simp
  moreover have "(ucast (signed_drop_bit (trailing_zeros tlen) pos) :: i32) = of_nat ((n * tlen + off) div tlen)"
    unfolding pos using position_term_id [OF k b] k by simp
  ultimately show ?thesis using assms(4) by (simp del: of_nat_mult of_nat_add)
qed

theorem position_decodes_witness:
  "unat (ucast (compute_position 0x7FFFFFFF 64 (0x7FFFFFFF + of_nat 3) 32 AND of_nat 63) :: 32 word) = 32"
  using position_decodes [of 64 3 32, OF _ _ _ _ refl, of "0x7FFFFFFF"] by (simp add: is_power_of_two.simps)

text \<open>
  C33: After \<open>2 ^ 31\<close> terms the position computation breaks: the term count is read as a negative
  number, so the first position of that term is the negation of the last position of the term
  before it instead of continuing from it.
\<close>

theorem position_wraps_negative:
  assumes "0 < tlen" "tlen \<le> 2 ^ 30"
  shows "sint (compute_position t0 tlen (t0 + of_nat (2 ^ 31 - 1)) tlen) = 2 ^ 31 * int tlen \<and>
    sint (compute_position t0 tlen (t0 + of_nat (2 ^ 31)) 0) = - (2 ^ 31 * int tlen)"
proof -
  have "compute_position t0 tlen (t0 + of_nat (2 ^ 31 - 1)) tlen = of_nat ((2 ^ 31 - 1) * tlen + tlen)"
    by (rule compute_position_of_nat) simp
  also have "(2 ^ 31 - 1) * tlen + tlen = 2 ^ 31 * tlen" by simp
  finally have 1: "compute_position t0 tlen (t0 + of_nat (2 ^ 31 - 1)) tlen = of_int (2 ^ 31 * int tlen)"
    by simp
  have "(scast (of_nat (2 ^ 31) :: i32) :: i64) = - of_nat (2 ^ 31)" by simp
  then have 2: "compute_position t0 tlen (t0 + of_nat (2 ^ 31)) 0 = of_int (- (2 ^ 31 * int tlen))"
    by (simp add: compute_position_def)
  show ?thesis
    unfolding 1 2 using assms by (intro conjI sint_of_int) simp_all
qed

theorem position_wraps_negative_witness:
  "sint (compute_position 0 64 (0 + of_nat (2 ^ 31)) 0) = - (2 ^ 31 * 64)"
  using position_wraps_negative [of 64 0] by simp
end
