(* ===== verification/Publication_Delivery.thy ===== *)
theory Publication_Delivery
  imports Network_Publication "HOL-Library.Sublist"
begin

text \<open>
  What a publisher and a sender that share a publication deliver, for every interleaving of their
  calls.  A publisher step is \<open>offer\<close>; a sender step is the scan of \<open>do_send\<close> in
  \<^verbatim>\<open>src/src/agent/sender.rs\<close>, whose limit is the least of the flow control window, the published
  bytes and the free send slots.
\<close>

section \<open>The scan of the sender\<close>

definition scan_limit :: "i64 \<Rightarrow> i64 \<Rightarrow> i64 \<Rightarrow> nat \<Rightarrow> nat \<Rightarrow> nat" where
  "scan_limit sender_lim sender_pos pub_pos send_slots mtu =
     (let window_avail = sint (sender_lim - sender_pos);
          data_avail = sint (pub_pos - sender_pos);
          available = (if window_avail \<le> 0 \<or> data_avail \<le> 0 then 0 else min window_avail data_avail);
          limit = (if 2 ^ 32 - 1 < available then 2 ^ 32 - 1 else nat available);
          slot_limit = min (send_slots * mtu) (2 ^ 64 - 1)
      in if slot_limit < limit then slot_limit else limit)"

definition skip_pad :: "byte list \<Rightarrow> bool" where
  "skip_pad data \<longleftrightarrow> 8 \<le> length data \<and> read_u16 data 6 = FRAME_TYPE_PAD"

text \<open>The data frames that one pass hands to \<open>send_data\<close>, and the publication afterwards.\<close>

definition np_do_send ::
  "network_publication \<Rightarrow> i64 \<Rightarrow> nat \<Rightarrow> byte list list \<times> network_publication" where
  "np_do_send np sender_lim send_slots =
     (let limit = scan_limit sender_lim (np_sender_position np) (np_pub_position np) send_slots
                    (np_mtu np)
      in if 0 < limit then
           let r = np_sender_scan np limit
           in (filter (\<lambda>data. \<not> skip_pad data) (map snd (fst (fst r))), snd r)
         else ([], np))"

section \<open>Interleavings\<close>

datatype pub_op = Offer "byte list" | Send i64 nat

text \<open>A run returns the accepted payloads, the transmitted frames and the final publication.\<close>

fun np_run :: "network_publication \<Rightarrow> pub_op list \<Rightarrow>
    byte list list \<times> byte list list \<times> network_publication" where
  "np_run np [] = ([], [], np)"
| "np_run np (Offer payload # ops) =
     (case np_offer np payload of
        (Ok _, np') \<Rightarrow> (case np_run np' ops of (acc, sent, np'') \<Rightarrow> (payload # acc, sent, np''))
      | (_, np') \<Rightarrow> np_run np' ops)"
| "np_run np (Send lim slots # ops) =
     (case np_do_send np lim slots of
        (fs, np') \<Rightarrow> (case np_run np' ops of (acc, sent, np'') \<Rightarrow> (acc, fs @ sent, np'')))"

text \<open>
  A rotation is safe when it closes an exactly filled term, or when the sender is at most two terms
  behind; \<open>safe_rotations\<close> asks this of every rotation of a run.
\<close>

definition rotation_safe :: "network_publication \<Rightarrow> bool" where
  "rotation_safe np \<longleftrightarrow> np_term_offset np = np_term_length np \<or>
     sint (np_pub_position np - np_sender_position np) \<le> 2 * int (np_term_length np)"

fun safe_rotations :: "network_publication \<Rightarrow> pub_op list \<Rightarrow> bool" where
  "safe_rotations np [] = True"
| "safe_rotations np (Offer payload # ops) =
     ((fst (np_offer np payload) = Err AdminAction \<longrightarrow> rotation_safe np) \<and>
      safe_rotations (snd (np_offer np payload)) ops)"
| "safe_rotations np (Send lim slots # ops) = safe_rotations (snd (np_do_send np lim slots)) ops"

section \<open>Preservation\<close>

lemma scan_limit_le: "scan_limit lim s p slots mtu \<le> nat (sint (p - s))"
proof -
  have clamp: "(if a < b then a else b) \<le> b" for a b :: nat by simp
  have cap: "(if 2 ^ 32 - 1 < x then 2 ^ 32 - 1 else nat x) \<le> nat x" for x :: int by auto
  have "scan_limit lim s p slots mtu \<le> nat (if sint (lim - s) \<le> 0 \<or> sint (p - s) \<le> 0 then 0
      else min (sint (lim - s)) (sint (p - s)))"
    unfolding scan_limit_def Let_def by (rule order_trans [OF clamp cap])
  then show ?thesis by (auto split: if_splits)
qed

lemma scan_limit_pos:
  "0 < sint (lim - s) \<Longrightarrow> 0 < sint (p - s) \<Longrightarrow> 0 < slots \<Longrightarrow> 0 < mtu \<Longrightarrow>
     0 < scan_limit lim s p slots mtu"
  by (auto simp: scan_limit_def Let_def)

text \<open>The invariant of a run: the sender is in one of the last four terms.\<close>

definition run_inv :: "network_publication \<Rightarrow> frame list list \<Rightarrow> nat \<Rightarrow> nat \<Rightarrow> bool" where
  "run_inv np hist q i \<longleftrightarrow> np_inv np hist q i \<and>
     length hist \<le> enc_len (take i (concat hist)) div np_term_length np + 4"

lemma np_inv_published:
  assumes "np_inv np hist q i"
  shows "payloads (take q (concat hist)) = payloads (concat hist)"
proof (cases "q = length (concat hist)")
  case False
  with assms have q: "Suc q = length (concat hist)" "\<not> is_data_frame (last (concat hist))"
    by (auto simp: np_inv_def)
  obtain fs f where "concat hist = fs @ [f]"
    using q(1) by (cases "concat hist" rule: rev_cases) (simp_all only: list.size)
  with q show ?thesis by simp
qed simp

lemma window_after_append:
  assumes "length (hs @ [fs]) \<le> enc_len (take i (concat (hs @ [fs]))) div tlen + 4"
    "i \<le> length (concat (hs @ [fs]))"
  shows "length (hs @ [fs @ gs]) \<le> enc_len (take i (concat (hs @ [fs @ gs]))) div tlen + 4"
  using assms by simp

lemma window_after_rotate:
  assumes inv: "np_inv np (hs @ [fs]) q i" and q: "q = length (concat (hs @ [fs]))"
    and bp: "enc_len (take q (concat (hs @ [fs]))) <
      enc_len (take i (concat (hs @ [fs]))) + 3 * np_term_length np"
    and safe: "rotation_safe np"
  shows "Suc (length (hs @ [fs])) \<le> enc_len (take i (concat (hs @ [fs]))) div np_term_length np + 4"
proof -
  let ?s = "enc_len (take i (concat (hs @ [fs])))" and ?tlen = "np_term_length np"
  have rel: "log_rel ?tlen (rl_buffer (np_raw_log np)) (hs @ [fs])" and t: "0 < ?tlen"
    using inv by (auto simp: np_inv_def)
  have p: "enc_len (take q (concat (hs @ [fs]))) = length hs * ?tlen + enc_len fs"
    using log_rel_total [OF rel] by (simp add: q)
  have "sint (np_pub_position np - np_sender_position np) = int (length hs * ?tlen + enc_len fs) - int ?s"
    using np_inv_diff [OF inv] by (simp only: p)
  moreover have "np_term_offset np = enc_len fs" using inv by (simp add: np_inv_def)
  ultimately have "enc_len fs = ?tlen \<or> int (length hs * ?tlen + enc_len fs) - int ?s \<le> 2 * int ?tlen"
    using safe by (simp only: rotation_safe_def)
  then have "length hs * ?tlen \<le> ?s + 2 * ?tlen"
    using bp [unfolded p] by linarith
  then have "length hs * ?tlen div ?tlen \<le> (?s + 2 * ?tlen) div ?tlen" by (rule div_le_mono)
  with t show ?thesis by simp
qed

lemma run_inv_last:
  assumes "run_inv np hist q i"
  obtains hs fs where "hist = hs @ [fs]"
  using assms log_relD(2) by (cases hist rule: rev_cases) (auto simp: run_inv_def np_inv_def)

definition accepted :: "(offer_error, i64) outcome \<Rightarrow> byte list \<Rightarrow> byte list list" where
  "accepted r payload = (case r of Ok _ \<Rightarrow> [payload] | _ \<Rightarrow> [])"

lemma np_offer_step:
  assumes run: "run_inv np hist q i" and n: "length hist < 2 ^ 31"
    and r: "np_offer np payload = (r, np')" and safe: "r = Err AdminAction \<longrightarrow> rotation_safe np"
  shows "\<exists>hist' q'. run_inv np' hist' q' i \<and> length hist' \<le> Suc (length hist) \<and>
    payloads (concat hist') = payloads (concat hist) @ accepted r payload \<and>
    take i (concat hist') = take i (concat hist) \<and> np_config np' = np_config np \<and> r \<noteq> Fault"
proof -
  from run_inv_last [OF run] obtain hs fs where h: "hist = hs @ [fs]" .
  have inv: "np_inv np (hs @ [fs]) q i" using run by (simp add: run_inv_def h)
  have win: "length (hs @ [fs]) \<le> enc_len (take i (concat (hs @ [fs]))) div np_term_length np + 4"
    using run by (simp add: run_inv_def h)
  have i: "i \<le> length (concat (hs @ [fs]))" using inv by (auto simp: np_inv_def)
  let ?tlen = "np_term_length np"
  consider (large) "np_max_payload_length np < length payload"
    | (bp) "length payload \<le> np_max_payload_length np"
        "enc_len (take i (concat (hs @ [fs]))) + 3 * ?tlen \<le> enc_len (take q (concat (hs @ [fs])))"
    | (fits) "length payload \<le> np_max_payload_length np"
        "enc_len (take q (concat (hs @ [fs]))) < enc_len (take i (concat (hs @ [fs]))) + 3 * ?tlen"
        "enc_len fs + align_frame_length (32 + length payload) \<le> ?tlen"
    | (full) "length payload \<le> np_max_payload_length np"
        "enc_len (take q (concat (hs @ [fs]))) < enc_len (take i (concat (hs @ [fs]))) + 3 * ?tlen"
        "?tlen < enc_len fs + align_frame_length (32 + length payload)"
    by linarith
  then show ?thesis
  proof cases
    case large
    then have "r = Err PayloadTooLarge" "np' = np" using r by (simp_all add: np_offer_def)
    with run show ?thesis by (intro exI [of _ hist] exI [of _ q]) (simp add: accepted_def)
  next
    case bp
    then have "r = Err BackPressured" "np' = np"
      using r np_back_pressure [OF inv] by (simp_all add: np_offer_def)
    with run show ?thesis by (intro exI [of _ hist] exI [of _ q]) (simp add: accepted_def)
  next
    case fits
    let ?f = "offer_frame (np_session_id np) (np_stream_id np) (np_active_term_id np)
      (np_term_offset np) payload"
    have small: "DATA_HEADER_LENGTH + length payload < 2 ^ 31"
      using fits(3) inv align_ge [of "32 + length payload"] by (simp add: np_inv_def term_constants)
    from np_offer_append [OF inv fits refl] r have
      np': "np_inv np' (hs @ [fs @ [?f]]) (length (concat (hs @ [fs @ [?f]]))) i"
      "np_config np' = np_config np" and ok: "\<exists>p. r = Ok p"
      by auto
    have "run_inv np' (hs @ [fs @ [?f]]) (length (concat (hs @ [fs @ [?f]]))) i"
      using np' window_after_append [OF win i, of "[?f]"] by (simp add: run_inv_def np_config_def)
    with np'(2) ok i offer_frame_valid(2,3) [OF small] show ?thesis
      by (intro exI [of _ "hs @ [fs @ [?f]]"] exI [of _ "length (concat (hs @ [fs @ [?f]]))"])
        (auto simp: h accepted_def)
  next
    case full
    let ?pads = "closing_pad ?tlen (enc_len fs)"
    from np_offer_rotate [OF inv full] n r h have
      np': "np_inv np' (hs @ [fs @ ?pads, []]) q i" "np_config np' = np_config np"
      and q: "q = length (concat (hs @ [fs]))" and r': "r = Err AdminAction"
      by auto
    have "Suc (length (hs @ [fs])) \<le> enc_len (take i (concat (hs @ [fs]))) div ?tlen + 4"
      using window_after_rotate [OF inv q full(2)] safe r' by simp
    then have "run_inv np' (hs @ [fs @ ?pads, []]) q i"
      using np' i by (simp add: run_inv_def np_config_def)
    with np'(2) r' i show ?thesis
      by (intro exI [of _ "hs @ [fs @ ?pads, []]"] exI [of _ q])
        (simp add: h accepted_def closing_pad_def)
  qed
qed

lemma skip_pad_valid: "valid_frame f \<Longrightarrow> skip_pad f \<longleftrightarrow> \<not> is_data_frame f"
  using valid_frame_length(3) [of f] by (simp add: skip_pad_def is_data_frame_def)

lemma np_do_send_step:
  assumes run: "run_inv np hist q i" and r: "np_do_send np lim slots = (sent, np')"
  shows "\<exists>k. i + k \<le> q \<and> run_inv np' hist q (i + k) \<and>
    map (drop DATA_HEADER_LENGTH) sent = payloads (take k (drop i (concat hist))) \<and>
    np_config np' = np_config np \<and>
    (0 < scan_limit lim (np_sender_position np) (np_pub_position np) slots (np_mtu np) \<longrightarrow> 0 < k)"
proof -
  let ?limit = "scan_limit lim (np_sender_position np) (np_pub_position np) slots (np_mtu np)"
  have inv: "np_inv np hist q i" and iq: "i \<le> q" using run by (auto simp: run_inv_def np_inv_def)
  have v: "list_all valid_frame (concat hist)"
    using inv log_rel_frames by (auto simp: np_inv_def)
  show ?thesis
  proof (cases "0 < ?limit")
    case False
    then have "sent = []" "np' = np" using r by (simp_all add: np_do_send_def)
    with False iq run show ?thesis by (intro exI [of _ 0]) simp
  next
    case True
    obtain em n where sc: "np_sender_scan np ?limit = ((em, n), np')"
      "sent = filter (\<lambda>data. \<not> skip_pad data) (map snd em)"
      using r True by (cases "np_sender_scan np ?limit") (auto simp: np_do_send_def Let_def)
    have "?limit \<le> enc_len (take q (concat hist)) - enc_len (take i (concat hist))"
      using scan_limit_le [of lim "np_sender_position np" "np_pub_position np" slots "np_mtu np"]
        np_inv_diff [OF inv] by linarith
    from np_scan_history [OF inv this _ sc(1)] run obtain k where
      k: "i + k \<le> q" "map snd em = take k (drop i (concat hist))" "np_inv np' hist q (i + k)"
        "np_config np' = np_config np" "0 < k"
      using True by (auto simp: run_inv_def)
    have "enc_len (take i (concat hist)) div np_term_length np
        \<le> enc_len (take (i + k) (concat hist)) div np_term_length np"
      by (intro div_le_mono enc_len_take_mono) simp
    then have "run_inv np' hist q (i + k)"
      using run k(3,4) by (simp add: run_inv_def np_config_def)
    moreover have "filter (\<lambda>data. \<not> skip_pad data) (take k (drop i (concat hist)))
        = filter is_data_frame (take k (drop i (concat hist)))"
      using v by (intro filter_cong refl)
        (auto simp: list_all_iff skip_pad_valid dest!: in_set_takeD in_set_dropD simp del: set_concat)
    ultimately show ?thesis
      using k True sc(2) by (intro exI [of _ k]) (simp add: payloads_def)
  qed
qed

lemma np_run_inv:
  assumes "run_inv np hist q i" "length hist + length ops \<le> 2 ^ 31" "safe_rotations np ops"
    and "np_run np ops = (acc, sent, np')"
  shows "\<exists>hist' q' i'. run_inv np' hist' q' i' \<and> np_config np' = np_config np \<and>
    payloads (concat hist') = payloads (concat hist) @ acc \<and>
    payloads (take i' (concat hist')) =
      payloads (take i (concat hist)) @ map (drop DATA_HEADER_LENGTH) sent"
  using assms
proof (induction ops arbitrary: np hist q i acc sent)
  case Nil
  then show ?case by (intro exI [of _ hist] exI [of _ q] exI [of _ i]) simp
next
  case (Cons op ops)
  show ?case
  proof (cases op)
    case (Offer payload)
    obtain r np1 where o: "np_offer np payload = (r, np1)" by (cases "np_offer np payload")
    obtain hist1 q1 where s1: "run_inv np1 hist1 q1 i" "length hist1 \<le> Suc (length hist)"
      "payloads (concat hist1) = payloads (concat hist) @ accepted r payload"
      "take i (concat hist1) = take i (concat hist)" "np_config np1 = np_config np"
      using np_offer_step [OF Cons.prems(1) _ o] Cons.prems(2,3) Offer o by auto
    obtain acc1 where run: "np_run np1 ops = (acc1, sent, np')" "acc = accepted r payload @ acc1"
      using Cons.prems(4) Offer o
      by (cases "np_run np1 ops") (auto simp: accepted_def split: outcome.splits)
    show ?thesis
      using Cons.IH [OF s1(1) _ _ run(1)] Cons.prems(2,3) s1 Offer o run(2) by auto
  next
    case (Send lim slots)
    obtain fs np1 where o: "np_do_send np lim slots = (fs, np1)" by (cases "np_do_send np lim slots")
    obtain k where s1: "run_inv np1 hist q (i + k)" "np_config np1 = np_config np"
      "map (drop DATA_HEADER_LENGTH) fs = payloads (take k (drop i (concat hist)))"
      using np_do_send_step [OF Cons.prems(1) o] by auto
    obtain sent1 where run: "np_run np1 ops = (acc, sent1, np')" "sent = fs @ sent1"
      using Cons.prems(4) Send o by (cases "np_run np1 ops") auto
    show ?thesis
      using Cons.IH [OF s1(1) _ _ run(1)] Cons.prems(2,3) s1 Send o run(2) by (auto simp: take_add)
  qed
qed

lemma run_inv_new:
  assumes "network_publication_new sid stid t0 tlen mtu = Some np" "tlen \<le> 2 ^ 30" "mtu \<le> tlen"
  shows "run_inv np [[]] 0 0"
  using np_new_inv [OF assms] by (simp add: run_inv_def)

lemma run_inv_caught_up:
  assumes run: "run_inv np hist q i" and eq: "np_sender_position np = np_pub_position np"
  shows "i = q"
proof (rule ccontr)
  assume "i \<noteq> q"
  have inv: "np_inv np hist q i" "i \<le> q" "q \<le> length (concat hist)"
    and v: "list_all valid_frame (concat hist)"
    using run log_rel_frames by (auto simp: run_inv_def np_inv_def)
  then have "enc_len (take i (concat hist)) < enc_len (take q (concat hist))"
    using \<open>i \<noteq> q\<close> by (intro enc_len_take_strict) auto
  with np_inv_diff [OF inv(1)] eq show False by simp
qed

lemma np_run_delivers:
  assumes "network_publication_new sid stid t0 tlen mtu = Some np" "tlen \<le> 2 ^ 30" "mtu \<le> tlen"
    and "length ops < 2 ^ 31" "safe_rotations np ops"
    and "np_run np ops = (acc, sent, np')"
  shows "prefix (map (drop DATA_HEADER_LENGTH) sent) acc"
    "np_sender_position np' = np_pub_position np' \<Longrightarrow> map (drop DATA_HEADER_LENGTH) sent = acc"
proof -
  obtain hist q i where h: "run_inv np' hist q i" "payloads (concat hist) = acc"
    "payloads (take i (concat hist)) = map (drop DATA_HEADER_LENGTH) sent"
    using np_run_inv [OF run_inv_new [OF assms(1-3)] _ assms(5,6)] assms(4) by auto
  have "prefix (payloads (take i (concat hist))) (payloads (concat hist))"
    by (metis append_take_drop_id payloads_simps(2) prefixI)
  then show "prefix (map (drop DATA_HEADER_LENGTH) sent) acc" by (simp only: h)
  assume "np_sender_position np' = np_pub_position np'"
  from run_inv_caught_up [OF h(1) this] np_inv_published [of np' hist q i] h
  show "map (drop DATA_HEADER_LENGTH) sent = acc" by (simp add: run_inv_def)
qed

text \<open>Frames of one size that divides the term length fill every term exactly.\<close>

lemma np_offer_offset:
  assumes "np_offer np payload = (r, np')"
  shows "r = Err AdminAction \<Longrightarrow> np_term_length np = rl_term_length (np_raw_log np) \<Longrightarrow>
      np_term_length np < np_term_offset np + align_frame_length (32 + length payload) \<and>
      np_term_offset np' = 0"
    "r \<noteq> Err AdminAction \<Longrightarrow> np_term_offset np + align_frame_length (32 + length payload) < 2 ^ 32 \<Longrightarrow>
      np_term_offset np' = np_term_offset np \<or>
      np_term_offset np' = np_term_offset np + align_frame_length (32 + length payload)"
proof -
  have "np_term_length np < np_term_offset np + align_frame_length (32 + length payload)"
    if "np_term_length np < (np_term_offset np + align_frame_length (32 + length payload) mod 2 ^ 32) mod 2 ^ 32"
    using that mod_less_eq_dividend
      [of "np_term_offset np + align_frame_length (32 + length payload) mod 2 ^ 32" "2 ^ 32"]
      mod_less_eq_dividend [of "align_frame_length (32 + length payload)" "2 ^ 32"] by linarith
  then show "r = Err AdminAction \<Longrightarrow> np_term_length np = rl_term_length (np_raw_log np) \<Longrightarrow>
      np_term_length np < np_term_offset np + align_frame_length (32 + length payload) \<and>
      np_term_offset np' = 0"
    using assms
    by (auto simp: np_offer_def Let_def raw_log_append_frame_def np_rotate_term_def term_constants
        of_option_def split: if_splits outcome.splits append_error.splits option.splits)
  show "r \<noteq> Err AdminAction \<Longrightarrow> np_term_offset np + align_frame_length (32 + length payload) < 2 ^ 32 \<Longrightarrow>
      np_term_offset np' = np_term_offset np \<or>
      np_term_offset np' = np_term_offset np + align_frame_length (32 + length payload)"
    using assms
    by (auto simp: np_offer_def Let_def raw_log_append_frame_def np_rotate_term_def term_constants
        of_option_def split: if_splits outcome.splits append_error.splits option.splits)
qed

lemma dvd_fill: "(a :: nat) dvd t \<Longrightarrow> a dvd x \<Longrightarrow> x \<le> t \<Longrightarrow> t < x + a \<Longrightarrow> x = t"
  by (metis dvd_diff_nat dvd_imp_le less_diff_conv2 linorder_not_less nat_less_le zero_less_diff add.commute)

lemma uniform_safe_rotations:
  assumes "run_inv np hist q i" "length hist + length ops \<le> 2 ^ 31" "a dvd np_term_length np"
    and "a dvd np_term_offset np"
    and "\<forall>payload. Offer payload \<in> set ops \<longrightarrow> align_frame_length (32 + length payload) = a"
  shows "safe_rotations np ops"
  using assms
proof (induction ops arbitrary: np hist q i)
  case (Cons op ops)
  have inv: "np_term_offset np \<le> np_term_length np" "np_term_length np \<le> 2 ^ 30" "0 < np_term_length np"
    "rl_term_length (np_raw_log np) = np_term_length np"
    using Cons.prems(1) log_relD(2) log_relD(6) [of "np_term_length np" _ hist "length hist - 1"]
    by (auto simp: run_inv_def np_inv_def last_conv_nth)
  then have a: "a \<le> 2 ^ 30" using Cons.prems(3) dvd_imp_le [of a "np_term_length np"] by linarith
  show ?case
  proof (cases op)
    case (Offer payload)
    have pa: "align_frame_length (32 + length payload) = a" using Cons.prems(5) Offer by simp
    obtain r np1 where o: "np_offer np payload = (r, np1)" by (cases "np_offer np payload")
    have safe: "r = Err AdminAction \<longrightarrow> rotation_safe np"
      using np_offer_offset(1) [OF o] inv(1,4) dvd_fill [OF Cons.prems(3,4) inv(1)] pa
      by (auto simp: rotation_safe_def)
    obtain hist1 q1 where s1: "run_inv np1 hist1 q1 i" "length hist1 \<le> Suc (length hist)"
      "np_config np1 = np_config np"
      using np_offer_step [OF Cons.prems(1) _ o safe] Cons.prems(2) by auto
    have "a dvd np_term_offset np1"
      using np_offer_offset [OF o] inv a Cons.prems(4) pa
      by (cases "r = Err AdminAction") auto
    with Cons.IH [OF s1(1)] s1 Cons.prems(2,3,5) have "safe_rotations np1 ops"
      by (simp add: np_config_def)
    with safe Offer o show ?thesis by simp
  next
    case (Send lim slots)
    obtain fs np1 where o: "np_do_send np lim slots = (fs, np1)" by (cases "np_do_send np lim slots")
    obtain k where s1: "run_inv np1 hist q (i + k)" "np_config np1 = np_config np"
      using np_do_send_step [OF Cons.prems(1) o] by auto
    moreover have "np_term_offset np1 = np_term_offset np"
      using o by (auto simp: np_do_send_def np_sender_scan_def Let_def split: if_splits)
    ultimately show ?thesis
      using Cons.IH [OF s1(1)] Cons.prems(2-5) Send o by (simp add: np_config_def)
  qed
qed simp

section \<open>Concrete runs\<close>

lemma np_run_append:
  "np_run np (xs @ ys) =
     (case np_run np xs of (acc, sent, np1) \<Rightarrow>
      case np_run np1 ys of (acc', sent', np2) \<Rightarrow> (acc @ acc', sent @ sent', np2))"
  by (induction np xs rule: np_run.induct) (auto split: prod.splits outcome.splits)

fun abs_offers :: "i32 \<times> nat \<times> i32 \<times> i32 \<times> nat \<Rightarrow> abs_pub \<Rightarrow> byte list list \<Rightarrow> byte list list \<times> abs_pub" where
  "abs_offers cfg ap [] = ([], ap)"
| "abs_offers cfg ap (payload # ps) =
     (let r = abs_offer cfg ap payload; rest = abs_offers cfg (snd r) ps
      in ((case fst r of Ok _ \<Rightarrow> [payload] | _ \<Rightarrow> []) @ fst rest, snd rest))"

lemma abs_offer_length: "abs_offer cfg ap payload = (r, ap') \<Longrightarrow> ap_hist ap \<noteq> [] \<Longrightarrow>
    length (ap_hist ap') \<le> Suc (length (ap_hist ap)) \<and> ap_sent ap' = ap_sent ap"
  by (auto simp: abs_offer_def Let_def split: prod.splits if_splits)

lemma np_refines_nonempty: "np_refines np ap \<Longrightarrow> ap_hist ap \<noteq> []"
  using log_relD(2) by (auto simp: np_refines_def np_inv_def)

lemma np_run_offers:
  assumes "np_refines np ap" "length (ap_hist ap) + length ps \<le> 2 ^ 31"
  shows "\<exists>np'. np_run np (map Offer ps) = (fst (abs_offers (np_config np) ap ps), [], np') \<and>
    np_refines np' (snd (abs_offers (np_config np) ap ps)) \<and> np_config np' = np_config np"
  using assms
proof (induction ps arbitrary: np ap)
  case (Cons p ps)
  obtain r ap1 where a: "abs_offer (np_config np) ap p = (r, ap1)" by (cases "abs_offer (np_config np) ap p")
  obtain np1 where o: "np_offer np p = (map_outcome of_nat r, np1)" "np_refines np1 ap1"
    "np_config np1 = np_config np"
    using np_offer_refines [OF Cons.prems(1) _ a] Cons.prems(2) by auto
  have "length (ap_hist ap1) + length ps \<le> 2 ^ 31"
    using abs_offer_length [OF a np_refines_nonempty [OF Cons.prems(1)]] Cons.prems(2) by simp
  from Cons.IH [OF o(2) this] o(1,3) a show ?case by (cases r) (auto simp: Let_def)
qed simp

declare abs_offers.simps [simp del]

definition lossy_new :: network_publication where
  "lossy_new = the (network_publication_new 7 10 100 128 128)"
definition lossy_cfg :: "i32 \<times> nat \<times> i32 \<times> i32 \<times> nat" where
  "lossy_cfg = (100 :: i32, 128 :: nat, 7 :: i32, 10 :: i32, 128 :: nat)"
definition lossy_first :: "byte list" where
  "lossy_first = (replicate 32 1 :: byte list)"
definition lossy_rest :: "byte list list" where
  "lossy_rest = [[9], replicate 96 2, replicate 96 2, replicate 96 2, replicate 96 2,
   [], [], replicate 96 0, replicate 96 0 :: byte list]"
definition lossy_mid :: abs_pub where
  "lossy_mid = \<lparr>ap_hist = [[offer_frame 7 10 100 0 lossy_first]], ap_published = 1, ap_sent = 1\<rparr>"
definition lossy_end :: abs_pub where
  "lossy_end = snd (abs_offers lossy_cfg lossy_mid lossy_rest)"

lemma lossy_start:
  "abs_offers lossy_cfg \<lparr>ap_hist = [[]], ap_published = 0, ap_sent = 0\<rparr> [lossy_first]
     = ([lossy_first], lossy_mid\<lparr>ap_sent := 0\<rparr>)"
  by code_simp

lemma lossy_mid_facts:
  "length (ap_hist lossy_mid) = 1" "length lossy_rest = 9" "ap_published lossy_mid = 1"
  "ap_sent lossy_mid = 1" "enc_len (concat (ap_hist lossy_mid)) = 64"
  "payloads (concat (ap_hist lossy_mid)) = [lossy_first]" "length (concat (ap_hist lossy_mid)) = 1"
  by code_simp+

lemma lossy_end_facts:
  "case abs_offers lossy_cfg lossy_mid lossy_rest of (acc, ap) \<Rightarrow>
     acc = [[9], replicate 96 2, replicate 96 2, [], replicate 96 0] \<and>
     length (ap_hist ap) = 5 \<and> ap_sent ap = 1 \<and> ap_position ap 1 = 64 \<and>
     ap_position ap (ap_published ap) = 640 \<and> enc_len (last (ap_hist ap)) = 128 \<and>
     read_i32 (enc_frames (last (ap_hist ap))) 64 = 0"
  by code_simp

lemma lossy_mid_sent: "lossy_mid\<lparr>ap_sent := Suc 0\<rparr> = lossy_mid"
  by (simp add: lossy_mid_def)

lemma stuck_run:
  assumes "\<And>limit. np_sender_scan np limit = (([], 0), np)"
    and "\<And>payload. \<exists>e. np_offer np payload = (Err e, np)"
  shows "np_run np ops = ([], [], np)"
proof (induction ops)
  case (Cons op ops)
  show ?case
  proof (cases op)
    case (Offer payload)
    with assms(2) [of payload] Cons.IH show ?thesis by auto
  next
    case (Send lim slots)
    with assms(1) Cons.IH show ?thesis by (simp add: np_do_send_def Let_def)
  qed
qed simp

text \<open>
  A scan whose position lies in a term that has been overwritten reads the newest term of that
  partition instead; when it finds a zero length there it returns nothing.
\<close>

lemma np_scan_overwritten:
  assumes inv: "np_inv np hist q i" and s: "s = enc_len (take i (concat hist))"
    and over: "length hist = s div np_term_length np + 5"
    and zero: "read_i32 (enc_frames (last hist) @
        replicate (np_term_length np - enc_len (last hist)) 0) (s mod np_term_length np) = 0"
  shows "np_sender_scan np limit = (([], 0), np)"
proof -
  let ?tlen = "np_term_length np" and ?log = "np_raw_log np"
  obtain k where k: "?tlen = 2 ^ k" using inv by (auto simp: np_inv_def is_power_of_two_iff)
  have inv': "log_rel ?tlen (rl_buffer ?log) hist" "rl_term_length ?log = ?tlen"
    "np_sender_position np = of_nat s" "np_position_bits_to_shift np = trailing_zeros ?tlen"
    "np_term_length_mask np = ?tlen - 1" "?tlen \<le> 2 ^ 30"
    using inv by (auto simp: np_inv_def s)
  have off: "unat (ucast (of_nat s AND of_nat (?tlen - 1) :: i64) :: 32 word) = s mod ?tlen"
    using inv'(6) by (intro position_term_offset [OF k]) simp
  have term_id: "(ucast (signed_drop_bit (np_position_bits_to_shift np) (np_sender_position np)) :: i32)
      = of_nat (s div ?tlen)"
    using position_term_id [OF k] np_inv_bound [OF inv, of i] inv'(3,4) k s by simp
  have l: "last hist = hist ! (s div ?tlen + 4)"
    using log_relD(2) [OF inv'(1)] over by (simp add: last_conv_nth add.commute)
  have "part_of (rl_buffer ?log) ?tlen ((s div ?tlen + 4) mod 4) =
      enc_frames (last hist) @ replicate (?tlen - enc_len (last hist)) 0"
    unfolding l using over by (intro log_relD(8) [OF inv'(1)]) simp_all
  then have z: "read_i32 (part_of (rl_buffer ?log) ?tlen (s div ?tlen mod 4)) (s mod ?tlen) = 0"
    using zero by simp
  show ?thesis
    unfolding np_sender_scan_def Let_def off [folded inv'(3,5)] term_id partition_index_of_nat
    by (simp add: inv'(2) raw_log_scan_frames_def raw_log_partition_def PARTITION_COUNT_def
        scan_loop_stop [OF disjI2 [OF disjI2 [OF z]], unfolded part_of_def])
qed

lemma np_refines_sent:
  assumes "np_refines np ap" "ap_published ap = 1" "ap_sent ap = 0" "length (ap_hist ap) \<le> 4"
    and "0 < scan_limit lim (np_sender_position np) (np_pub_position np) slots (np_mtu np)"
  shows "\<exists>np' fs. np_do_send np lim slots = (fs, np') \<and> np_refines np' (ap\<lparr>ap_sent := 1\<rparr>) \<and>
    np_config np' = np_config np \<and>
    map (drop DATA_HEADER_LENGTH) fs = payloads (take 1 (concat (ap_hist ap)))"
proof -
  have run: "run_inv np (ap_hist ap) 1 0" using assms by (simp add: run_inv_def np_refines_def)
  obtain fs np' where r: "np_do_send np lim slots = (fs, np')" by (cases "np_do_send np lim slots")
  obtain k where k: "0 + k \<le> 1" "run_inv np' (ap_hist ap) 1 (0 + k)" "0 < k"
      "map (drop DATA_HEADER_LENGTH) fs = payloads (take k (drop 0 (concat (ap_hist ap))))"
      "np_config np' = np_config np"
    using np_do_send_step [OF run r] assms(5) by blast
  then have "k = 1" by simp
  with k r assms(2) show ?thesis by (auto simp: run_inv_def np_refines_def)
qed

lemma lossy_run:
  "\<exists>np sent. np_run lossy_new (Offer lossy_first # Send 128 1 # map Offer lossy_rest) =
      (lossy_first # fst (abs_offers lossy_cfg lossy_mid lossy_rest), sent, np) \<and>
    map (drop DATA_HEADER_LENGTH) sent = [lossy_first] \<and>
    np_refines np (snd (abs_offers lossy_cfg lossy_mid lossy_rest)) \<and> np_config np = lossy_cfg"
proof -
  let ?init = "\<lparr>ap_hist = [[]], ap_published = 0, ap_sent = 0\<rparr>"
  have "network_publication_new 7 10 100 128 128 = Some lossy_new"
    by (simp add: lossy_new_def network_publication_new_def raw_log_new_def term_constants
        is_power_of_two.simps)
  from np_new_inv [OF this] have n0: "np_refines lossy_new ?init" "np_config lossy_new = lossy_cfg"
    by (simp_all add: np_refines_def lossy_cfg_def)
  obtain np1 where n1: "np_run lossy_new (map Offer [lossy_first]) = ([lossy_first], [], np1)"
      "np_refines np1 (lossy_mid\<lparr>ap_sent := 0\<rparr>)" "np_config np1 = lossy_cfg"
    using np_run_offers [OF n0(1), of "[lossy_first]"] by (auto simp: n0(2) lossy_start)
  have pos: "np_pub_position np1 = 64" "np_sender_position np1 = 0" "np_mtu np1 = 128"
    using n1(2,3) lossy_mid_facts by (auto simp: np_refines_def np_inv_def np_config_def lossy_cfg_def)
  then have "0 < scan_limit 128 (np_sender_position np1) (np_pub_position np1) 1 (np_mtu np1)"
    by (intro scan_limit_pos) simp_all
  from np_refines_sent [OF n1(2) _ _ _ this] obtain np2 fs where
    n2: "np_do_send np1 128 1 = (fs, np2)" "np_refines np2 lossy_mid"
      "np_config np2 = lossy_cfg" "map (drop DATA_HEADER_LENGTH) fs = [lossy_first]"
    using lossy_mid_facts n1(3) lossy_mid_sent by auto
  obtain np3 where n3: "np_run np2 (map Offer lossy_rest) =
      (fst (abs_offers lossy_cfg lossy_mid lossy_rest), [], np3)"
      "np_refines np3 (snd (abs_offers lossy_cfg lossy_mid lossy_rest))" "np_config np3 = lossy_cfg"
    using np_run_offers [OF n2(2), of lossy_rest] n2(3) lossy_mid_facts by auto
  have "Offer lossy_first # Send 128 1 # map Offer lossy_rest =
      map Offer [lossy_first] @ Send 128 1 # map Offer lossy_rest" by simp
  then show ?thesis
    using n1(1) n2 n3 by (simp only: np_run_append) simp
qed


text \<open>Passes with an open window and a free slot drain the publication.\<close>

lemma np_drain:
  assumes "run_inv np hist q i" "0 < slots"
  shows "\<exists>n acc sent np'. np_run np (replicate n (Send (np_pub_position np) slots)) = (acc, sent, np') \<and>
    acc = [] \<and> run_inv np' hist q q \<and>
    map (drop DATA_HEADER_LENGTH) sent = payloads (take (q - i) (drop i (concat hist)))"
  using assms
proof (induction "q - i" arbitrary: np i rule: less_induct)
  case less
  have inv: "np_inv np hist q i" "i \<le> q" "q \<le> length (concat hist)" "0 < np_mtu np"
    "list_all valid_frame (concat hist)"
    using less.prems log_rel_frames by (auto simp: run_inv_def np_inv_def)
  show ?case
  proof (cases "i = q")
    case True
    with less.prems show ?thesis by (intro exI [of _ 0]) simp
  next
    case False
    then have "enc_len (take i (concat hist)) < enc_len (take q (concat hist))"
      using inv by (intro enc_len_take_strict) auto
    then have lim: "0 < scan_limit (np_pub_position np) (np_sender_position np) (np_pub_position np)
        slots (np_mtu np)"
      using np_inv_diff [OF inv(1)] inv(4) less.prems(2) by (intro scan_limit_pos) simp_all
    obtain fs np1 where o: "np_do_send np (np_pub_position np) slots = (fs, np1)"
      by (cases "np_do_send np (np_pub_position np) slots")
    obtain k where k: "i + k \<le> q" "run_inv np1 hist q (i + k)" "0 < k"
      "map (drop DATA_HEADER_LENGTH) fs = payloads (take k (drop i (concat hist)))"
      using np_do_send_step [OF less.prems(1) o] lim by blast
    have pub: "np_pub_position np1 = np_pub_position np"
      using k(2) inv(1) by (simp add: run_inv_def np_inv_def)
    have dec: "q - (i + k) < q - i" using k(1,3) by linarith
    obtain n sent np' where n: "np_run np1 (replicate n (Send (np_pub_position np) slots)) = ([], sent, np')"
      "run_inv np' hist q q"
      "map (drop DATA_HEADER_LENGTH) sent = payloads (take (q - (i + k)) (drop (i + k) (concat hist)))"
      using less.hyps [OF dec k(2) less.prems(2)] pub by auto
    have "q - i = k + (q - (i + k))" using k(1) by simp
    then have "take (q - i) (drop i (concat hist)) =
        take k (drop i (concat hist)) @ take (q - (i + k)) (drop (i + k) (concat hist))"
      by (simp only: take_add drop_drop add.commute [of k i])
    with o n k show ?thesis
      by (intro exI [of _ "Suc n"]) simp
  qed
qed

section \<open>Properties\<close>


definition small_pub :: network_publication where
  "small_pub = the (network_publication_new 7 10 100 32 32)"

definition small_ops :: "pub_op list" where
  "small_ops = [Offer [], Send 1000 1, Offer [], Offer []]"

lemma small_pub_new: "network_publication_new 7 10 100 32 32 = Some small_pub"
  by (simp add: small_pub_def network_publication_new_def raw_log_new_def term_constants
      is_power_of_two.simps)

lemma small_ops_facts:
  "length small_ops = 4"
  by (simp add: small_ops_def)

lemma small_ops_size:
  "\<forall>payload. Offer payload \<in> set small_ops \<longrightarrow>
     align_frame_length (DATA_HEADER_LENGTH + length payload) = 32"
  by (auto simp: small_ops_def term_constants align_eq)

lemma small_run: "safe_rotations small_pub small_ops"
proof (rule uniform_safe_rotations [OF run_inv_new [OF small_pub_new], where a = 32])
  show "length [[]] + length small_ops \<le> 2 ^ 31" by (simp add: small_ops_def)
qed (simp_all add: small_pub_def network_publication_new_def raw_log_new_def term_constants
    is_power_of_two.simps small_ops_size [unfolded term_constants])


text \<open>
  When all payloads are padded to one frame size that divides the term length, every
  interleaving of offers and sender passes delivers in order, with no condition on the sender.
\<close>

theorem uniform_publication_delivers:
  assumes "network_publication_new sid stid t0 tlen mtu = Some np" "tlen \<le> 2 ^ 30" "mtu \<le> tlen"
    and "length ops < 2 ^ 31" "a dvd tlen"
    and "\<forall>payload. Offer payload \<in> set ops \<longrightarrow>
      align_frame_length (DATA_HEADER_LENGTH + length payload) = a"
    and "np_run np ops = (acc, sent, np')"
  shows "prefix (map (drop DATA_HEADER_LENGTH) sent) acc \<and>
    (np_sender_position np' = np_pub_position np' \<longrightarrow> map (drop DATA_HEADER_LENGTH) sent = acc)"
proof -
  have "np_term_length np = tlen" "np_term_offset np = 0"
    using np_new_inv [OF assms(1-3)] by (simp_all add: np_inv_def np_config_def)
  then have "safe_rotations np ops"
    using assms(4-6) uniform_safe_rotations [OF run_inv_new [OF assms(1-3)]]
    by (simp add: term_constants)
  from np_run_delivers [OF assms(1-4) this assms(7)] show ?thesis by blast
qed

theorem uniform_publication_delivers_witness:
  "\<exists>rest. fst (np_run small_pub small_ops) =
     map (drop DATA_HEADER_LENGTH) (fst (snd (np_run small_pub small_ops))) @ rest"
proof -
  obtain acc sent np where r: "np_run small_pub small_ops = (acc, sent, np)"
    by (cases "np_run small_pub small_ops")
  then show ?thesis
    using uniform_publication_delivers [OF small_pub_new _ _ _ _ small_ops_size r] small_ops_facts
    by (simp add: prefix_def)
qed

text \<open>
  C11: The sender always catches up.  From every state that offers and sender passes reach with safe
  rotations, finitely many passes with a window up to the published position and at least one free
  send slot bring the sender to the published position; the frames sent by then carry exactly the
  accepted payloads.
\<close>

theorem publication_drains:
  assumes "network_publication_new sid stid t0 tlen mtu = Some np" "tlen \<le> 2 ^ 30" "mtu \<le> tlen"
    and "length ops < 2 ^ 31" "safe_rotations np ops"
    and "np_run np ops = (acc, sent, np')" "0 < slots"
  shows "\<exists>n sent' np''.
    np_run np (ops @ replicate n (Send (np_pub_position np') slots)) = (acc, sent @ sent', np'') \<and>
    np_sender_position np'' = np_pub_position np'' \<and>
    map (drop DATA_HEADER_LENGTH) (sent @ sent') = acc"
proof -
  obtain hist q i where h: "run_inv np' hist q i" "payloads (concat hist) = acc"
    "payloads (take i (concat hist)) = map (drop DATA_HEADER_LENGTH) sent"
    using np_run_inv [OF run_inv_new [OF assms(1-3)] _ assms(5,6)] assms(4) by auto
  obtain n sent' np'' where n: "np_run np' (replicate n (Send (np_pub_position np') slots)) = ([], sent', np'')"
    "run_inv np'' hist q q"
    "map (drop DATA_HEADER_LENGTH) sent' = payloads (take (q - i) (drop i (concat hist)))"
    using np_drain [OF h(1) assms(7)] by auto
  have "np_sender_position np'' = np_pub_position np''"
    using n(2) by (simp add: run_inv_def np_inv_def)
  moreover have "i \<le> q" using h(1) by (simp add: run_inv_def np_inv_def)
  then have "take q (concat hist) = take i (concat hist) @ take (q - i) (drop i (concat hist))"
    by (metis le_add_diff_inverse take_add)
  then have "map (drop DATA_HEADER_LENGTH) (sent @ sent') = payloads (take q (concat hist))"
    using h(3) n(3) by simp
  then have "map (drop DATA_HEADER_LENGTH) (sent @ sent') = acc"
    using np_inv_published [of np'' hist q q] n(2) h(2) by (simp add: run_inv_def)
  ultimately show ?thesis
    using assms(6) n(1) by (intro exI [of _ n] exI [of _ sent'] exI [of _ np'']) (simp add: np_run_append)
qed

theorem publication_drains_witness:
  "\<exists>n. map (drop DATA_HEADER_LENGTH) (fst (snd (np_run small_pub (small_ops @
     replicate n (Send (np_pub_position (snd (snd (np_run small_pub small_ops)))) 1))))) =
     fst (np_run small_pub small_ops)"
proof -
  obtain acc sent np where r: "np_run small_pub small_ops = (acc, sent, np)"
    by (cases "np_run small_pub small_ops")
  from publication_drains [OF small_pub_new _ _ _ small_run r, of 1] small_ops_facts
  obtain n sent' np'' where
    "np_run small_pub (small_ops @ replicate n (Send (np_pub_position np) 1)) = (acc, sent @ sent', np'')"
    "map (drop DATA_HEADER_LENGTH) (sent @ sent') = acc"
    by auto
  with r show ?thesis by (intro exI [of _ n]) simp
qed

text \<open>
  C32: Rotation can destroy accepted data.  With a term length of 128, the publisher accepts a frame
  with payload \<open>[9]\<close> while the sender is still in the first term; the rotation into the fifth term
  happens when the back-pressure limit of three terms is not reached, because the fourth term is
  closed early, and wipes the partition the sender has not finished.  The accepted payload is never
  transmitted, and from then on no sequence of offers and sender passes accepts or transmits
  anything: the sender reads a zero length and the publisher stays back-pressured.
\<close>

theorem rotation_loses_frames:
  "\<exists>np sent.
     np_run (the (network_publication_new 7 10 100 128 128))
       ([Offer (replicate 32 1), Send 128 1] @ map Offer
          [[9], replicate 96 2, replicate 96 2, replicate 96 2, replicate 96 2,
           [], [], replicate 96 0, replicate 96 0]) =
       ([replicate 32 1, [9], replicate 96 2, replicate 96 2, [], replicate 96 0], sent, np) \<and>
     map (drop DATA_HEADER_LENGTH) sent = [replicate 32 1] \<and>
     (\<forall>ops. np_run np ops = ([], [], np))"
proof -
  obtain np sent where r: "np_run lossy_new (Offer lossy_first # Send 128 1 # map Offer lossy_rest) =
      (lossy_first # fst (abs_offers lossy_cfg lossy_mid lossy_rest), sent, np)"
    "map (drop DATA_HEADER_LENGTH) sent = [lossy_first]"
    "np_refines np (snd (abs_offers lossy_cfg lossy_mid lossy_rest))" "np_config np = lossy_cfg"
    using lossy_run by (elim exE conjE)
  obtain acc ap where a: "abs_offers lossy_cfg lossy_mid lossy_rest = (acc, ap)"
    by (cases "abs_offers lossy_cfg lossy_mid lossy_rest")
  have facts: "acc = [[9], replicate 96 2, replicate 96 2, [], replicate 96 0]"
    "length (ap_hist ap) = 5" "ap_sent ap = 1" "ap_position ap 1 = 64"
    "ap_position ap (ap_published ap) = 640" "enc_len (last (ap_hist ap)) = 128"
    "read_i32 (enc_frames (last (ap_hist ap))) 64 = 0"
    using lossy_end_facts by (simp_all only: a split)
  have inv: "np_inv np (ap_hist ap) (ap_published ap) 1" and tl: "np_term_length np = 128"
    using r(3) [unfolded a] r(4) facts(3) by (simp_all add: np_refines_def np_config_def lossy_cfg_def)
  have scan: "np_sender_scan np limit = (([], 0), np)" for limit
    using facts tl by (intro np_scan_overwritten [OF inv refl]) (simp_all add: ap_position_def)
  have "\<exists>e. np_offer np payload = (Err e, np)" for payload
    using np_back_pressure [OF inv] facts(4,5) tl by (simp add: np_offer_def ap_position_def)
  from stuck_run [OF scan this] have "\<forall>ops. np_run np ops = ([], [], np)" by blast
  moreover have "lossy_new = the (network_publication_new 7 10 100 128 128)" by (rule lossy_new_def)
  ultimately show ?thesis
    using r(1,2) facts(1) a by (intro exI [of _ np] exI [of _ sent])
      (simp add: lossy_first_def lossy_rest_def)
qed

end
