(* ===== verification/Concurrent_Publication.thy ===== *)
theory Concurrent_Publication
  imports Publication_Delivery
begin

text \<open>
  The cross-thread publication of \<^verbatim>\<open>src/src/media/concurrent_publication.rs\<close>.  \<open>publication_inner\<close>
  is the shared memory; the publisher and the sender have a record of local fields each.

  \<open>conc_offer\<close> and \<open>conc_sender_scan\<close> are the two operations as wholes; \<open>conc_offer_refines\<close> shows
  that they do what the single-threaded publication does.  The memory accesses of \<open>conc_offer\<close> are
  separate definitions, and \<open>cstep\<close> interleaves them with the sender's loads: a Release store of a
  commit word or position is one step, an Acquire load is another, and each sees the latest store.
\<close>

section \<open>Shared and local state\<close>

record publication_inner =
  pi_log :: shared_log_buffer
  pi_pub_position :: i64
  pi_sender_position :: i64
  pi_initial_term_id :: i32
  pi_term_length :: nat
  pi_term_length_mask :: nat
  pi_position_bits_to_shift :: nat
  pi_session_id :: i32
  pi_stream_id :: i32
  pi_mtu :: nat
  pi_max_payload_length :: nat

record concurrent_publication =
  cp_active_term_id :: i32
  cp_term_offset :: nat
  cp_pub_position_local :: i64

record sender_publication =
  sp_sender_position_local :: i64

definition new_concurrent ::
  "i32 \<Rightarrow> i32 \<Rightarrow> i32 \<Rightarrow> nat \<Rightarrow> nat \<Rightarrow>
   (publication_inner \<times> concurrent_publication \<times> sender_publication) option" where
  "new_concurrent session_id stream_id initial_term_id term_length mtu =
     (if mtu < DATA_HEADER_LENGTH then None
      else case shared_log_buffer_new term_length of
        None \<Rightarrow> None
      | Some log \<Rightarrow> Some
          (\<lparr>pi_log = log, pi_pub_position = 0, pi_sender_position = 0,
            pi_initial_term_id = initial_term_id, pi_term_length = term_length,
            pi_term_length_mask = term_length - 1,
            pi_position_bits_to_shift = trailing_zeros term_length,
            pi_session_id = session_id, pi_stream_id = stream_id, pi_mtu = mtu,
            pi_max_payload_length = mtu - DATA_HEADER_LENGTH\<rparr>,
           \<lparr>cp_active_term_id = initial_term_id, cp_term_offset = 0, cp_pub_position_local = 0\<rparr>,
           \<lparr>sp_sender_position_local = 0\<rparr>))"

section \<open>The publisher\<close>

definition set_buffer :: "publication_inner \<Rightarrow> byte list \<Rightarrow> publication_inner" where
  "set_buffer inner buf = inner\<lparr>pi_log := (pi_log inner)\<lparr>slb_buffer := buf\<rparr>\<rparr>"

definition write_log :: "publication_inner \<Rightarrow> nat \<Rightarrow> byte list \<Rightarrow> publication_inner option" where
  "write_log inner off bs =
     map_option (set_buffer inner) (write_at (slb_buffer (pi_log inner)) off bs)"

definition commit_log :: "publication_inner \<Rightarrow> nat \<Rightarrow> i32 \<Rightarrow> publication_inner option" where
  "commit_log inner off val =
     map_option (set_buffer inner) (atomic_frame_length_store (slb_buffer (pi_log inner)) off val)"

definition offer_base :: "publication_inner \<Rightarrow> concurrent_publication \<Rightarrow> nat" where
  "offer_base inner cp =
     partition_index (cp_active_term_id cp) (pi_initial_term_id inner) * pi_term_length inner
     + cp_term_offset cp"

definition new_term_offset :: "concurrent_publication \<Rightarrow> byte list \<Rightarrow> nat" where
  "new_term_offset cp payload =
     (cp_term_offset cp + align_frame_length (DATA_HEADER_LENGTH + length payload) mod 2 ^ 32) mod 2 ^ 32"

definition conc_back_pressured :: "publication_inner \<Rightarrow> concurrent_publication \<Rightarrow> bool" where
  "conc_back_pressured inner cp \<longleftrightarrow>
     sint (of_nat (pi_term_length inner) * (of_nat PARTITION_COUNT - 1) :: i64)
       \<le> sint (cp_pub_position_local cp - pi_sender_position inner)"

definition write_header ::
  "publication_inner \<Rightarrow> concurrent_publication \<Rightarrow> publication_inner option" where
  "write_header inner cp =
     write_log inner (offer_base inner cp)
       (data_header_bytes (offer_header (pi_session_id inner) (pi_stream_id inner)
          (cp_active_term_id cp) (cp_term_offset cp) 0))"

definition write_payload ::
  "publication_inner \<Rightarrow> concurrent_publication \<Rightarrow> byte list \<Rightarrow> publication_inner option" where
  "write_payload inner cp payload =
     (if payload = [] then Some inner
      else write_log inner (offer_base inner cp + DATA_HEADER_LENGTH) payload)"

definition commit_frame ::
  "publication_inner \<Rightarrow> concurrent_publication \<Rightarrow> byte list \<Rightarrow> publication_inner option" where
  "commit_frame inner cp payload =
     commit_log inner (offer_base inner cp) (of_nat DATA_HEADER_LENGTH + of_nat (length payload))"

definition publish_frame ::
  "publication_inner \<Rightarrow> concurrent_publication \<Rightarrow> byte list \<Rightarrow> publication_inner \<times> concurrent_publication" where
  "publish_frame inner cp payload =
     (let new_offset = new_term_offset cp payload;
          pos = compute_position (pi_initial_term_id inner) (pi_term_length inner)
                  (cp_active_term_id cp) new_offset
      in (inner\<lparr>pi_pub_position := pos\<rparr>,
          cp\<lparr>cp_term_offset := new_offset, cp_pub_position_local := pos\<rparr>))"

definition write_pad ::
  "publication_inner \<Rightarrow> concurrent_publication \<Rightarrow> publication_inner option" where
  "write_pad inner cp =
     (let remaining = pi_term_length inner - cp_term_offset cp
      in if DATA_HEADER_LENGTH \<le> remaining then
           write_log inner (offer_base inner cp + 4)
             (drop 4 (data_header_bytes (pad_header remaining (cp_term_offset cp))))
         else Some inner)"

definition commit_pad ::
  "publication_inner \<Rightarrow> concurrent_publication \<Rightarrow> publication_inner option" where
  "commit_pad inner cp =
     (let remaining = pi_term_length inner - cp_term_offset cp
      in if DATA_HEADER_LENGTH \<le> remaining then
           commit_log inner (offer_base inner cp) (of_nat remaining)
         else Some inner)"

definition conc_rotate_term ::
  "publication_inner \<Rightarrow> concurrent_publication \<Rightarrow> publication_inner \<times> concurrent_publication" where
  "conc_rotate_term inner cp =
     (let active = cp_active_term_id cp + 1
      in (inner\<lparr>pi_log := shared_log_clean_partition (pi_log inner)
                  (partition_index active (pi_initial_term_id inner))\<rparr>,
          cp\<lparr>cp_active_term_id := active, cp_term_offset := 0\<rparr>))"

definition conc_offer ::
  "publication_inner \<Rightarrow> concurrent_publication \<Rightarrow> byte list \<Rightarrow>
   (offer_error, i64) outcome \<times> publication_inner \<times> concurrent_publication" where
  "conc_offer inner cp payload =
     (if pi_max_payload_length inner < length payload then (Err PayloadTooLarge, inner, cp)
      else if conc_back_pressured inner cp then (Err BackPressured, inner, cp)
      else if pi_term_length inner < new_term_offset cp payload then
        (case write_pad inner cp of
           None \<Rightarrow> (Fault, inner, cp)
         | Some inner1 \<Rightarrow>
             (case commit_pad inner1 cp of
                None \<Rightarrow> (Fault, inner, cp)
              | Some inner2 \<Rightarrow> (Err AdminAction, conc_rotate_term inner2 cp)))
      else
        (case write_header inner cp of
           None \<Rightarrow> (Fault, inner, cp)
         | Some inner1 \<Rightarrow>
             (case write_payload inner1 cp payload of
                None \<Rightarrow> (Fault, inner, cp)
              | Some inner2 \<Rightarrow>
                  (case commit_frame inner2 cp payload of
                     None \<Rightarrow> (Fault, inner, cp)
                   | Some inner3 \<Rightarrow>
                       let r = publish_frame inner3 cp payload
                       in (Ok (cp_pub_position_local (snd r)), r)))))"

section \<open>The sender\<close>

text \<open>One iteration of the scanning loops: the length and the span of a committed frame.\<close>

definition scan_frame_at :: "nat \<Rightarrow> byte list \<Rightarrow> nat \<Rightarrow> nat \<Rightarrow> (nat \<times> nat) option" where
  "scan_frame_at tlen buf part_base pos =
     (if tlen - pos < 4 then None
      else
        let frame_length = atomic_frame_length_load buf (part_base + pos)
        in if sint frame_length \<le> 0 then None
           else if unat frame_length < DATA_HEADER_LENGTH then None
           else
             let aligned_len = align_frame_length (unat frame_length)
             in if tlen < pos + aligned_len then None else Some (unat frame_length, aligned_len))"

lemma scan_frame_at_pos: "scan_frame_at tlen buf base pos = Some (len, al) \<Longrightarrow> 0 < al"
  using align_ge by (auto simp: scan_frame_at_def Let_def term_constants split: if_splits)
    (metis gr0I not_less zero_less_numeral)

function conc_scan_loop ::
  "nat \<Rightarrow> byte list \<Rightarrow> nat \<Rightarrow> nat \<Rightarrow> nat \<Rightarrow> nat \<Rightarrow> (nat \<times> byte list) list \<times> nat" where
  "conc_scan_loop tlen buf part_base limit pos scanned =
     (if pos < tlen \<and> scanned < limit then
        (case scan_frame_at tlen buf part_base pos of
           None \<Rightarrow> ([], scanned)
         | Some (len, aligned_len) \<Rightarrow>
             let rest = conc_scan_loop tlen buf part_base limit (pos + aligned_len)
                          (scanned + aligned_len)
             in ((pos, bslice (part_base + pos) len buf) # fst rest, snd rest))
      else ([], scanned))"
  by pat_completeness auto
termination
  by (relation "measure (\<lambda>(tlen, buf, part_base, limit, pos, scanned). tlen - pos)")
    (auto dest: scan_frame_at_pos)

declare conc_scan_loop.simps [simp del]

definition conc_sender_scan ::
  "publication_inner \<Rightarrow> sender_publication \<Rightarrow> nat \<Rightarrow>
   ((nat \<times> byte list) list \<times> nat) \<times> publication_inner \<times> sender_publication" where
  "conc_sender_scan inner sp limit =
     (let term_id = pi_initial_term_id inner
            + ucast (signed_drop_bit (pi_position_bits_to_shift inner) (sp_sender_position_local sp));
          term_offset = unat (ucast (sp_sender_position_local sp AND
            of_nat (pi_term_length_mask inner)) :: 32 word);
          part_idx = partition_index term_id (pi_initial_term_id inner);
          remaining_in_term = pi_term_length inner - term_offset;
          effective_limit = (if limit < remaining_in_term then limit else remaining_in_term);
          scan = conc_scan_loop (pi_term_length inner) (slb_buffer (pi_log inner))
                   (part_idx * pi_term_length inner) effective_limit term_offset 0
      in if 0 < snd scan then
           let pos = sp_sender_position_local sp + of_nat (snd scan)
           in (scan, inner\<lparr>pi_sender_position := pos\<rparr>, sp\<lparr>sp_sender_position_local := pos\<rparr>)
         else (scan, inner, sp))"

definition scan_term_at ::
  "publication_inner \<Rightarrow> nat \<Rightarrow> nat \<Rightarrow> nat \<Rightarrow> (nat \<times> byte list) list \<times> nat" where
  "scan_term_at inner partition_idx off limit =
     (if PARTITION_COUNT \<le> partition_idx then ([], 0)
      else conc_scan_loop (pi_term_length inner) (slb_buffer (pi_log inner))
             (partition_idx * pi_term_length inner) limit off 0)"

text \<open>The sender's approximate view of the publisher's cursor.\<close>

definition active_term_id_approx :: "publication_inner \<Rightarrow> i32" where
  "active_term_id_approx inner =
     pi_initial_term_id inner
     + ucast (signed_drop_bit (pi_position_bits_to_shift inner) (pi_pub_position inner))"

definition term_offset_approx :: "publication_inner \<Rightarrow> nat" where
  "term_offset_approx inner =
     unat (ucast (pi_pub_position inner AND of_nat (pi_term_length_mask inner)) :: 32 word)"

section \<open>Equivalence with the single-threaded publication\<close>

definition to_np :: "publication_inner \<Rightarrow> concurrent_publication \<Rightarrow> network_publication" where
  "to_np inner cp =
     \<lparr>np_raw_log = \<lparr>rl_buffer = slb_buffer (pi_log inner), rl_term_length = slb_term_length (pi_log inner)\<rparr>,
      np_initial_term_id = pi_initial_term_id inner, np_active_term_id = cp_active_term_id cp,
      np_term_offset = cp_term_offset cp, np_term_length = pi_term_length inner,
      np_term_length_mask = pi_term_length_mask inner,
      np_position_bits_to_shift = pi_position_bits_to_shift inner,
      np_pub_position = cp_pub_position_local cp, np_sender_position = pi_sender_position inner,
      np_session_id = pi_session_id inner, np_stream_id = pi_stream_id inner,
      np_mtu = pi_mtu inner, np_max_payload_length = pi_max_payload_length inner\<rparr>"

definition conc_wf :: "publication_inner \<Rightarrow> concurrent_publication \<Rightarrow> bool" where
  "conc_wf inner cp \<longleftrightarrow>
     slb_term_length (pi_log inner) = pi_term_length inner \<and>
     length (slb_buffer (pi_log inner)) = 4 * pi_term_length inner \<and>
     cp_term_offset cp \<le> pi_term_length inner \<and> pi_pub_position inner = cp_pub_position_local cp"

lemma overwrite_front:
  assumes "length ys \<le> length xs" "off + length xs \<le> length buf"
  shows "overwrite (overwrite buf off xs) off ys = overwrite buf off (ys @ drop (length ys) xs)"
proof (rule nth_equalityI)
  fix n
  assume "n < length (overwrite (overwrite buf off xs) off ys)"
  then show "overwrite (overwrite buf off xs) off ys ! n
      = overwrite buf off (ys @ drop (length ys) xs) ! n"
    using assms by (auto simp: nth_overwrite nth_append)
qed (use assms in simp)

lemma overwrite_before:
  assumes "off + length ys + length xs \<le> length buf"
  shows "overwrite (overwrite buf (off + length ys) xs) off ys = overwrite buf off (ys @ xs)"
proof (rule nth_equalityI)
  fix n
  assume "n < length (overwrite (overwrite buf (off + length ys) xs) off ys)"
  then show "overwrite (overwrite buf (off + length ys) xs) off ys ! n = overwrite buf off (ys @ xs) ! n"
    using assms by (auto simp: nth_overwrite nth_append)
qed (use assms in simp)

text \<open>The commit word completes the header.\<close>

lemma header_commit:
  "le_bytes 4 len @ drop 4 (data_header_bytes (offer_header sid stid tid off 0)) @ payload
     = data_header_bytes (offer_header sid stid tid off len) @ payload"
  "le_bytes 4 (of_nat rem :: i32) @ drop 4 (data_header_bytes (pad_header rem off))
     = data_header_bytes (pad_header rem off)"
  by (simp_all add: data_header_bytes_def frame_header_bytes_def offer_header_def pad_header_def)

lemma set_buffer_simps [simp]:
  "slb_buffer (pi_log (set_buffer inner buf)) = buf"
  "slb_term_length (pi_log (set_buffer inner buf)) = slb_term_length (pi_log inner)"
  "pi_pub_position (set_buffer inner buf) = pi_pub_position inner"
  "pi_sender_position (set_buffer inner buf) = pi_sender_position inner"
  "pi_initial_term_id (set_buffer inner buf) = pi_initial_term_id inner"
  "pi_term_length (set_buffer inner buf) = pi_term_length inner"
  "pi_term_length_mask (set_buffer inner buf) = pi_term_length_mask inner"
  "pi_position_bits_to_shift (set_buffer inner buf) = pi_position_bits_to_shift inner"
  "pi_session_id (set_buffer inner buf) = pi_session_id inner"
  "pi_stream_id (set_buffer inner buf) = pi_stream_id inner"
  "pi_mtu (set_buffer inner buf) = pi_mtu inner"
  "pi_max_payload_length (set_buffer inner buf) = pi_max_payload_length inner"
  "set_buffer (set_buffer inner buf) buf' = set_buffer inner buf'"
  "offer_base (set_buffer inner buf) cp = offer_base inner cp"
  by (simp_all add: set_buffer_def offer_base_def)

lemma write_steps:
  assumes "buf = slb_buffer (pi_log inner)" "base = offer_base inner cp"
    and "base + (32 + length payload) \<le> length buf"
    and "hdr0 = data_header_bytes (offer_header (pi_session_id inner) (pi_stream_id inner)
          (cp_active_term_id cp) (cp_term_offset cp) 0)"
  shows "write_header inner cp = Some (set_buffer inner (overwrite buf base hdr0))"
    "write_payload (set_buffer inner (overwrite buf base hdr0)) cp payload =
       Some (set_buffer inner (overwrite buf base (hdr0 @ payload)))"
    "commit_frame (set_buffer inner (overwrite buf base (hdr0 @ payload))) cp payload =
       Some (set_buffer inner (overwrite buf base
         (offer_frame (pi_session_id inner) (pi_stream_id inner) (cp_active_term_id cp)
            (cp_term_offset cp) payload)))"
proof -
  have l: "length hdr0 = 32" by (simp add: assms(4) dh.length_bytes)
  show "write_header inner cp = Some (set_buffer inner (overwrite buf base hdr0))"
    using assms by (simp add: write_header_def write_log_def write_at_def dh.length_bytes)
  show "write_payload (set_buffer inner (overwrite buf base hdr0)) cp payload =
       Some (set_buffer inner (overwrite buf base (hdr0 @ payload)))"
    using assms(1-3) overwrite_append [of base hdr0 payload buf] l
    by (simp add: write_payload_def write_log_def write_at_def term_constants)
  have "overwrite (overwrite buf base (hdr0 @ payload)) base (le_bytes 4 (of_nat (32 + length payload) :: i32))
      = overwrite buf base (offer_frame (pi_session_id inner) (pi_stream_id inner) (cp_active_term_id cp)
            (cp_term_offset cp) payload)"
    using assms(3) l
    by (subst overwrite_front) (simp_all add: assms(4) header_commit offer_frame_def term_constants)
  then show "commit_frame (set_buffer inner (overwrite buf base (hdr0 @ payload))) cp payload =
       Some (set_buffer inner (overwrite buf base
         (offer_frame (pi_session_id inner) (pi_stream_id inner) (cp_active_term_id cp)
            (cp_term_offset cp) payload)))"
    using assms(1-3) l
    by (simp add: commit_frame_def commit_log_def atomic_frame_length_store_def write_at_def
        term_constants)
qed

lemma pad_steps:
  assumes "buf = slb_buffer (pi_log inner)" "base = offer_base inner cp"
    and "rem = pi_term_length inner - cp_term_offset cp" "32 \<le> rem" "base + 32 \<le> length buf"
    and "hdr = data_header_bytes (pad_header rem (cp_term_offset cp))"
  shows "write_pad inner cp = Some (set_buffer inner (overwrite buf (base + 4) (drop 4 hdr)))"
    "commit_pad (set_buffer inner (overwrite buf (base + 4) (drop 4 hdr))) cp =
       Some (set_buffer inner (overwrite buf base hdr))"
proof -
  have l: "length hdr = 32" by (simp add: assms(6) dh.length_bytes)
  show "write_pad inner cp = Some (set_buffer inner (overwrite buf (base + 4) (drop 4 hdr)))"
    using assms l by (simp add: write_pad_def Let_def write_log_def write_at_def term_constants)
  have "overwrite (overwrite buf (base + 4) (drop 4 hdr)) base (le_bytes 4 (of_nat rem :: i32))
      = overwrite buf base hdr"
    using overwrite_before [of base "le_bytes 4 (of_nat rem :: i32)" "drop 4 hdr" buf] assms(5) l
    by (simp add: assms(6) header_commit(2))
  then show "commit_pad (set_buffer inner (overwrite buf (base + 4) (drop 4 hdr))) cp =
       Some (set_buffer inner (overwrite buf base hdr))"
    using assms(1-5) l
    by (simp add: commit_pad_def Let_def commit_log_def atomic_frame_length_store_def write_at_def
        term_constants)
qed

lemma not_4_le_partition [simp]: "\<not> 4 \<le> partition_index t t0"
  using partition_index_lt [of t t0] by simp

lemma conc_base_range:
  assumes "conc_wf inner cp"
  shows "offer_base inner cp + (pi_term_length inner - cp_term_offset cp)
    \<le> length (slb_buffer (pi_log inner))"
  using part_in_range [OF partition_index_lt, of "pi_term_length inner" "pi_term_length inner"
      "cp_active_term_id cp" "pi_initial_term_id inner"] assms
  by (simp add: conc_wf_def offer_base_def)

lemma to_np_simps [simp]:
  "np_raw_log (to_np inner cp) =
     \<lparr>rl_buffer = slb_buffer (pi_log inner), rl_term_length = slb_term_length (pi_log inner)\<rparr>"
  "np_initial_term_id (to_np inner cp) = pi_initial_term_id inner"
  "np_active_term_id (to_np inner cp) = cp_active_term_id cp"
  "np_term_offset (to_np inner cp) = cp_term_offset cp"
  "np_term_length (to_np inner cp) = pi_term_length inner"
  "np_pub_position (to_np inner cp) = cp_pub_position_local cp"
  "np_sender_position (to_np inner cp) = pi_sender_position inner"
  "np_session_id (to_np inner cp) = pi_session_id inner"
  "np_stream_id (to_np inner cp) = pi_stream_id inner"
  "np_max_payload_length (to_np inner cp) = pi_max_payload_length inner"
  "np_term_length_mask (to_np inner cp) = pi_term_length_mask inner"
  "np_position_bits_to_shift (to_np inner cp) = pi_position_bits_to_shift inner"
  by (simp_all add: to_np_def)

lemma conc_rotate_np:
  assumes "slb_term_length (pi_log inner) = pi_term_length inner"
    "conc_rotate_term inner cp = (inner', cp')"
  shows "np_rotate_term (to_np inner cp) = to_np inner' cp'"
  using assms
  by (auto simp: conc_rotate_term_def np_rotate_term_def to_np_def Let_def
      raw_log_clean_partition_def shared_log_clean_partition_def)

lemma conc_pad_np:
  assumes wf: "conc_wf inner cp"
  shows "\<exists>inner1 buf. write_pad inner cp = Some inner1 \<and> commit_pad inner1 cp = Some (set_buffer inner buf) \<and>
    raw_log_write_pad_frame (np_raw_log (to_np inner cp))
      (partition_index (cp_active_term_id cp) (pi_initial_term_id inner)) (cp_term_offset cp) =
      Some \<lparr>rl_buffer = buf, rl_term_length = slb_term_length (pi_log inner)\<rparr>"
proof (cases "32 \<le> pi_term_length inner - cp_term_offset cp")
  case True
  have b: "offer_base inner cp + 32 \<le> length (slb_buffer (pi_log inner))"
    using conc_base_range [OF wf] True by linarith
  have "\<not> pi_term_length inner \<le> cp_term_offset cp" using True by linarith
  then have "raw_log_write_pad_frame (np_raw_log (to_np inner cp))
      (partition_index (cp_active_term_id cp) (pi_initial_term_id inner)) (cp_term_offset cp) =
    Some \<lparr>rl_buffer = overwrite (slb_buffer (pi_log inner)) (offer_base inner cp)
        (data_header_bytes (pad_header (pi_term_length inner - cp_term_offset cp) (cp_term_offset cp))),
      rl_term_length = slb_term_length (pi_log inner)\<rparr>"
    using True b wf
    by (simp add: raw_log_write_pad_frame_def conc_wf_def term_constants Let_def write_at_def
        dh.length_bytes offer_base_def)
  with pad_steps [OF refl refl refl True b refl] show ?thesis by blast
next
  case False
  then have "write_pad inner cp = Some inner" "commit_pad inner cp = Some inner"
    by (simp_all add: write_pad_def commit_pad_def Let_def term_constants)
  moreover have "inner = set_buffer inner (slb_buffer (pi_log inner))" by (simp add: set_buffer_def)
  ultimately show ?thesis
    using False wf
    by (intro exI [of _ inner] exI [of _ "slb_buffer (pi_log inner)"])
      (auto simp: raw_log_write_pad_frame_def conc_wf_def term_constants Let_def)
qed

lemma conc_offer_np:
  assumes wf: "conc_wf inner cp" and r: "conc_offer inner cp payload = (r, inner', cp')"
  shows "np_offer (to_np inner cp) payload = (r, to_np inner' cp')"
proof -
  let ?np = "to_np inner cp" and ?part = "partition_index (cp_active_term_id cp) (pi_initial_term_id inner)"
  let ?new = "new_term_offset cp payload"
  let ?hdr = "offer_header (pi_session_id inner) (pi_stream_id inner) (cp_active_term_id cp)
    (cp_term_offset cp) (32 + of_nat (length payload))"
  let ?app = "raw_log_append_frame (np_raw_log ?np) ?part (cp_term_offset cp) ?hdr payload"
  note bp = conc_back_pressured_def
  have tl: "slb_term_length (pi_log inner) = pi_term_length inner" using wf by (simp add: conc_wf_def)
  consider (early) "pi_max_payload_length inner < length payload \<or> conc_back_pressured inner cp"
    | (full) "\<not> pi_max_payload_length inner < length payload" "\<not> conc_back_pressured inner cp"
        "pi_term_length inner < ?new"
    | (fits) "\<not> pi_max_payload_length inner < length payload" "\<not> conc_back_pressured inner cp"
        "\<not> pi_term_length inner < ?new"
    by blast
  then show ?thesis
  proof cases
    case early
    with r show ?thesis by (auto simp: conc_offer_def np_offer_def bp split: if_splits)
  next
    case full
    have "?app = Err TermFull"
      using full(3) tl
      by (simp add: raw_log_append_frame_def new_term_offset_def term_constants Let_def)
    moreover obtain inner1 buf where p: "write_pad inner cp = Some inner1"
      "commit_pad inner1 cp = Some (set_buffer inner buf)"
      "raw_log_write_pad_frame (np_raw_log ?np) ?part (cp_term_offset cp) =
        Some \<lparr>rl_buffer = buf, rl_term_length = slb_term_length (pi_log inner)\<rparr>"
      using conc_pad_np [OF wf] by blast
    moreover have "?np\<lparr>np_raw_log := \<lparr>rl_buffer = buf, rl_term_length = slb_term_length (pi_log inner)\<rparr>\<rparr>
        = to_np (set_buffer inner buf) cp"
      by (simp add: to_np_def)
    ultimately show ?thesis
      using r full conc_rotate_np [of "set_buffer inner buf" cp] tl
      by (simp add: conc_offer_def np_offer_def bp Let_def term_constants)
  next
    case fits
    show ?thesis
    proof (cases "offer_base inner cp + (32 + length payload) \<le> length (slb_buffer (pi_log inner))")
      case True
      note w = write_steps [OF refl refl True refl]
      have "?app = Ok (?new, \<lparr>rl_buffer = overwrite (slb_buffer (pi_log inner)) (offer_base inner cp)
          (data_header_bytes ?hdr @ payload), rl_term_length = slb_term_length (pi_log inner)\<rparr>)"
        using fits(3) True tl
          overwrite_append [of "offer_base inner cp" "data_header_bytes ?hdr" payload "slb_buffer (pi_log inner)"]
        by (simp add: raw_log_append_frame_def new_term_offset_def term_constants Let_def
            write_at_def dh.length_bytes offer_base_def)
      with r fits w show ?thesis
        by (auto simp: conc_offer_def np_offer_def bp Let_def term_constants publish_frame_def
            to_np_def offer_frame_def)
    next
      case False
      have "?app = Fault"
        using fits(3) False tl
        by (simp add: raw_log_append_frame_def new_term_offset_def term_constants Let_def
            write_at_def dh.length_bytes offer_base_def)
      with r fits False show ?thesis
        by (auto simp: conc_offer_def np_offer_def bp Let_def term_constants write_header_def
            write_log_def write_payload_def write_at_def dh.length_bytes split: if_splits)
    qed
  qed
qed

lemma scan_loop_frame_at:
  "scan_loop tlen part limit pos scanned =
     (if pos < tlen \<and> scanned < limit then
        (case scan_frame_at tlen part 0 pos of
           None \<Rightarrow> ([], scanned)
         | Some (len, al) \<Rightarrow>
             ((pos, bslice pos len part) # fst (scan_loop tlen part limit (pos + al) (scanned + al)),
              snd (scan_loop tlen part limit (pos + al) (scanned + al))))
      else ([], scanned))"
  by (subst scan_loop.simps) (simp add: scan_frame_at_def atomic_frame_length_load_def Let_def)

lemma scan_frame_at_part:
  "scan_frame_at tlen buf base pos = scan_frame_at tlen (bslice base tlen buf) 0 pos"
  by (simp add: scan_frame_at_def atomic_frame_length_load_def read_i32_def slice_slice)

lemma scan_frame_at_fits:
  "scan_frame_at tlen buf base pos = Some (len, al) \<Longrightarrow> pos + len \<le> tlen \<and> al = align_frame_length len"
  using align_ge [of len] by (auto simp: scan_frame_at_def Let_def split: if_splits)

lemma conc_scan_loop_eq:
  "conc_scan_loop tlen buf base limit pos scanned =
    scan_loop tlen (bslice base tlen buf) limit pos scanned"
proof (induction "tlen - pos" arbitrary: pos scanned rule: less_induct)
  case less
  show ?case
  proof (cases "scan_frame_at tlen buf base pos")
    case None
    then show ?thesis
      by (subst conc_scan_loop.simps, subst scan_loop_frame_at) (simp flip: scan_frame_at_part)
  next
    case (Some r)
    obtain len al where r: "r = (len, al)" by (cases r)
    have "0 < al" "pos + len \<le> tlen"
      using Some r scan_frame_at_pos scan_frame_at_fits by blast+
    with less [of "pos + al" "scanned + al"] Some r show ?thesis
      by (subst conc_scan_loop.simps, subst scan_loop_frame_at)
        (auto simp: slice_slice Let_def simp flip: scan_frame_at_part)
  qed
qed

lemma conc_scan_np:
  assumes wf: "conc_wf inner cp" and sp: "pi_sender_position inner = sp_sender_position_local sp"
    and r: "conc_sender_scan inner sp limit = (scan, inner', sp')"
  shows "np_sender_scan (to_np inner cp) limit = (scan, to_np inner' cp) \<and>
    pi_sender_position inner' = sp_sender_position_local sp' \<and> conc_wf inner' cp"
proof -
  have eq: "conc_scan_loop (pi_term_length inner) (slb_buffer (pi_log inner))
      (partition_index t t0 * pi_term_length inner) lim pos 0 =
    raw_log_scan_frames (np_raw_log (to_np inner cp)) (partition_index t t0) pos lim" for t t0 lim pos
    using wf part_in_range [OF partition_index_lt, of "pi_term_length inner" "pi_term_length inner" t t0]
    by (simp add: conc_wf_def conc_scan_loop_eq raw_log_scan_frames_def raw_log_partition_def
        PARTITION_COUNT_def)
  show ?thesis
    using r wf sp unfolding conc_sender_scan_def np_sender_scan_def Let_def eq
    by (auto simp: to_np_def conc_wf_def split: if_splits)
qed

end
