(* ===== verification/Shared_Image.thy ===== *)
theory Shared_Image
  imports Concurrent_Publication
begin

text \<open>
  The image shared by the receiver thread and a subscriber, \<^verbatim>\<open>src/src/media/shared_image.rs\<close>.

  The receiver writes frames at the offsets their headers name, so a term may have holes.
  A partition is described by its slots: \<open>Some f\<close> for a committed frame, \<open>None\<close> for 32 bytes that are
  still zero.  \<open>poll_slots\<close> is the specification of a poll on slots, and \<open>poll_loop_slots\<close> shows that
  the byte-level loop of \<open>poll_fragments\<close> computes it.
\<close>

section \<open>State\<close>

record image_inner =
  ii_log :: shared_log_buffer
  ii_receiver_position :: i64
  ii_subscriber_position :: i64
  ii_closed :: bool
  ii_session_id :: i32
  ii_stream_id :: i32
  ii_initial_term_id :: i32
  ii_term_length :: nat
  ii_term_length_mask :: nat
  ii_position_bits_to_shift :: nat

record receiver_image =
  ri_receiver_position_local :: i64

record subscriber_image =
  si_subscriber_position_local :: i64

definition new_shared_image ::
  "i32 \<Rightarrow> i32 \<Rightarrow> i32 \<Rightarrow> i32 \<Rightarrow> nat \<Rightarrow> i32 \<Rightarrow>
   (image_inner \<times> receiver_image \<times> subscriber_image) option" where
  "new_shared_image session_id stream_id initial_term_id active_term_id term_length initial_term_offset =
     (case shared_log_buffer_new term_length of
        None \<Rightarrow> None
      | Some log \<Rightarrow>
          let initial_position = scast (active_term_id - initial_term_id) * of_nat term_length
                + scast initial_term_offset
          in Some
            (\<lparr>ii_log = log, ii_receiver_position = initial_position,
              ii_subscriber_position = initial_position, ii_closed = False,
              ii_session_id = session_id, ii_stream_id = stream_id,
              ii_initial_term_id = initial_term_id, ii_term_length = term_length,
              ii_term_length_mask = term_length - 1,
              ii_position_bits_to_shift = trailing_zeros term_length\<rparr>,
             \<lparr>ri_receiver_position_local = initial_position\<rparr>,
             \<lparr>si_subscriber_position_local = initial_position\<rparr>))"

section \<open>The receiver's handle\<close>

definition set_image_buffer :: "image_inner \<Rightarrow> byte list \<Rightarrow> image_inner" where
  "set_image_buffer inner buf = inner\<lparr>ii_log := (ii_log inner)\<lparr>slb_buffer := buf\<rparr>\<rparr>"

definition uncommitted :: "data_header \<Rightarrow> data_header" where
  "uncommitted header =
     header\<lparr>dh_frame_header := (dh_frame_header header)\<lparr>fh_frame_length := 0\<rparr>\<rparr>"

text \<open>
  The three writes go through raw pointers; leaving the allocation is \<open>Fault\<close>.
\<close>

definition image_append_frame ::
  "image_inner \<Rightarrow> nat \<Rightarrow> nat \<Rightarrow> data_header \<Rightarrow> byte list \<Rightarrow> (append_error, nat \<times> image_inner) outcome" where
  "image_append_frame inner partition_idx term_offset header payload =
     (if PARTITION_COUNT \<le> partition_idx then Err InvalidPartition
      else
        let raw_len = DATA_HEADER_LENGTH + length payload;
            aligned_len = align_frame_length raw_len mod 2 ^ 32;
            new_offset = (term_offset + aligned_len) mod 2 ^ 32
        in if ii_term_length inner < new_offset then Err TermFull
           else
             let base = partition_idx * ii_term_length inner + term_offset
             in outcome_bind (of_option (write_at (slb_buffer (ii_log inner)) base
                    (data_header_bytes (uncommitted header))))
                  (\<lambda>b1. outcome_bind (of_option (if payload = [] then Some b1
                            else write_at b1 (base + DATA_HEADER_LENGTH) payload))
                    (\<lambda>b2. outcome_bind (of_option
                              (atomic_frame_length_store b2 base (of_nat raw_len)))
                      (\<lambda>b3. Ok (new_offset, set_image_buffer inner b3)))))"

definition advance_receiver_position ::
  "image_inner \<Rightarrow> receiver_image \<Rightarrow> i64 \<Rightarrow> image_inner \<times> receiver_image" where
  "advance_receiver_position inner ri new_pos =
     (inner\<lparr>ii_receiver_position := new_pos\<rparr>, ri\<lparr>ri_receiver_position_local := new_pos\<rparr>)"

definition check_back_pressure :: "image_inner \<Rightarrow> receiver_image \<Rightarrow> bool" where
  "check_back_pressure inner ri \<longleftrightarrow>
     sint (of_nat (ii_term_length inner) * (of_nat PARTITION_COUNT - 1) :: i64)
       \<le> sint (ri_receiver_position_local ri - ii_subscriber_position inner)"

definition image_clean_partition :: "image_inner \<Rightarrow> nat \<Rightarrow> image_inner" where
  "image_clean_partition inner partition_idx =
     inner\<lparr>ii_log := shared_log_clean_partition (ii_log inner) partition_idx\<rparr>"

definition image_close :: "image_inner \<Rightarrow> image_inner" where
  "image_close inner = inner\<lparr>ii_closed := True\<rparr>"

section \<open>The subscriber's handle\<close>

text \<open>The inner loop of the gap skip: the distance to the next committed length word.\<close>

function gap_skip :: "nat \<Rightarrow> byte list \<Rightarrow> nat \<Rightarrow> nat \<Rightarrow> nat \<Rightarrow> nat" where
  "gap_skip tlen buf part_base pos skip =
     (if pos + skip < tlen then
        if 0 < sint (atomic_frame_length_load buf (part_base + (pos + skip))) then skip
        else gap_skip tlen buf part_base pos (skip + FRAME_ALIGNMENT)
      else skip)"
  by pat_completeness auto
termination
  by (relation "measure (\<lambda>(tlen, buf, part_base, pos, skip). tlen - skip)")
    (auto simp: term_constants)

declare gap_skip.simps [simp del]

lemma gap_skip_ge: "skip \<le> gap_skip tlen buf part_base pos skip"
proof (induction tlen buf part_base pos skip rule: gap_skip.induct)
  case (1 tlen buf part_base pos skip)
  then show ?case
    by (subst gap_skip.simps) (auto simp: term_constants)
qed

definition clamp_skip :: "nat \<Rightarrow> nat \<Rightarrow> nat \<Rightarrow> nat" where
  "clamp_skip tlen pos skip = (if tlen < pos + skip then tlen - pos else skip)"

lemma clamp_skip_pos: "pos < tlen \<Longrightarrow> 0 < clamp_skip tlen pos (gap_skip tlen buf base pos FRAME_ALIGNMENT)"
  using gap_skip_ge [of FRAME_ALIGNMENT tlen buf base pos] by (auto simp: clamp_skip_def term_constants)

lemma align_gt_0: "32 \<le> n \<Longrightarrow> 0 < align_frame_length n"
  using align_ge [of n] by linarith

text \<open>
  The loop of \<open>poll_fragments\<close>.  \<open>start\<close> is the subscriber position the poll starts from, \<open>bytes\<close> the
  bytes scanned so far.  The result lists the payloads handed to the handler, then the number of
  fragments and the bytes scanned.
\<close>

function poll_loop ::
  "image_inner \<Rightarrow> i64 \<Rightarrow> nat \<Rightarrow> int \<Rightarrow> nat \<Rightarrow> int \<Rightarrow> nat \<Rightarrow> byte list list \<times> int \<times> nat" where
  "poll_loop inner start part_base limit pos fragments bytes =
     (if pos < ii_term_length inner \<and> fragments < limit then
        if ii_term_length inner - pos < 4 then ([], fragments, bytes)
        else
          let buf = slb_buffer (ii_log inner);
              frame_length = atomic_frame_length_load buf (part_base + pos)
          in if sint frame_length \<le> 0 then
               if sint (ii_receiver_position inner) \<le> sint (start + of_nat bytes)
               then ([], fragments, bytes)
               else
                 let skip = clamp_skip (ii_term_length inner) pos
                       (gap_skip (ii_term_length inner) buf part_base pos FRAME_ALIGNMENT)
                 in poll_loop inner start part_base limit (pos + skip) fragments (bytes + skip)
             else if unat frame_length < DATA_HEADER_LENGTH then ([], fragments, bytes)
             else
               let aligned_len = align_frame_length (unat frame_length)
               in if ii_term_length inner < pos + aligned_len then ([], fragments, bytes)
                  else if read_u16 buf (part_base + pos + 6) = FRAME_TYPE_PAD then
                    poll_loop inner start part_base limit (pos + aligned_len) fragments
                      (bytes + aligned_len)
                  else
                    let rest = poll_loop inner start part_base limit (pos + aligned_len)
                          (fragments + 1) (bytes + aligned_len)
                    in (bslice (part_base + pos + DATA_HEADER_LENGTH)
                          (unat frame_length - DATA_HEADER_LENGTH) buf # fst rest, snd rest)
      else ([], fragments, bytes))"
  by pat_completeness auto
termination
proof (relation "measure (\<lambda>(inner, start, base, limit, pos, fragments, bytes). ii_term_length inner - pos)",
    goal_cases)
  case (2 inner start base limit pos)
  then show ?case using clamp_skip_pos by (simp add: diff_less_mono2)
qed (auto simp: term_constants not_less intro!: diff_less_mono2 align_gt_0)

declare poll_loop.simps [simp del]

definition poll_fragments ::
  "image_inner \<Rightarrow> subscriber_image \<Rightarrow> i32 \<Rightarrow>
   (byte list \<times> i32 \<times> i32) list \<times> int \<times> image_inner \<times> subscriber_image" where
  "poll_fragments inner si limit =
     (if sint limit \<le> 0 then ([], 0, inner, si)
      else
        let start = si_subscriber_position_local si;
            term_id = ii_initial_term_id inner
              + ucast (signed_drop_bit (ii_position_bits_to_shift inner) start);
            term_offset = unat (ucast (start AND of_nat (ii_term_length_mask inner)) :: 32 word);
            part_idx = partition_index term_id (ii_initial_term_id inner);
            r = poll_loop inner start (part_idx * ii_term_length inner) (sint limit) term_offset 0 0;
            calls = map (\<lambda>p. (p, ii_session_id inner, ii_stream_id inner)) (fst r);
            bytes = snd (snd r)
        in if 0 < bytes then
             let pos = start + of_nat bytes
             in (calls, fst (snd r), inner\<lparr>ii_subscriber_position := pos\<rparr>,
                 si\<lparr>si_subscriber_position_local := pos\<rparr>)
           else (calls, fst (snd r), inner, si))"

definition is_closed :: "image_inner \<Rightarrow> bool" where
  "is_closed inner = ii_closed inner"

section \<open>Slots\<close>

definition enc_slot :: "frame option \<Rightarrow> byte list" where
  "enc_slot slot = (case slot of None \<Rightarrow> replicate 32 0 | Some f \<Rightarrow> enc f)"

definition enc_slots :: "frame option list \<Rightarrow> byte list" where
  "enc_slots ss = concat (map enc_slot ss)"

definition slots_len :: "frame option list \<Rightarrow> nat" where
  "slots_len ss = length (enc_slots ss)"

definition valid_slots :: "frame option list \<Rightarrow> bool" where
  "valid_slots ss \<longleftrightarrow> (\<forall>f. Some f \<in> set ss \<longrightarrow> valid_frame f)"

lemma slots_simps [simp]:
  "enc_slots [] = []" "enc_slots (s # ss) = enc_slot s @ enc_slots ss"
  "enc_slots (ss @ ts) = enc_slots ss @ enc_slots ts"
  "slots_len [] = 0" "slots_len (None # ss) = 32 + slots_len ss"
  "slots_len (Some f # ss) = align_frame_length (length f) + slots_len ss"
  "slots_len (ss @ ts) = slots_len ss + slots_len ts"
  "valid_slots []" "valid_slots (None # ss) \<longleftrightarrow> valid_slots ss"
  "valid_slots (Some f # ss) \<longleftrightarrow> valid_frame f \<and> valid_slots ss"
  "valid_slots (ss @ ts) \<longleftrightarrow> valid_slots ss \<and> valid_slots ts"
  by (auto simp: enc_slots_def slots_len_def enc_slot_def valid_slots_def)

lemma slots_len_holes: "\<forall>s \<in> set ss. s = None \<Longrightarrow> slots_len ss = 32 * length ss"
  by (induction ss) auto

definition holes :: "frame option list \<Rightarrow> nat" where
  "holes ss = length (takeWhile (\<lambda>s. s = None) ss)"

lemma holes_simps [simp]:
  "holes [] = 0" "holes (None # ss) = Suc (holes ss)" "holes (Some f # ss) = 0"
  by (simp_all add: holes_def)

lemma holes_0: "holes ss = 0 \<Longrightarrow> ss = [] \<or> (\<exists>f ts. ss = Some f # ts)"
  by (cases ss; cases "hd ss") auto

lemma holes_Suc: "holes ss = Suc n \<Longrightarrow> \<exists>ts. ss = None # ts"
  by (cases ss; cases "hd ss") auto

lemma holes_split: "ss = replicate (holes ss) None @ drop (holes ss) ss"
proof (induction ss)
  case (Cons s ss)
  then show ?case by (cases s) auto
qed simp

text \<open>
  The specification of a poll: deliver data frames in order, step over pad frames, step over a run
  of holes only when the receiver position lies beyond its start, stop at the limit.
\<close>

function poll_slots :: "int \<Rightarrow> nat \<Rightarrow> nat \<Rightarrow> frame option list \<Rightarrow> int \<Rightarrow> byte list list \<times> int \<times> nat" where
  "poll_slots limit recv cur [] n = ([], n, cur)"
| "poll_slots limit recv cur (None # ss) n =
     (if n < limit \<and> cur < recv
      then poll_slots limit recv (cur + 32 * Suc (holes ss)) (drop (holes ss) ss) n
      else ([], n, cur))"
| "poll_slots limit recv cur (Some f # ss) n =
     (if n < limit then
        if is_data_frame f then
          let r = poll_slots limit recv (cur + align_frame_length (length f)) ss (n + 1)
          in (drop DATA_HEADER_LENGTH f # fst r, snd r)
        else poll_slots limit recv (cur + align_frame_length (length f)) ss n
      else ([], n, cur))"
  by pat_completeness auto
termination by (relation "measure (\<lambda>(limit, recv, cur, ss, n). length ss)") auto

lemma read_slot_hole: "read_i32 (enc_slots (None # ss) @ ys) 0 = 0"
  by (simp add: enc_slot_def read_i32_append read_i32_replicate)

lemma read_slot_frame:
  assumes "valid_frame f"
  shows "read_i32 (enc_slots (Some f # ss) @ ys) 0 = of_nat (length f)"
    "read_u16 (enc_slots (Some f # ss) @ ys) 6 = read_u16 f 6"
    "bslice 32 (length f - 32) (enc_slots (Some f # ss) @ ys) = drop 32 f"
  using assms valid_frame_length(3) [OF assms]
  by (simp_all add: enc_slot_def enc_def read_i32_append valid_frame_def read_u16_def bslice_def drop_take)

text \<open>Reading a word of a partition that is laid out in slots.\<close>

definition slot_part :: "image_inner \<Rightarrow> nat \<Rightarrow> frame option list \<Rightarrow> bool" where
  "slot_part inner base ss \<longleftrightarrow>
     bslice base (ii_term_length inner) (slb_buffer (ii_log inner)) = enc_slots ss \<and>
     slots_len ss = ii_term_length inner \<and> valid_slots ss"

lemma part_drop:
  assumes "slot_part inner base (pre @ ss)"
  shows "drop (base + slots_len pre) (slb_buffer (ii_log inner)) =
    enc_slots ss @ drop (base + ii_term_length inner) (slb_buffer (ii_log inner))"
proof -
  let ?buf = "slb_buffer (ii_log inner)" and ?t = "ii_term_length inner"
  have "drop base ?buf = bslice base ?t ?buf @ drop ?t (drop base ?buf)"
    by (simp only: bslice_def append_take_drop_id)
  also have "\<dots> = (enc_slots pre @ enc_slots ss) @ drop (base + ?t) ?buf"
    using assms by (simp add: slot_part_def add.commute)
  finally have "drop (slots_len pre) (drop base ?buf) = enc_slots ss @ drop (base + ?t) ?buf"
    by (simp add: slots_len_def)
  then show ?thesis by (simp add: add.commute)
qed

lemma read_drop:
  "read_i32 buf (a + b) = read_i32 (drop a buf) b" "read_u16 buf (a + b) = read_u16 (drop a buf) b"
  "bslice (a + b) n buf = bslice b n (drop a buf)"
  by (simp_all add: read_i32_def read_u16_def bslice_def add.commute)

lemma read_part:
  assumes "slot_part inner base (pre @ ss)"
  shows "read_i32 (slb_buffer (ii_log inner)) (base + slots_len pre) =
      read_i32 (enc_slots ss @ drop (base + ii_term_length inner) (slb_buffer (ii_log inner))) 0"
    "read_u16 (slb_buffer (ii_log inner)) (base + slots_len pre + 6) =
      read_u16 (enc_slots ss @ drop (base + ii_term_length inner) (slb_buffer (ii_log inner))) 6"
    "bslice (base + slots_len pre + 32) n (slb_buffer (ii_log inner)) =
      bslice 32 n (enc_slots ss @ drop (base + ii_term_length inner) (slb_buffer (ii_log inner)))"
  unfolding part_drop [OF assms, symmetric]
  using read_drop(1) [of _ _ 0] by (simp_all only: read_drop add_0_right)

lemma slot_part_len: "slot_part inner base ss \<Longrightarrow> slots_len ss = ii_term_length inner"
  by (simp add: slot_part_def)

lemma slot_part_valid: "slot_part inner base ss \<Longrightarrow> valid_slots ss"
  by (simp add: slot_part_def)

text \<open>The gap skip jumps to the end of a run of holes.\<close>

lemma gap_skip_holes:
  assumes "slot_part inner base (pre @ replicate d None @ ss)"
  shows "gap_skip (ii_term_length inner) (slb_buffer (ii_log inner)) base (slots_len pre) (32 * d)
    = 32 * (d + holes ss)"
  using assms
proof (induction "holes ss" arbitrary: d ss)
  case (0 ss d)
  let ?pre = "pre @ replicate d None"
  have l: "slots_len (replicate d None) = 32 * d" by (induction d) auto
  from holes_0 [OF 0(1) [symmetric]] consider "ss = []" | f ts where "ss = Some f # ts" by blast
  then show ?case
  proof cases
    case 1
    with slot_part_len [OF 0(2)] l show ?thesis by (subst gap_skip.simps) simp
  next
    case 2
    then have v: "valid_frame f" using slot_part_valid [OF 0(2)] by simp
    have "read_i32 (slb_buffer (ii_log inner)) (base + slots_len ?pre) = of_nat (length f)"
      using read_part(1) [of inner base ?pre ss] 0(2) 2 read_slot_frame(1) [OF v] by simp
    then have "0 < sint (read_i32 (slb_buffer (ii_log inner)) (base + (slots_len pre + 32 * d)))"
      using v valid_frame_length(3) [OF v] by (auto simp: l valid_frame_def word_conv)
    with 2 show ?thesis by (subst gap_skip.simps) (simp add: atomic_frame_length_load_def)
  qed
next
  case (Suc n ss d)
  let ?pre = "pre @ replicate d None"
  have l: "slots_len (replicate d None) = 32 * d" by (induction d) auto
  obtain ts where ss: "ss = None # ts"
    using holes_Suc [OF Suc(2) [symmetric]] by blast
  have "replicate d None @ ss = replicate (Suc d) None @ ts"
    by (simp add: ss replicate_app_Cons_same)
  then have p: "slot_part inner base (pre @ replicate (Suc d) None @ ts)" using Suc(3) by simp
  have "read_i32 (slb_buffer (ii_log inner)) (base + slots_len ?pre) = 0"
    using read_part(1) [of inner base ?pre ss] Suc(3) ss read_slot_hole by simp
  then have "\<not> 0 < sint (read_i32 (slb_buffer (ii_log inner)) (base + (slots_len pre + 32 * d)))"
    by (simp add: l)
  moreover have "slots_len pre + 32 * d < ii_term_length inner"
    using slot_part_len [OF Suc(3)] l ss by simp
  moreover have "gap_skip (ii_term_length inner) (slb_buffer (ii_log inner)) base (slots_len pre)
      (32 * Suc d) = 32 * (Suc d + holes ts)"
    using Suc(2) ss by (intro Suc(1) p) simp
  ultimately show ?case
    by (subst gap_skip.simps) (simp add: atomic_frame_length_load_def term_constants ss add.commute)
qed

text \<open>The loop on bytes is the specification on slots.\<close>

lemma poll_loop_slots:
  assumes "slot_part inner base (pre @ ss)"
    and "start = of_nat s" "s + bytes < 2 ^ 62" "s + bytes + slots_len ss < 2 ^ 62"
    and "ii_receiver_position inner = of_nat recv" "recv < 2 ^ 62"
  shows "poll_loop inner start base limit (slots_len pre) n bytes =
    (case poll_slots limit recv (s + bytes) ss n of (calls, m, cur) \<Rightarrow> (calls, m, cur - s))"
  using assms
proof (induction limit recv "s + bytes" ss n arbitrary: bytes pre rule: poll_slots.induct)
  case (1 limit recv n)
  then show ?case
    using slot_part_len [OF 1(1)] by (subst poll_loop.simps) simp
next
  case (2 limit recv ss n)
  let ?t = "ii_term_length inner" and ?h = "holes ss"
  have len: "slots_len pre + 32 + slots_len ss = ?t" using slot_part_len [OF 2(2)] by simp
  have z: "read_i32 (slb_buffer (ii_log inner)) (base + slots_len pre) = 0"
    using read_part(1) [OF 2(2)] read_slot_hole by simp
  have cmp: "sint (of_nat recv :: i64) \<le> sint (of_nat s + of_nat bytes :: i64) \<longleftrightarrow> recv \<le> s + bytes"
    using 2(4,7) sint_of_nat [of recv, where ?'a = 64] sint_of_nat [of "s + bytes", where ?'a = 64]
    by simp linarith
  show ?case
  proof (cases "n < limit \<and> s + bytes < recv")
    case False
    then show ?thesis
      using 2(3,6) z cmp len
      by (subst poll_loop.simps) (auto simp: atomic_frame_length_load_def Let_def)
  next
    case True
    have g: "gap_skip ?t (slb_buffer (ii_log inner)) base (slots_len pre) 32 = 32 * Suc ?h"
      using gap_skip_holes [of inner base pre 1 ss] 2(2) by simp
    have hl: "slots_len (replicate k None) = 32 * k" for k by (induction k) auto
    have sl: "slots_len ss = 32 * ?h + slots_len (drop ?h ss)"
      using arg_cong [OF holes_split [of ss], of slots_len] by (simp add: hl)
    have "pre @ None # ss = (pre @ replicate (Suc ?h) None) @ drop ?h ss"
      using holes_split [of ss] by simp
    then have p: "slot_part inner base ((pre @ replicate (Suc ?h) None) @ drop ?h ss)"
      using 2(2) by simp
    have IH: "poll_loop inner start base limit (slots_len (pre @ replicate (Suc ?h) None)) n
        (bytes + 32 * Suc ?h) =
      (case poll_slots limit recv (s + (bytes + 32 * Suc ?h)) (drop ?h ss) n of
        (calls, m, cur) \<Rightarrow> (calls, m, cur - s))"
      using 2(3-7) sl by (intro 2(1) [OF True _ p]) simp_all
    have c: "clamp_skip ?t (slots_len pre) (32 * Suc ?h) = 32 * Suc ?h"
      using len sl by (simp add: clamp_skip_def)
    show ?thesis
      using True 2(3,6) z cmp len g c IH hl
      by (subst poll_loop.simps)
        (auto simp: atomic_frame_length_load_def Let_def term_constants ac_simps)
  qed
next
  case (3 limit recv f ss n)
  let ?t = "ii_term_length inner" and ?a = "align_frame_length (length f)"
  have v: "valid_frame f" using slot_part_valid [OF 3(3)] by simp
  have len: "slots_len pre + ?a + slots_len ss = ?t" using slot_part_len [OF 3(3)] by simp
  have r: "read_i32 (slb_buffer (ii_log inner)) (base + slots_len pre) = of_nat (length f)"
    "read_u16 (slb_buffer (ii_log inner)) (base + slots_len pre + 6) = read_u16 f 6"
    "bslice (base + slots_len pre + 32) (length f - 32) (slb_buffer (ii_log inner)) = drop 32 f"
    using read_part [OF 3(3)] read_slot_frame [OF v] by simp_all
  have w: "sint (of_nat (length f) :: i32) = int (length f)" "unat (of_nat (length f) :: i32) = length f"
    "32 \<le> length f" "32 \<le> ?a"
    using valid_frame_length [OF v] v align_ge [of "length f"] by (simp_all add: valid_frame_def)
  have p: "slot_part inner base ((pre @ [Some f]) @ ss)" using 3(3) by simp
  have IH: "poll_loop inner start base limit (slots_len pre + ?a) m (bytes + ?a) =
      (case poll_slots limit recv (s + bytes + ?a) ss m of (calls, m, cur) \<Rightarrow> (calls, m, cur - s))"
    if "n < limit" "m = (if is_data_frame f then n + 1 else n)" for m
    using 3(1) [OF that(1) _ _ p] 3(2) [OF that(1) _ _ p] that 3(4-8)
    by (auto simp: add.assoc split: if_splits)
  have "\<not> ?t - slots_len pre < 4" "slots_len pre < ?t" using len w(4) by linarith+
  then show ?case
    using r w len IH
    by (subst poll_loop.simps)
      (auto simp: atomic_frame_length_load_def Let_def term_constants is_data_frame_def split: prod.splits)
qed

section \<open>Writing slots\<close>

definition committed_frame :: "data_header \<Rightarrow> byte list \<Rightarrow> frame" where
  "committed_frame header payload =
     data_header_bytes (header\<lparr>dh_frame_header :=
       (dh_frame_header header)\<lparr>fh_frame_length := of_nat (DATA_HEADER_LENGTH + length payload)\<rparr>\<rparr>)
     @ payload"

lemma commit_uncommitted:
  "le_bytes 4 (of_nat (32 + length payload) :: i32) @ drop 4 (data_header_bytes (uncommitted header)) @ payload
     = committed_frame header payload"
  by (simp add: committed_frame_def uncommitted_def data_header_bytes_def frame_header_bytes_def
      term_constants)

lemma committed_frame_valid:
  assumes "32 + length payload < 2 ^ 31"
  shows "valid_frame (committed_frame header payload)"
    "length (committed_frame header payload) = 32 + length payload"
    "drop 32 (committed_frame header payload) = payload"
    "is_data_frame (committed_frame header payload) \<longleftrightarrow> fh_frame_type (dh_frame_header header) \<noteq> FRAME_TYPE_PAD"
  using assms
  by (simp_all add: committed_frame_def valid_frame_def data_header_len data_header_type
      is_data_frame_def dh.length_bytes term_constants)

lemma image_append_bytes:
  assumes "idx < 4" "off + align_frame_length (32 + length payload) \<le> ii_term_length inner"
    and "ii_term_length inner \<le> 2 ^ 30" "length (slb_buffer (ii_log inner)) = 4 * ii_term_length inner"
  shows "image_append_frame inner idx off header payload =
    Ok (off + align_frame_length (32 + length payload),
        set_image_buffer inner (overwrite (slb_buffer (ii_log inner)) (idx * ii_term_length inner + off)
          (committed_frame header payload)))"
proof -
  let ?buf = "slb_buffer (ii_log inner)" and ?base = "idx * ii_term_length inner + off"
    and ?h = "data_header_bytes (uncommitted header)" and ?a = "align_frame_length (32 + length payload)"
  have m: "(off + ?a mod 2 ^ 32) mod 2 ^ 32 = off + ?a" using assms(2,3) by simp
  have r: "?base + (32 + length payload) \<le> length ?buf"
    using part_in_range [OF assms(1), of "off + (32 + length payload)" "ii_term_length inner"]
      assms(2,4) align_ge [of "32 + length payload"] by linarith
  have l: "length ?h = 32" by (simp add: dh.length_bytes)
  have o1: "overwrite (overwrite ?buf ?base ?h) (?base + 32) payload = overwrite ?buf ?base (?h @ payload)"
    using overwrite_append [of ?base ?h payload ?buf] r l by simp
  have o2: "overwrite (overwrite ?buf ?base (?h @ payload)) ?base (le_bytes 4 (of_nat (32 + length payload) :: i32))
      = overwrite ?buf ?base (committed_frame header payload)"
    using r l by (subst overwrite_front) (simp_all add: commit_uncommitted [symmetric] del: of_nat_add)
  have e: "overwrite ?buf ?base (?h @ []) = overwrite ?buf ?base ?h" by simp
  show ?thesis
    using assms(1,2) m r l o1 o2
    by (cases "payload = []")
      (simp_all add: image_append_frame_def term_constants Let_def write_at_def
        atomic_frame_length_store_def)
qed

lemma enc_slots_holes: "enc_slots (replicate k None) = replicate (32 * k) 0"
  by (induction k) (simp_all add: enc_slot_def replicate_add [symmetric])

text \<open>Appending a frame over holes puts it into its slot and leaves the other slots.\<close>

lemma append_slot:
  assumes part: "slot_part inner (idx * ii_term_length inner) (pre @ replicate k None @ post)"
    and k: "32 * k = align_frame_length (32 + length payload)" and idx: "idx < 4"
    and t: "ii_term_length inner \<le> 2 ^ 30" "length (slb_buffer (ii_log inner)) = 4 * ii_term_length inner"
  shows "\<exists>inner'. image_append_frame inner idx (slots_len pre) header payload =
      Ok (slots_len pre + 32 * k, inner') \<and>
    slot_part inner' (idx * ii_term_length inner') (pre @ Some (committed_frame header payload) # post) \<and>
    length (slb_buffer (ii_log inner')) = 4 * ii_term_length inner' \<and>
    inner' = set_image_buffer inner (slb_buffer (ii_log inner'))"
proof -
  let ?buf = "slb_buffer (ii_log inner)" and ?t = "ii_term_length inner"
  let ?f = "committed_frame header payload"
  let ?inner = "set_image_buffer inner (overwrite ?buf (idx * ?t + slots_len pre) ?f)"
  have hl: "slots_len (replicate k None) = 32 * k" by (simp add: slots_len_def enc_slots_holes)
  have len: "slots_len pre + 32 * k + slots_len post = ?t" using slot_part_len [OF part] hl by simp
  have small: "32 + length payload < 2 ^ 31"
    using len t k align_ge [of "32 + length payload"] by simp
  note f = committed_frame_valid [OF small, of header]
  have app: "image_append_frame inner idx (slots_len pre) header payload =
      Ok (slots_len pre + 32 * k, ?inner)"
    using image_append_bytes [of idx "slots_len pre" payload inner header] idx t len k by simp
  have fk: "length ?f \<le> 32 * k" using f(2) k align_ge [of "32 + length payload"] by simp
  have "part_of (overwrite ?buf (idx * ?t + slots_len pre) ?f) ?t idx =
      overwrite (part_of ?buf ?t idx) (slots_len pre) ?f"
    using t idx fk len by (intro part_of_overwrite) simp_all
  also have "part_of ?buf ?t idx = enc_slots pre @ replicate (32 * k) 0 @ enc_slots post"
    using part by (simp add: slot_part_def part_of_def enc_slots_holes)
  also have "overwrite (enc_slots pre @ replicate (32 * k) 0 @ enc_slots post) (slots_len pre) ?f =
      enc_slots (pre @ Some ?f # post)"
    using fk f(2) k by (simp add: overwrite_def slots_len_def enc_slot_def enc_def)
  finally have "slot_part ?inner (idx * ?t) (pre @ Some ?f # post)"
    using part f(1,2) k len by (simp add: slot_part_def part_of_def set_image_buffer_def)
  moreover have "length (overwrite ?buf (idx * ?t + slots_len pre) ?f) = 4 * ?t"
    using part_in_range [OF idx, of "slots_len pre + length ?f" ?t] fk len t by (simp add: add.assoc)
  ultimately show ?thesis using app by (auto simp: set_image_buffer_def)
qed

section \<open>Polls on slots\<close>

lemma poll_slots_contiguous:
  assumes "list_all valid_frame fs" "recv \<le> cur + enc_len fs"
    and "n + int (length (filter is_data_frame fs)) < limit \<or> fs = []"
  shows "poll_slots limit recv cur (map Some fs @ replicate k None) n =
    (payloads fs, n + int (length (filter is_data_frame fs)), cur + enc_len fs)"
  using assms
proof (induction fs arbitrary: cur n)
  case Nil
  then show ?case by (cases k) auto
next
  case (Cons f fs)
  then show ?case by (auto simp: Let_def add.assoc)
qed

definition image_static :: "image_inner \<Rightarrow> bool" where
  "image_static inner \<longleftrightarrow>
     is_power_of_two (ii_term_length inner) \<and> 32 \<le> ii_term_length inner \<and>
     ii_term_length inner \<le> 2 ^ 30 \<and> ii_term_length_mask inner = ii_term_length inner - 1 \<and>
     ii_position_bits_to_shift inner = trailing_zeros (ii_term_length inner)"

lemma poll_slots_mono:
  "cur \<le> snd (snd (poll_slots limit recv cur ss n))"
  "snd (snd (poll_slots limit recv cur ss n)) \<le> cur + slots_len ss"
proof (induction limit recv cur ss n rule: poll_slots.induct)
  case (2 limit recv cur ss n)
  have hl: "slots_len (replicate k None) = 32 * k" for k by (simp add: slots_len_def enc_slots_holes)
  have "slots_len ss = 32 * holes ss + slots_len (drop (holes ss) ss)"
    using arg_cong [OF holes_split [of ss], of slots_len] by (simp add: hl)
  with 2 show "cur \<le> snd (snd (poll_slots limit recv cur (None # ss) n))"
    "snd (snd (poll_slots limit recv cur (None # ss) n)) \<le> cur + slots_len (None # ss)"
    by auto
qed (auto simp: Let_def)

lemma poll_fragments_slots:
  assumes st: "image_static inner"
    and s: "si_subscriber_position_local si = of_nat s" "s + ii_term_length inner < 2 ^ 62"
    and recv: "ii_receiver_position inner = of_nat recv" "recv < 2 ^ 62"
    and part: "slot_part inner (s div ii_term_length inner mod 4 * ii_term_length inner) (pre @ ss)"
      "slots_len pre = s mod ii_term_length inner"
    and lim: "0 < sint limit"
    and spec: "poll_slots (sint limit) recv s ss 0 = (calls, n, cur)"
  shows "poll_fragments inner si limit =
    (map (\<lambda>p. (p, ii_session_id inner, ii_stream_id inner)) calls, n,
     (if s < cur then inner\<lparr>ii_subscriber_position := of_nat cur\<rparr> else inner),
     \<lparr>si_subscriber_position_local = of_nat cur\<rparr>)"
proof -
  let ?t = "ii_term_length inner"
  obtain e where e: "?t = 2 ^ e" using st by (auto simp: image_static_def is_power_of_two_iff)
  have cur: "s \<le> cur" using poll_slots_mono(1) [of s "sint limit" recv ss 0] spec by simp
  have off: "unat (ucast (of_nat s AND of_nat (ii_term_length_mask inner) :: i64) :: 32 word) = s mod ?t"
    using position_term_offset [OF e, of s] st by (simp add: image_static_def)
  have term_id: "(ucast (signed_drop_bit (ii_position_bits_to_shift inner) (of_nat s :: i64)) :: i32)
      = of_nat (s div ?t)"
    using position_term_id [OF e, of s] s(2) st e by (simp add: image_static_def)
  have "slots_len ss \<le> ?t" using slot_part_len [OF part(1)] by simp
  then have "poll_loop inner (of_nat s) (s div ?t mod 4 * ?t) (sint limit) (s mod ?t) 0 0 = (calls, n, cur - s)"
    using poll_loop_slots [OF part(1) refl _ _ recv, of s 0 "sint limit" 0] part(2) s(2) spec by simp
  note loop = this
  show ?thesis
  proof (cases "s < cur")
    case True
    then show ?thesis using lim loop s(1)
      by (cases si) (simp add: poll_fragments_def Let_def off term_id partition_index_of_nat of_nat_diff)
  next
    case False
    with cur have "cur = s" by simp
    with loop lim s(1) show ?thesis
      by (cases si) (simp add: poll_fragments_def Let_def off term_id partition_index_of_nat)
  qed
qed

section \<open>Properties\<close>

text \<open>
  C15: Polling an image is exact.  For every layout of committed frames and holes in the term the
  subscriber is in, \<open>poll_fragments\<close> hands the handler the payloads the slot specification names, in
  order and with the session and stream of the image, returns their number, and moves the
  subscriber position by exactly the bytes stepped over.
\<close>

theorem poll_fragments_exact:
  assumes "image_static inner"
    and "si_subscriber_position_local si = of_nat s" "s + ii_term_length inner < 2 ^ 62"
    and "ii_receiver_position inner = of_nat recv" "recv < 2 ^ 62"
    and "slot_part inner (s div ii_term_length inner mod 4 * ii_term_length inner) (pre @ ss)"
    and "slots_len pre = s mod ii_term_length inner"
    and "0 < sint limit" "poll_slots (sint limit) recv s ss 0 = (calls, n, cur)"
  shows "poll_fragments inner si limit =
    (map (\<lambda>p. (p, ii_session_id inner, ii_stream_id inner)) calls, n,
     (if s < cur then inner\<lparr>ii_subscriber_position := of_nat cur\<rparr> else inner),
     \<lparr>si_subscriber_position_local = of_nat cur\<rparr>)"
  by (rule poll_fragments_slots [OF assms])

definition small_image :: image_inner where
  "small_image = fst (the (new_shared_image 7 10 100 100 64 0))"

lemma small_image_slots:
  "image_static small_image" "slot_part small_image 0 [None, None]"
  "length (slb_buffer (ii_log small_image)) = 4 * ii_term_length small_image"
  "ii_term_length small_image = 64" "ii_receiver_position small_image = 0"
  "ii_session_id small_image = 7" "ii_stream_id small_image = 10"
  by (simp_all add: small_image_def new_shared_image_def shared_log_buffer_new_def term_constants
      is_power_of_two.simps image_static_def slot_part_def bslice_def enc_slot_def
      replicate_add [symmetric] Let_def)

theorem poll_fragments_exact_witness:
  "poll_fragments small_image \<lparr>si_subscriber_position_local = 0\<rparr> 10 =
     ([], 0, small_image, \<lparr>si_subscriber_position_local = 0\<rparr>)"
  using poll_fragments_exact [OF small_image_slots(1), of "\<lparr>si_subscriber_position_local = 0\<rparr>" 0 0 "[]"
      "[None, None]" 10 "[]" 0 0] small_image_slots
  by simp

text \<open>
  What the receiver writes is what the subscriber reads.  A frame appended over free space becomes
  a slot of the image without touching its neighbours, and a subscriber that polls a term that starts
  with that frame receives exactly its payload, once, and ends up behind it.
\<close>

theorem append_then_poll:
  assumes st: "image_static inner"
    and part: "slot_part inner (s div ii_term_length inner mod 4 * ii_term_length inner)
      (pre @ replicate k None @ replicate m None)"
    and buf: "length (slb_buffer (ii_log inner)) = 4 * ii_term_length inner"
    and k: "32 * k = align_frame_length (32 + length payload)"
    and s: "slots_len pre = s mod ii_term_length inner" "s + ii_term_length inner < 2 ^ 62"
    and data: "fh_frame_type (dh_frame_header header) \<noteq> FRAME_TYPE_PAD"
    and pos: "si_subscriber_position_local si = of_nat s" "ii_receiver_position inner = of_nat s"
    and lim: "1 < sint limit"
  shows "\<exists>inner' inner''.
    image_append_frame inner (s div ii_term_length inner mod 4) (slots_len pre) header payload
      = Ok (slots_len pre + 32 * k, inner') \<and>
    poll_fragments (fst (advance_receiver_position inner' ri (of_nat (s + 32 * k)))) si limit
      = ([(payload, ii_session_id inner, ii_stream_id inner)], 1, inner'',
         \<lparr>si_subscriber_position_local = of_nat (s + 32 * k)\<rparr>)"
proof -
  let ?t = "ii_term_length inner" and ?idx = "s div ii_term_length inner mod 4"
  let ?f = "committed_frame header payload"
  have t: "?t \<le> 2 ^ 30" using st by (simp add: image_static_def)
  obtain inner' where app: "image_append_frame inner ?idx (slots_len pre) header payload =
      Ok (slots_len pre + 32 * k, inner')"
    and p: "slot_part inner' (?idx * ii_term_length inner') (pre @ Some ?f # replicate m None)"
    and i: "inner' = set_image_buffer inner (slb_buffer (ii_log inner'))"
    using append_slot [OF part k _ t buf] by auto
  have same: "ii_term_length inner' = ?t" "ii_session_id inner' = ii_session_id inner"
    "ii_stream_id inner' = ii_stream_id inner" "image_static inner'"
    using st by (subst i, simp add: set_image_buffer_def image_static_def)+
  have len: "slots_len pre + 32 * k \<le> ?t" using slot_part_len [OF part]
    by (simp add: slots_len_def enc_slots_holes)
  have small: "32 + length payload < 2 ^ 31"
    using len t k align_ge [of "32 + length payload"] by simp
  note f = committed_frame_valid [OF small, of header]
  define im where "im = fst (advance_receiver_position inner' ri (of_nat (s + 32 * k)))"
  have im: "ii_receiver_position im = of_nat (s + 32 * k)" "ii_term_length im = ?t"
    "ii_session_id im = ii_session_id inner" "ii_stream_id im = ii_stream_id inner"
    "image_static im" "slot_part im (?idx * ?t) (pre @ Some ?f # replicate m None)"
    using same p by (simp_all add: im_def advance_receiver_position_def image_static_def slot_part_def)
  have "poll_slots (sint limit) (s + 32 * k) s (map Some [?f] @ replicate m None) 0 =
      (payloads [?f], 0 + int (length (filter is_data_frame [?f])), s + enc_len [?f])"
    using f lim k data by (intro poll_slots_contiguous) simp_all
  then have "poll_slots (sint limit) (s + 32 * k) s (Some ?f # replicate m None) 0 = ([payload], 1, s + 32 * k)"
    using f data k by (simp add: term_constants)
  then have "poll_fragments im si limit = (map (\<lambda>p. (p, ii_session_id im, ii_stream_id im)) [payload], 1,
     (if s < s + 32 * k then im\<lparr>ii_subscriber_position := of_nat (s + 32 * k)\<rparr> else im),
     \<lparr>si_subscriber_position_local = of_nat (s + 32 * k)\<rparr>)"
    using im(2) s pos(1) lim len
    by (intro poll_fragments_slots [where pre = pre and recv = "s + 32 * k", OF im(5) _ _ im(1)])
      (simp_all add: im del: poll_slots.simps)
  then show ?thesis
    using app im(3,4) by (intro exI [of _ inner'] exI conjI) (simp_all only: im_def [symmetric] list.map)
qed

theorem append_then_poll_witness:
  "\<exists>inner' inner''.
    image_append_frame small_image 0 0 (offer_header 7 10 100 0 33) [42] = Ok (64, inner') \<and>
    poll_fragments (fst (advance_receiver_position inner' \<lparr>ri_receiver_position_local = 0\<rparr> 64))
      \<lparr>si_subscriber_position_local = 0\<rparr> 10
      = ([([42], 7, 10)], 1, inner'', \<lparr>si_subscriber_position_local = 64\<rparr>)"
  using append_then_poll [OF small_image_slots(1), of 0 "[]" "Suc (Suc 0)" 0 "[42]" "offer_header 7 10 100 0 33"
      "\<lparr>si_subscriber_position_local = 0\<rparr>" 10 "\<lparr>ri_receiver_position_local = 0\<rparr>"] small_image_slots(2-)
  by (simp add: align_eq data_header_type offer_header_def FRAME_TYPE_DATA_def FRAME_TYPE_PAD_def)

text \<open>
  A frame whose header names the term offset \<open>-32\<close> and has no payload passes the bounds check: the 32-bit
  sum wraps to 0.  The write starts almost four gigabytes behind the partition.
\<close>

lemma negative_offset_faults:
  assumes "idx < PARTITION_COUNT" "length (slb_buffer (ii_log inner)) = 4 * ii_term_length inner"
    and "ii_term_length inner \<le> 2 ^ 29"
  shows "image_append_frame inner idx (unat (- 32 :: i32)) header [] = Fault"
proof -
  have "unat (- 32 :: i32) = 2 ^ 32 - 32" by simp
  moreover have "length (slb_buffer (ii_log inner)) < idx * ii_term_length inner + (2 ^ 32 - 32) + 32"
    using assms(2,3) by simp
  ultimately show ?thesis
    using assms(1) by (simp add: image_append_frame_def term_constants align_eq Let_def write_at_def dh.length_bytes)
qed

end
