(* ===== verification/Linear_Probing.thy ===== *)
theory Linear_Probing
  imports Main
begin

text \<open>
  Linear probing in a circular table, independent of the receiver.  A table is a list of optional
  entries; every entry has a home slot.  \<open>probe_inv\<close> says that each entry can be reached from its
  home without crossing an empty slot.  A full table needs more: relative to one slot, the anchor,
  no other entry wraps around.  The theory proves search, insertion and backward-shift deletion
  correct on such tables, the full ones included.
\<close>

section \<open>Slots of a circle\<close>

definition cdist :: "nat \<Rightarrow> nat \<Rightarrow> nat \<Rightarrow> nat" where
  "cdist n a b = (b + n - a) mod n"

definition slot :: "nat \<Rightarrow> nat \<Rightarrow> nat \<Rightarrow> nat" where
  "slot n b x = (b + x) mod n"

lemma mod_once: "x < 2 * n \<Longrightarrow> x mod n = (if x < n then x else x - (n :: nat))"
  by (simp add: mod_if)

lemma slot_lt: "0 < n \<Longrightarrow> slot n b x < n"
  by (simp add: slot_def)

lemma slot_less: "b < n \<Longrightarrow> slot n b x < n"
  by (rule slot_lt) linarith

lemma slot_eq: "b < n \<Longrightarrow> x < n \<Longrightarrow> slot n b x = (if b + x < n then b + x else b + x - n)"
  by (simp add: slot_def mod_once)

lemma cdist_eq: "a < n \<Longrightarrow> b < n \<Longrightarrow> cdist n a b = (if a \<le> b then b - a else b + n - a)"
  by (simp add: cdist_def mod_once)

lemma cdist_lt: "0 < n \<Longrightarrow> cdist n a b < n"
  by (simp add: cdist_def)

lemma slot_inj: "b < n \<Longrightarrow> x < n \<Longrightarrow> y < n \<Longrightarrow> slot n b x = slot n b y \<longleftrightarrow> x = y"
  by (auto simp: slot_eq split: if_splits)

lemma cdist_slot:
  "b < n \<Longrightarrow> x < n \<Longrightarrow> y < n \<Longrightarrow> cdist n (slot n b x) (slot n b y) = (if x \<le> y then y - x else y + n - x)"
  by (simp add: slot_eq cdist_eq slot_lt) linarith

lemma slot_cdist: "b < n \<Longrightarrow> p < n \<Longrightarrow> slot n b (cdist n b p) = p"
  by (simp add: cdist_eq slot_eq)

lemma home_slot:
  assumes "b < n" "p < n"
  shows "cdist n b p < n" "p = slot n b (cdist n b p)"
proof -
  have "0 < n" using assms(1) by linarith
  then show "cdist n b p < n" by (rule cdist_lt)
qed (simp add: slot_cdist assms)

lemma slot_shift: "b < n \<Longrightarrow> x < n \<Longrightarrow> (slot n b x + i) mod n = slot n b (x + i)"
  by (simp add: slot_def mod_add_left_eq add.assoc)

lemma slot_wrap: "slot n b (x + n) = slot n b x"
  by (simp add: slot_def add.assoc [symmetric])

lemma slots_exhaust: "b < n \<Longrightarrow> p < n \<Longrightarrow> \<exists>x < n. p = slot n b x"
  using slot_cdist [of b n p] cdist_lt [of n b p] by (metis less_nat_zero_code neq0_conv)

section \<open>Tables\<close>

definition entries :: "'e option list \<Rightarrow> 'e set" where
  "entries t = {e. Some e \<in> set t}"

definition tab_distinct :: "'e option list \<Rightarrow> bool" where
  "tab_distinct t \<longleftrightarrow>
     (\<forall>p < length t. \<forall>q < length t. t ! p \<noteq> None \<longrightarrow> t ! p = t ! q \<longrightarrow> p = q)"

definition reached :: "('e \<Rightarrow> nat) \<Rightarrow> 'e option list \<Rightarrow> nat \<Rightarrow> 'e \<Rightarrow> bool" where
  "reached home t p e \<longleftrightarrow>
     (\<forall>i < cdist (length t) (home e) p. t ! slot (length t) (home e) i \<noteq> None)"

definition anchored :: "('e \<Rightarrow> nat) \<Rightarrow> 'e option list \<Rightarrow> nat \<Rightarrow> bool" where
  "anchored home t b \<longleftrightarrow>
     (\<forall>x < length t - 1. \<forall>e. t ! slot (length t) b x = Some e \<longrightarrow> cdist (length t) b (home e) \<le> x)"

definition probe_inv :: "('e \<Rightarrow> nat) \<Rightarrow> 'e option list \<Rightarrow> bool" where
  "probe_inv home t \<longleftrightarrow> tab_distinct t \<and>
     (\<forall>p < length t. \<forall>e. t ! p = Some e \<longrightarrow> reached home t p e) \<and>
     (None \<notin> set t \<longrightarrow> (\<exists>b < length t. anchored home t b))"

text \<open>The first slot from \<open>start\<close> on that is empty or whose entry is accepted.\<close>

fun tab_search :: "('e \<Rightarrow> bool) \<Rightarrow> 'e option list \<Rightarrow> nat \<Rightarrow> nat list \<Rightarrow> nat option" where
  "tab_search P t start [] = None"
| "tab_search P t start (i # is) =
     (case t ! slot (length t) start i of
        None \<Rightarrow> None
      | Some e \<Rightarrow> if P e then Some (slot (length t) start i) else tab_search P t start is)"

fun tab_insert :: "'e \<Rightarrow> 'e option list \<Rightarrow> nat \<Rightarrow> nat list \<Rightarrow> 'e option list" where
  "tab_insert e t start [] = t"
| "tab_insert e t start (i # is) =
     (if t ! slot (length t) start i = None then t[slot (length t) start i := Some e]
      else tab_insert e t start is)"

fun tab_shift ::
  "('e \<Rightarrow> nat) \<Rightarrow> 'e option list \<Rightarrow> nat \<Rightarrow> nat \<Rightarrow> nat list \<Rightarrow> 'e option list" where
  "tab_shift home t target gap [] = t[gap := None]"
| "tab_shift home t target gap (j # js) =
     (case t ! j of
        None \<Rightarrow> t[gap := None]
      | Some e \<Rightarrow>
          let move = cdist (length t) gap j \<le> cdist (length t) (home e) j;
              t' = (if move then t[gap := t ! j] else t);
              gap' = (if move then j else gap)
          in if j = target then t'[gap' := None] else tab_shift home t' target gap' js)"

lemma entriesI: "p < length t \<Longrightarrow> t ! p = Some e \<Longrightarrow> e \<in> entries t"
  unfolding entries_def using nth_mem [of p t] by simp

lemma entriesE:
  assumes "e \<in> entries t"
  obtains p where "p < length t" "t ! p = Some e"
  using assms by (auto simp: entries_def in_set_conv_nth)

lemma tab_distinctD:
  "tab_distinct t \<Longrightarrow> p < length t \<Longrightarrow> q < length t \<Longrightarrow> t ! p = Some e \<Longrightarrow> t ! q = Some e \<Longrightarrow> p = q"
  by (simp add: tab_distinct_def)

section \<open>Search\<close>

lemma tab_search_skip:
  "\<forall>i \<in> set is. t ! slot (length t) start i \<noteq> None \<and> (\<forall>e. t ! slot (length t) start i = Some e \<longrightarrow> \<not> P e) \<Longrightarrow>
   tab_search P t start (is @ js) = tab_search P t start js"
  by (induction "is") auto

lemma tab_search_none:
  "\<forall>e \<in> entries t. \<not> P e \<Longrightarrow> t \<noteq> [] \<Longrightarrow> tab_search P t start is = None"
  by (induction "is") (auto split: option.split dest!: entriesI [rotated] intro: slot_lt)

lemma upt_split: "d < n \<Longrightarrow> [0..<n] = [0..<d] @ d # [Suc d..<n]"
  using upt_add_eq_append [of 0 d "n - d"] by (simp add: upt_conv_Cons)

lemma tab_search_found:
  assumes inv: "probe_inv home t" and p: "p < length t" "t ! p = Some e" "home e < length t"
    and P: "\<And>e'. e' \<in> entries t \<Longrightarrow> P e' \<longleftrightarrow> e' = e"
  shows "tab_search P t (home e) [0..<length t] = Some p"
proof -
  let ?n = "length t" let ?d = "cdist ?n (home e) p"
  have d: "?d < ?n" "slot ?n (home e) ?d = p" using p cdist_lt [of ?n] slot_cdist [of "home e" ?n p] by (cases "0 < ?n"; simp)+
  have eP: "P e" using P [OF entriesI [OF p(1,2)]] by simp
  have skip: "t ! slot ?n (home e) i \<noteq> None \<and> (\<forall>e'. t ! slot ?n (home e) i = Some e' \<longrightarrow> \<not> P e')"
    if "i < ?d" for i
  proof -
    have s: "slot ?n (home e) i < ?n" using p(3) by (rule slot_less)
    have ne: "slot ?n (home e) i \<noteq> p"
      using that d p(3) slot_inj [of "home e" ?n i ?d] by simp
    have occ: "t ! slot ?n (home e) i \<noteq> None"
      using inv p that by (simp add: probe_inv_def reached_def)
    have "\<not> P e'" if e': "t ! slot ?n (home e) i = Some e'" for e'
    proof
      assume "P e'"
      then have "e' = e" using P [OF entriesI [OF s e']] by simp
      with e' inv s p ne show False by (auto simp: probe_inv_def dest: tab_distinctD)
    qed
    with occ show ?thesis by simp
  qed
  have "tab_search P t (home e) ([0..<?d] @ ?d # [Suc ?d..<?n]) = tab_search P t (home e) (?d # [Suc ?d..<?n])"
    by (rule tab_search_skip) (simp add: skip)
  then show ?thesis using d eP p(2) by (simp add: upt_split [OF d(1)])
qed

lemma upt_mid: "i \<le> m \<Longrightarrow> m < k \<Longrightarrow> [i..<k] = [i..<m] @ m # [Suc m..<k]"
  using upt_add_eq_append [of i m "k - m"] by (simp add: upt_conv_Cons)

section \<open>Insertion\<close>

lemma tab_insert_at:
  assumes "d < n" "t ! slot (length t) start d = None" "\<forall>i < d. t ! slot (length t) start i \<noteq> None"
  shows "tab_insert e t start [0..<n] = t[slot (length t) start d := Some e]"
proof -
  have "tab_insert e t start (is @ js) = tab_insert e t start js"
    if "\<forall>i \<in> set is. t ! slot (length t) start i \<noteq> None" for "is" js
    using that by (induction "is") auto
  then show ?thesis using assms by (simp add: upt_split [of d n])
qed

lemma first_empty:
  assumes "None \<in> set t" "start < length t"
  obtains d where "d < length t" "t ! slot (length t) start d = None"
    "\<forall>i < d. t ! slot (length t) start i \<noteq> None"
proof -
  obtain p where p: "p < length t" "t ! p = None" using assms(1) by (auto simp: in_set_conv_nth)
  then obtain x where x: "x < length t" "p = slot (length t) start x"
    using slots_exhaust [OF assms(2)] by blast
  let ?Q = "\<lambda>d. t ! slot (length t) start d = None"
  have "?Q (LEAST d. ?Q d)" "(LEAST d. ?Q d) \<le> x" using p x by (auto intro: LeastI Least_le)
  with x show thesis by (intro that [of "LEAST d. ?Q d"]) (auto dest: not_less_Least)
qed

lemma succ_slot_last: "p < n \<Longrightarrow> slot n (Suc p mod n) (n - 1) = p"
  by (cases "Suc p = n") (simp_all add: slot_eq)

text \<open>Relative to an empty slot no entry wraps around.\<close>

lemma no_wrap:
  assumes b: "b < length t" and emp: "t ! slot (length t) b (length t - 1) = None"
    and x: "x < length t - 1" "home e < length t" and r: "reached home t (slot (length t) b x) e"
  shows "cdist (length t) b (home e) \<le> x"
proof (rule ccontr)
  let ?n = "length t" let ?y = "cdist ?n b (home e)"
  assume "\<not> ?thesis"
  then have xy: "x < ?y" by simp
  have n: "0 < ?n" using b by linarith
  have y: "?y < ?n" "home e = slot ?n b ?y" using cdist_lt [OF n] slot_cdist [OF b x(2)] by auto
  have "cdist ?n (home e) (slot ?n b x) = x + ?n - ?y"
    using cdist_slot [OF b y(1), of x] x(1) y xy by simp
  moreover have "slot ?n (home e) (?n - 1 - ?y) = slot ?n b (?n - 1)"
    using slot_shift [OF b y(1), of "?n - 1 - ?y"] y by (simp add: slot_def)
  moreover have "?n - 1 - ?y < x + ?n - ?y" using y(1) by simp
  ultimately show False using r emp by (auto simp: reached_def)
qed

lemma reached_mono:
  assumes "reached home t p e" "\<And>q. t ! q \<noteq> None \<Longrightarrow> u ! q \<noteq> None" "length u = length t"
  shows "reached home u p e"
  using assms by (simp add: reached_def)

lemma tab_insert_inv:
  assumes inv: "probe_inv home t" and emp: "None \<in> set t" and new: "e \<notin> entries t"
    and homes: "\<forall>e \<in> entries t. home e < length t" "home e < length t"
  shows "probe_inv home (tab_insert e t (home e) [0..<length t])"
    "entries (tab_insert e t (home e) [0..<length t]) = insert e (entries t)"
proof -
  let ?n = "length t"
  obtain d where d: "d < ?n" "t ! slot ?n (home e) d = None" "\<forall>i < d. t ! slot ?n (home e) i \<noteq> None"
    by (rule first_empty [OF emp homes(2)])
  define p where "p = slot ?n (home e) d"
  define u where "u = t[p := Some e]"
  have p: "p < ?n" "t ! p = None" using d homes(2) by (simp_all add: p_def slot_less)
  have u: "tab_insert e t (home e) [0..<?n] = u" using tab_insert_at [OF d] by (simp add: u_def p_def)
  have at: "u ! q = (if q = p then Some e else t ! q)" for q using p by (simp add: u_def nth_list_update)
  have len: "length u = ?n" by (simp add: u_def)
  have ent: "entries u = insert e (entries t)"
  proof (intro equalityI subsetI)
    fix e' assume "e' \<in> entries u"
    then obtain q where "q < ?n" "u ! q = Some e'" by (rule entriesE) (simp add: len)
    then show "e' \<in> insert e (entries t)" by (cases "q = p") (auto simp: at intro: entriesI)
  next
    fix e' assume e': "e' \<in> insert e (entries t)"
    show "e' \<in> entries u"
    proof (cases "e' = e")
      case True
      then show ?thesis using p by (intro entriesI [of p]) (simp_all add: at len)
    next
      case False
      with e' obtain q where "q < ?n" "t ! q = Some e'" by (auto elim: entriesE)
      then show ?thesis using p by (intro entriesI [of q]) (auto simp: at len)
    qed
  qed
  have dist: "tab_distinct u"
    unfolding tab_distinct_def len
  proof (intro allI impI)
    fix q r assume "q < ?n" "r < ?n" "u ! q \<noteq> None" "u ! q = u ! r"
    then show "q = r" using inv new
      by (auto simp: at probe_inv_def tab_distinct_def split: if_splits dest: entriesI)
  qed
  have reach: "reached home u q e'" if q: "q < ?n" "u ! q = Some e'" for q e'
  proof (cases "q = p")
    case True
    then have "e' = e" using q by (simp add: at)
    have "cdist ?n (home e) p = d" unfolding p_def
      using cdist_slot [OF homes(2), of 0 d] d(1) homes(2) by (cases "t = []") (simp_all add: slot_def)
    with True \<open>e' = e\<close> d(3) show ?thesis by (simp add: reached_def len at)
  next
    case False
    then have "reached home t q e'" using q inv by (simp add: at probe_inv_def)
    then show ?thesis by (rule reached_mono) (auto simp: at len)
  qed
  have "\<exists>b < ?n. anchored home u b"
  proof (intro exI conjI)
    let ?b = "Suc p mod ?n"
    show b: "?b < ?n" using p(1) by (intro mod_less_divisor) linarith
    show "anchored home u ?b" unfolding anchored_def len
    proof (intro allI impI)
      fix x e' assume x: "x < ?n - 1" "u ! slot ?n ?b x = Some e'"
      have "slot ?n ?b x \<noteq> p" using slot_inj [OF b, of x "?n - 1"] x(1) succ_slot_last [OF p(1)] by simp
      then have t: "t ! slot ?n ?b x = Some e'" using x(2) by (simp add: at)
      have s: "slot ?n ?b x < ?n" using b by (rule slot_less)
      show "cdist ?n ?b (home e') \<le> x"
        using no_wrap [OF b _ x(1), of home e'] p succ_slot_last [OF p(1)] t s inv homes(1) entriesI [OF s t]
        by (simp add: probe_inv_def)
    qed
  qed
  then show "probe_inv home (tab_insert e t (home e) [0..<?n])"
    using dist reach by (simp add: u probe_inv_def len)
  show "entries (tab_insert e t (home e) [0..<?n]) = insert e (entries t)" by (simp add: u ent)
qed

section \<open>Backward-shift deletion\<close>

text \<open>
  Slots are counted from \<open>b\<close> on, so that the anchor has number \<open>length t - 1\<close>.  The slot number \<open>g\<close> is
  the gap, whose content no longer counts; \<open>j\<close> is the cursor.  Entries before the cursor are reached
  without crossing the gap.
\<close>

definition shifting :: "('e \<Rightarrow> nat) \<Rightarrow> nat \<Rightarrow> 'e option list \<Rightarrow> nat \<Rightarrow> nat \<Rightarrow> bool" where
  "shifting home b t g j \<longleftrightarrow>
     (\<forall>x < length t - 1. x \<noteq> g \<longrightarrow> (\<forall>e. t ! slot (length t) b x = Some e \<longrightarrow>
        cdist (length t) b (home e) \<le> x \<and>
        (\<forall>i. cdist (length t) b (home e) \<le> i \<longrightarrow> i < x \<longrightarrow> i \<noteq> g \<longrightarrow> t ! slot (length t) b i \<noteq> None) \<and>
        (x < j \<longrightarrow> g < cdist (length t) b (home e) \<or> x < g)))"

lemma shiftingD:
  assumes "shifting home b t g j" "x < length t - 1" "x \<noteq> g" "t ! slot (length t) b x = Some e"
  shows "cdist (length t) b (home e) \<le> x"
    "\<And>i. cdist (length t) b (home e) \<le> i \<Longrightarrow> i < x \<Longrightarrow> i \<noteq> g \<Longrightarrow> t ! slot (length t) b i \<noteq> None"
    "x < j \<Longrightarrow> g < cdist (length t) b (home e) \<or> x < g"
  using assms unfolding shifting_def by blast+

definition gone :: "'e option list \<Rightarrow> nat \<Rightarrow> 'e option list" where
  "gone t p = t[p := None]"

lemma gone_nth: "q < length t \<Longrightarrow> gone t p ! q = (if q = p then None else t ! q)"
  by (simp add: gone_def nth_list_update)

lemma length_gone [simp]: "length (gone t p) = length t"
  by (simp add: gone_def)

lemma move_entries:
  assumes "p < length t" "q < length t" "p \<noteq> q"
  shows "entries (gone (t[p := t ! q]) q) = entries (gone t p)"
proof (intro equalityI subsetI)
  fix e assume "e \<in> entries (gone (t[p := t ! q]) q)"
  then obtain r where r: "r < length t" "gone (t[p := t ! q]) q ! r = Some e" by (rule entriesE) simp
  show "e \<in> entries (gone t p)"
    by (rule entriesI [of "if r = p then q else r"])
      (use r assms in \<open>auto simp: gone_nth nth_list_update split: if_splits\<close>)
next
  fix e assume "e \<in> entries (gone t p)"
  then obtain r where r: "r < length t" "gone t p ! r = Some e" by (rule entriesE) simp
  show "e \<in> entries (gone (t[p := t ! q]) q)"
    by (rule entriesI [of "if r = q then p else r"])
      (use r assms in \<open>auto simp: gone_nth nth_list_update split: if_splits\<close>)
qed

lemma move_distinct:
  assumes "tab_distinct (gone t p)" "p < length t" "q < length t" "p \<noteq> q"
  shows "tab_distinct (gone (t[p := t ! q]) q)"
  unfolding tab_distinct_def
proof (intro allI impI)
  let ?u = "gone (t[p := t ! q]) q" and ?f = "\<lambda>r. if r = p then q else r"
  fix r s assume r: "r < length ?u" "s < length ?u" "?u ! r \<noteq> None" "?u ! r = ?u ! s"
  have eq: "gone t p ! ?f x = ?u ! x" if "x < length t" "?u ! x \<noteq> None" for x
    using that assms by (auto simp: gone_nth nth_list_update split: if_splits)
  have nq: "r \<noteq> q" "s \<noteq> q" using r by (auto simp: gone_nth)
  have "?f r < length t" "?f s < length t" using r assms by simp_all
  then have "?f r = ?f s" using assms(1) r eq unfolding tab_distinct_def by simp
  then show "r = s" using nq by (auto split: if_splits)
qed

lemma shift_move:
  assumes b: "b < length t" and sh: "shifting home b t g j"
    and j: "g < j" "j < length t - 1" and e: "t ! slot (length t) b j = Some e"
    and le: "cdist (length t) b (home e) \<le> g"
  shows "shifting home b (t[slot (length t) b g := t ! slot (length t) b j]) j (Suc j)"
proof -
  let ?n = "length t" let ?S = "slot ?n b"
  let ?u = "t[?S g := t ! ?S j]"
  have at: "?u ! ?S x = (if x = g then Some e else t ! ?S x)" if "x < ?n" for x
    using that j e slot_inj [OF b, of g x] slot_less [OF b, of g] by (simp add: nth_list_update)
  note D = shiftingD [OF sh]
  have occ: "\<And>i. cdist ?n b (home e) \<le> i \<Longrightarrow> i < g \<Longrightarrow> t ! ?S i \<noteq> None"
    using D(2) [OF j(2) _ e] j(1) by auto
  show ?thesis unfolding shifting_def length_list_update
  proof (intro allI impI)
    fix x e' assume x: "x < ?n - 1" "x \<noteq> j" "?u ! ?S x = Some e'"
    let ?y = "cdist ?n b (home e')"
    show "?y \<le> x \<and> (\<forall>i\<ge>?y. i < x \<longrightarrow> i \<noteq> j \<longrightarrow> ?u ! ?S i \<noteq> None) \<and> (x < Suc j \<longrightarrow> j < ?y \<or> x < j)"
    proof (cases "x = g")
      case True
      then have "e' = e" using x by (simp add: at)
      with True le occ j x show ?thesis by (auto simp: at)
    next
      case False
      then have t: "t ! ?S x = Some e'" using x by (simp add: at)
      have "\<forall>i\<ge>?y. i < x \<longrightarrow> i \<noteq> j \<longrightarrow> ?u ! ?S i \<noteq> None"
        using D(2) [OF x(1) False t] x(1) by (auto simp: at)
      then show ?thesis using D(1) [OF x(1) False t] x(2) by auto
    qed
  qed
qed

lemma shift_stay:
  assumes sh: "shifting home b t g j" and j: "g < j"
    and stay: "\<And>e. t ! slot (length t) b j = Some e \<Longrightarrow> g < cdist (length t) b (home e)"
  shows "shifting home b t g (Suc j)"
  unfolding shifting_def
proof (intro allI impI)
  fix x e assume x: "x < length t - 1" "x \<noteq> g" "t ! slot (length t) b x = Some e"
  show "cdist (length t) b (home e) \<le> x \<and>
    (\<forall>i\<ge>cdist (length t) b (home e). i < x \<longrightarrow> i \<noteq> g \<longrightarrow> t ! slot (length t) b i \<noteq> None) \<and>
    (x < Suc j \<longrightarrow> g < cdist (length t) b (home e) \<or> x < g)"
    using shiftingD [OF sh x] stay x by (auto simp: less_Suc_eq)
qed

lemma move_iff:
  assumes b: "b < n" and hm: "home < n" and gj: "g < j" "j < n"
  shows "cdist n (slot n b g) (slot n b j) \<le> cdist n home (slot n b j) \<longleftrightarrow>
    cdist n b home \<le> g \<or> j < cdist n b home"
proof -
  have "cdist n b home < n" "home = slot n b (cdist n b home)"
    by (rule home_slot [OF b hm])+
  then obtain y where y: "y < n" "home = slot n b y" "cdist n b home = y" by blast
  then show ?thesis using cdist_slot [OF b, of g j] cdist_slot [OF b, of y j] gj by auto
qed

text \<open>The first leg of the scan, up to the anchor.\<close>

lemma shift_to_anchor:
  assumes "b < length t" "shifting home b t g j" "T \<le> g" "g < j" "j \<le> length t - 1"
    and "\<forall>e \<in> entries t. home e < length t"
    and "\<forall>x. T \<le> x \<longrightarrow> x < length t - 1 \<longrightarrow> t ! slot (length t) b x \<noteq> None"
    and "tab_distinct (gone t (slot (length t) b g))"
  shows "\<exists>u g'.
    tab_shift home t (slot (length t) b T) (slot (length t) b g) (map (slot (length t) b) ([j..<length t - 1] @ js)) =
      tab_shift home u (slot (length t) b T) (slot (length t) b g') (map (slot (length t) b) js) \<and>
    shifting home b u g' (length t - 1) \<and> T \<le> g' \<and> g' < length t - 1 \<and> length u = length t \<and>
    entries (gone u (slot (length t) b g')) = entries (gone t (slot (length t) b g)) \<and>
    tab_distinct (gone u (slot (length t) b g')) \<and> entries u \<subseteq> entries t \<and>
    (\<forall>x. x < T \<or> x = length t - 1 \<longrightarrow> u ! slot (length t) b x = t ! slot (length t) b x) \<and>
    (\<forall>x. T \<le> x \<longrightarrow> x < length t - 1 \<longrightarrow> u ! slot (length t) b x \<noteq> None)"
  using assms
proof (induction "length t - 1 - j" arbitrary: t g j)
  case 0
  then have "j = length t - 1" by simp
  with 0 show ?case by (intro exI [of _ t] exI [of _ g]) auto
next
  case (Suc m)
  let ?n = "length t" let ?S = "slot ?n b"
  note b = Suc.prems(1) and sh = Suc.prems(2) and gj = Suc.prems(4)
  have j: "j < ?n - 1" using Suc.hyps(2) by simp
  obtain e where e: "t ! ?S j = Some e" using Suc.prems(3,4,7) j by (meson le_trans less_imp_le_nat not_None_eq)
  have ent: "e \<in> entries t" using e slot_less [OF b] by (rule entriesI [rotated])
  have he: "home e < ?n" using Suc.prems(6) ent by blast
  have ye: "cdist ?n b (home e) \<le> j" using shiftingD(1) [OF sh j _ e] gj by simp
  have ne: "?S g \<noteq> ?S j" "?S j \<noteq> ?S T" using slot_inj [OF b, of g j] slot_inj [OF b, of j T] gj j Suc.prems(3) by auto
  have upt: "[j..<?n - 1] = j # [Suc j..<?n - 1]" using j by (simp add: upt_conv_Cons)
  have mv: "cdist ?n (?S g) (?S j) \<le> cdist ?n (home e) (?S j) \<longleftrightarrow> cdist ?n b (home e) \<le> g"
    using move_iff [OF b he gj] j ye by simp
  show ?case
  proof (cases "cdist ?n b (home e) \<le> g")
    case True
    define v where "v = t[?S g := t ! ?S j]"
    have len: "length v = ?n" by (simp add: v_def)
    have at: "v ! ?S x = (if x = g then Some e else t ! ?S x)" if "x < ?n" for x
      using that j gj e slot_inj [OF b, of g x] slot_less [OF b, of g] by (simp add: v_def nth_list_update)
    have sub: "entries v \<subseteq> entries t"
      using ent e set_update_subset_insert [of t "?S g" "t ! ?S j"] by (auto simp: v_def entries_def)
    have d: "tab_distinct (gone v (?S j))" "entries (gone v (?S j)) = entries (gone t (?S g))"
      unfolding v_def
      by (rule move_distinct [OF Suc.prems(8) slot_less [OF b] slot_less [OF b] ne(1)],
          rule move_entries [OF slot_less [OF b] slot_less [OF b] ne(1)])
    have eqn: "tab_shift home t (?S T) (?S g) (map ?S ([j..<?n - 1] @ js)) =
        tab_shift home v (?S T) (?S j) (map ?S ([Suc j..<?n - 1] @ js))"
      unfolding upt using e True mv ne(2) by (simp add: v_def)
    have IH: "\<exists>u g'. tab_shift home v (?S T) (?S j) (map ?S ([Suc j..<?n - 1] @ js)) =
      tab_shift home u (?S T) (?S g') (map ?S js) \<and>
      shifting home b u g' (?n - 1) \<and> T \<le> g' \<and> g' < ?n - 1 \<and> length u = ?n \<and>
      entries (gone u (?S g')) = entries (gone v (?S j)) \<and>
      tab_distinct (gone u (?S g')) \<and> entries u \<subseteq> entries v \<and>
      (\<forall>x. x < T \<or> x = ?n - 1 \<longrightarrow> u ! ?S x = v ! ?S x) \<and>
      (\<forall>x. T \<le> x \<longrightarrow> x < ?n - 1 \<longrightarrow> u ! ?S x \<noteq> None)"
    proof (rule Suc.hyps(1) [of v "Suc j" j, unfolded len])
      show "m = ?n - 1 - Suc j" using Suc.hyps(2) by simp
      show "shifting home b v j (Suc j)" unfolding v_def by (rule shift_move [OF b sh gj j e True])
      show "\<forall>e\<in>entries v. home e < ?n" using sub Suc.prems(6) by blast
      show "\<forall>x\<ge>T. x < ?n - 1 \<longrightarrow> v ! ?S x \<noteq> None" using Suc.prems(7) by (auto simp: at)
    qed (use b j gj Suc.prems(3) d in auto)
    have same: "\<forall>x. x < T \<or> x = ?n - 1 \<longrightarrow> v ! ?S x = t ! ?S x"
      using Suc.prems(3) gj j by (auto simp: at)
    show ?thesis unfolding eqn using IH d(2) sub same by (elim exE conjE) (intro exI conjI; auto)
  next
    case False
    have eqn: "tab_shift home t (?S T) (?S g) (map ?S ([j..<?n - 1] @ js)) =
        tab_shift home t (?S T) (?S g) (map ?S ([Suc j..<?n - 1] @ js))"
      unfolding upt using e False mv ne(2) by simp
    have stay: "shifting home b t g (Suc j)" using shift_stay [OF sh gj] e False by simp
    show ?thesis unfolding eqn
      by (rule Suc.hyps(1)) (use Suc.hyps(2) Suc.prems stay j in auto)
  qed
qed

text \<open>The second leg, from the anchor around to the start, moves nothing.\<close>

lemma shift_around:
  assumes b: "b < length t" and g: "T \<le> g" "g < length t"
    and homes: "\<forall>e \<in> entries t. home e < length t"
    and before: "\<forall>x < T. \<exists>e. t ! slot (length t) b x = Some e \<and> cdist (length t) b (home e) \<le> x"
    and at: "\<exists>e. t ! slot (length t) b T = Some e \<and> (T < g \<longrightarrow> cdist (length t) b (home e) \<le> T)"
    and j: "j \<le> T"
  shows "tab_shift home t (slot (length t) b T) (slot (length t) b g) (map (slot (length t) b) [j..<Suc T])
    = gone t (slot (length t) b g)"
  using j
proof (induction "T - j" arbitrary: j)
  case 0
  let ?n = "length t" let ?S = "slot ?n b"
  obtain e where e: "t ! ?S T = Some e" "T < g \<Longrightarrow> cdist ?n b (home e) \<le> T" using at by blast
  have he: "home e < ?n" using homes entriesI [OF slot_less [OF b] e(1)] by blast
  define y where "y = cdist ?n b (home e)"
  have y: "y < ?n" "home e = ?S y" unfolding y_def by (rule home_slot [OF b he])+
  have "\<not> cdist ?n (?S g) (?S T) \<le> cdist ?n (home e) (?S T)" if "T < g"
    using e(2) [OF that, folded y_def] that g y cdist_slot [OF b g(2), of T] cdist_slot [OF b y(1), of T] by simp
  then show ?case using 0 e(1) g by (cases "T < g") (auto simp: gone_def Let_def)
next
  case (Suc m)
  let ?n = "length t" let ?S = "slot ?n b"
  have j: "j < T" using Suc.hyps(2) by simp
  then obtain e where e: "t ! ?S j = Some e" "cdist ?n b (home e) \<le> j" using before by blast
  have he: "home e < ?n" using homes entriesI [OF slot_less [OF b] e(1)] by blast
  define y where "y = cdist ?n b (home e)"
  have y: "y < ?n" "home e = ?S y" unfolding y_def by (rule home_slot [OF b he])+
  have "\<not> cdist ?n (?S g) (?S j) \<le> cdist ?n (home e) (?S j)"
    using e(2) [folded y_def] j g y cdist_slot [OF b g(2), of j] cdist_slot [OF b y(1), of j] by simp
  moreover have "?S j \<noteq> ?S T" using slot_inj [OF b, of j T] j g by simp
  moreover have "[j..<Suc T] = j # [Suc j..<Suc T]" using j by (simp add: upt_conv_Cons)
  ultimately show ?case using e(1) Suc.hyps j by (simp add: Let_def del: upt_Suc)
qed

lemma reached_lin:
  assumes b: "b < length t" and x: "x < length t" and h: "home e < length t"
    and le: "cdist (length t) b (home e) \<le> x"
    and occ: "\<And>i. cdist (length t) b (home e) \<le> i \<Longrightarrow> i < x \<Longrightarrow> t ! slot (length t) b i \<noteq> None"
  shows "reached home t (slot (length t) b x) e"
proof -
  let ?n = "length t"
  define y where "y = cdist ?n b (home e)"
  have y: "y < ?n" "home e = slot ?n b y" unfolding y_def by (rule home_slot [OF b h])+
  have d: "cdist ?n (home e) (slot ?n b x) = x - y"
    using cdist_slot [OF b y(1) x] le [folded y_def] y(2) by simp
  have "slot ?n (home e) i = slot ?n b (y + i)" for i
    using slot_shift [OF b y(1), of i] by (subst y(2)) (simp add: slot_def)
  then show ?thesis using occ by (simp add: reached_def d y_def)
qed

text \<open>A table in which the gap separates no entry from its home.\<close>

lemma shifting_done:
  assumes b: "b < length t" and g: "g < length t" and sh: "shifting home b t g (length t - 1)"
    and homes: "\<forall>e \<in> entries (gone t (slot (length t) b g)). home e < length t"
    and dist: "tab_distinct (gone t (slot (length t) b g))"
    and last: "\<And>e. g \<noteq> length t - 1 \<Longrightarrow> t ! slot (length t) b (length t - 1) = Some e \<Longrightarrow>
      g < cdist (length t) b (home e) \<and> None \<notin> set t"
  shows "probe_inv home (gone t (slot (length t) b g))"
proof -
  let ?n = "length t" let ?S = "slot ?n b" let ?u = "gone t (?S g)"
  have n: "0 < ?n" using b by linarith
  have at: "?u ! ?S x = (if x = g then None else t ! ?S x)" if "x < ?n" for x
    using slot_inj [OF b that g] slot_less [OF b, of x] by (simp add: gone_nth)
  have "reached home ?u p e" if p: "p < ?n" "?u ! p = Some e" for p e
  proof -
    obtain x where x: "x < ?n" "p = ?S x" using slots_exhaust [OF b p(1)] by blast
    have xg: "x \<noteq> g" "t ! ?S x = Some e" using p x at [OF x(1)] by (auto split: if_splits)
    have he: "home e < ?n" using homes entriesI [of p ?u e] p by simp
    have "cdist ?n b (home e) \<le> x \<and> (\<forall>i. cdist ?n b (home e) \<le> i \<longrightarrow> i < x \<longrightarrow> ?u ! ?S i \<noteq> None)"
    proof (cases "x < ?n - 1")
      case True
      note D = shiftingD [OF sh True xg]
      have "?u ! ?S i \<noteq> None" if i: "cdist ?n b (home e) \<le> i" "i < x" for i
      proof -
        have "i \<noteq> g" using D(3) [OF True] i by auto
        then show ?thesis using D(2) [OF i] at [of i] i x by simp
      qed
      with D(1) show ?thesis by blast
    next
      case False
      then have "x = ?n - 1" using x by simp
      then have L: "g < cdist ?n b (home e)" "None \<notin> set t" using last xg by auto
      have "?u ! ?S i \<noteq> None" if i: "cdist ?n b (home e) \<le> i" "i < x" for i
      proof -
        have "t ! ?S i \<noteq> None" using L(2) nth_mem [OF slot_less [OF b, of i]] by metis
        then show ?thesis using L(1) at [of i] i x by simp
      qed
      then show ?thesis using home_slot(1) [OF b he] \<open>x = ?n - 1\<close> by auto
    qed
    then show ?thesis using reached_lin [of b ?u x home e] b x he by simp
  qed
  moreover have "None \<in> set ?u"
    using at [OF g] slot_less [OF b, of g] nth_mem [of "?S g" ?u] by simp
  ultimately show ?thesis using dist by (simp add: probe_inv_def)
qed

lemma gone_entries:
  assumes "tab_distinct t" "p < length t" "t ! p = Some e"
  shows "entries (gone t p) = entries t - {e}" "tab_distinct (gone t p)"
proof -
  have at: "\<And>q. q < length t \<Longrightarrow> gone t p ! q = (if q = p then None else t ! q)" by (rule gone_nth)
  show "entries (gone t p) = entries t - {e}"
  proof (intro equalityI subsetI)
    fix e' assume "e' \<in> entries (gone t p)"
    then obtain q where "q < length t" "gone t p ! q = Some e'" by (rule entriesE) simp
    then show "e' \<in> entries t - {e}" using assms by (auto simp: at intro: entriesI dest: tab_distinctD split: if_splits)
  next
    fix e' assume "e' \<in> entries t - {e}"
    then obtain q where q: "q < length t" "t ! q = Some e'" "e' \<noteq> e" by (auto elim: entriesE)
    then show "e' \<in> entries (gone t p)" using assms by (intro entriesI [of q]) (auto simp: at)
  qed
  show "tab_distinct (gone t p)"
    using assms(1) by (auto simp: tab_distinct_def at split: if_splits)
qed

text \<open>
  Where the scan starts: an anchor behind the target such that the slots between them are occupied,
  relative to which no other entry wraps, and which is empty unless the table is full.
\<close>

lemma anchor_exists:
  assumes inv: "probe_inv home t" and p: "p < length t" "t ! p = Some e"
    and homes: "\<forall>e \<in> entries t. home e < length t"
  obtains b T where "b < length t" "T < length t" "p = slot (length t) b T"
    "\<And>x e. x < length t - 1 \<Longrightarrow> t ! slot (length t) b x = Some e \<Longrightarrow> cdist (length t) b (home e) \<le> x"
    "\<And>x. T \<le> x \<Longrightarrow> x < length t - 1 \<Longrightarrow> t ! slot (length t) b x \<noteq> None"
    "t ! slot (length t) b (length t - 1) = None \<and> T < length t - 1 \<or> None \<notin> set t"
proof (cases "None \<in> set t")
  case False
  then obtain b where b: "b < length t" "anchored home t b" using inv by (auto simp: probe_inv_def)
  have occ: "t ! slot (length t) b x \<noteq> None" for x
    using False nth_mem [OF slot_less [OF b(1), of x]] by metis
  show thesis
    by (rule that [OF b(1) home_slot [OF b(1) p(1)]]) (use b(2) occ False in \<open>auto simp: anchored_def\<close>)
next
  case True
  let ?n = "length t"
  obtain d where d: "d < ?n" "t ! slot ?n p d = None" "\<forall>i < d. t ! slot ?n p i \<noteq> None"
    by (rule first_empty [OF True p(1)])
  have d0: "0 < d" using d p by (cases d) (auto simp: slot_def)
  define b where "b = Suc (slot ?n p d) mod ?n"
  have n: "0 < ?n" using p by linarith
  have b: "b < ?n" using n by (simp add: b_def)
  have lastb: "slot ?n b (?n - 1) = slot ?n p d" unfolding b_def using succ_slot_last slot_less [OF p(1)] by blast
  have pT: "p = slot ?n b (?n - 1 - d)"
  proof -
    obtain T where T: "T < ?n" "p = slot ?n b T" using home_slot [OF b p(1)] by blast
    have "slot ?n b (T + d) = slot ?n b (?n - 1)"
      using slot_shift [OF b T(1), of d] lastb T(2) by (simp add: slot_def)
    moreover have "slot ?n b (T + d) = slot ?n b (T + d - ?n)" if "?n \<le> T + d"
      using slot_wrap [of ?n b "T + d - ?n"] that by simp
    ultimately have "T + d = ?n - 1 \<or> T + d - ?n = ?n - 1"
      using slot_inj [OF b, of "T + d" "?n - 1"] slot_inj [OF b, of "T + d - ?n" "?n - 1"] T d n
      by (cases "?n \<le> T + d") auto
    then have "T = ?n - 1 - d" using T(1) d(1) n by arith
    with T(2) show ?thesis by simp
  qed
  have occ: "t ! slot ?n b x \<noteq> None" if "?n - 1 - d \<le> x" "x < ?n - 1" for x
  proof -
    have "slot ?n p (x - (?n - 1 - d)) = slot ?n b x"
      using slot_shift [OF b, of "?n - 1 - d" "x - (?n - 1 - d)"] that n pT by (simp add: slot_def)
    moreover have "x - (?n - 1 - d) < d" using that d by linarith
    ultimately show ?thesis using d(3) by metis
  qed
  have low: "cdist ?n b (home e) \<le> x" if "x < ?n - 1" "t ! slot ?n b x = Some e" for x e
    using no_wrap [OF b _ that(1), of home e] d(2) lastb that inv homes slot_less [OF b, of x]
      entriesI [OF slot_less [OF b] that(2)] by (simp add: probe_inv_def)
  show thesis
    by (rule that [OF b _ pT]) (use low occ n d d0 lastb in auto)
qed

lemma shifting_less: "shifting home b t g j \<Longrightarrow> j' \<le> j \<Longrightarrow> shifting home b t g j'"
  unfolding shifting_def by (meson less_le_trans)

theorem tab_shift_inv:
  assumes inv: "probe_inv home t" and p: "p < length t" "t ! p = Some e"
    and homes: "\<forall>e \<in> entries t. home e < length t"
  defines "u \<equiv> tab_shift home t p p (map (slot (length t) p) [1..<Suc (length t)])"
  shows "probe_inv home u" "entries u = entries t - {e}"
proof -
  let ?n = "length t"
  obtain b T where b: "b < ?n" and T: "T < ?n" "p = slot ?n b T"
    and low: "\<And>x e. x < ?n - 1 \<Longrightarrow> t ! slot ?n b x = Some e \<Longrightarrow> cdist ?n b (home e) \<le> x"
    and occ: "\<And>x. T \<le> x \<Longrightarrow> x < ?n - 1 \<Longrightarrow> t ! slot ?n b x \<noteq> None"
    and anchor: "t ! slot ?n b (?n - 1) = None \<and> T < ?n - 1 \<or> None \<notin> set t"
    by (rule anchor_exists [OF inv p homes]) blast
  let ?S = "slot ?n b"
  have n: "0 < ?n" using b by linarith
  have dist: "tab_distinct t" using inv by (simp add: probe_inv_def)
  have full: "None \<notin> set t \<Longrightarrow> t ! ?S x \<noteq> None" for x
    using nth_mem [OF slot_less [OF b, of x]] by metis
  have "map (slot ?n p) [1..<Suc ?n] = map (\<lambda>i. ?S (T + i)) [1..<Suc ?n]"
    using T slot_shift [OF b T(1)] by (simp add: slot_def del: upt_Suc)
  also have "\<dots> = map ?S [Suc T..<Suc T + ?n]"
    by (rule nth_equalityI) (simp_all del: upt_Suc add: nth_append)
  finally have cursors: "map (slot ?n p) [1..<Suc ?n] = map ?S [Suc T..<Suc T + ?n]" .
  have sh0: "shifting home b t T (Suc T)"
    unfolding shifting_def
  proof (intro allI impI conjI)
    fix x e assume x: "x < ?n - 1" "x \<noteq> T" "t ! ?S x = Some e"
    show le: "cdist ?n b (home e) \<le> x" by (rule low [OF x(1,3)])
    have he: "home e < ?n" using homes entriesI [OF slot_less [OF b] x(3)] by blast
    define y where "y = cdist ?n b (home e)"
    have y: "y < ?n" "home e = ?S y" unfolding y_def by (rule home_slot [OF b he])+
    have r: "reached home t (?S x) e" using inv x(3) slot_less [OF b] by (simp add: probe_inv_def)
    have d: "cdist ?n (home e) (?S x) = x - y"
      using cdist_slot [OF b y(1), of x] x(1) le [folded y_def] y(2) by simp
    show "t ! ?S i \<noteq> None" if "cdist ?n b (home e) \<le> i" "i < x" for i
    proof -
      have i: "y \<le> i" "i - y < x - y" using that by (auto simp: y_def)
      moreover have "slot ?n (home e) (i - y) = ?S i"
        using slot_shift [OF b y(1), of "i - y"] y(2) i by (simp add: slot_def)
      ultimately show ?thesis using r unfolding reached_def d by metis
    qed
    show "T < cdist ?n b (home e) \<or> x < T" if "x < Suc T" using that x(2) by simp
  qed
  have around: "map ?S [?n..<Suc T + ?n] = map ?S [0..<Suc T]"
    by (rule nth_equalityI) (simp_all del: upt_Suc add: slot_wrap add.commute [of ?n])
  have "\<exists>v g. u = gone v (?S g) \<and> length v = ?n \<and> g < ?n \<and> shifting home b v g (?n - 1) \<and>
    entries (gone v (?S g)) = entries t - {e} \<and> tab_distinct (gone v (?S g)) \<and>
    (\<forall>e. g \<noteq> ?n - 1 \<longrightarrow> v ! ?S (?n - 1) = Some e \<longrightarrow> g < cdist ?n b (home e) \<and> None \<notin> set v)"
  proof (cases "T < ?n - 1")
    case False
    then have Tn: "T = ?n - 1" "None \<notin> set t" using T anchor by auto
    have "[Suc T..<Suc T + ?n] = [?n..<Suc T + ?n]" using Tn n by simp
    then have "u = tab_shift home t (?S T) (?S T) (map ?S [0..<Suc T])"
      unfolding u_def cursors using around T(2) by simp
    also have "\<dots> = gone t (?S T)"
    proof (rule shift_around [OF b order_refl T(1) homes])
      show "\<forall>x<T. \<exists>e. t ! ?S x = Some e \<and> cdist ?n b (home e) \<le> x"
        using full [OF Tn(2)] low Tn(1) by blast
      show "\<exists>e. t ! ?S T = Some e \<and> (T < T \<longrightarrow> cdist ?n b (home e) \<le> T)" using full [OF Tn(2)] by blast
    qed simp
    finally have "u = gone t (?S T)" .
    then show ?thesis
      using gone_entries [OF dist p] T shifting_less [OF sh0, of "?n - 1"] Tn(1)
      by (intro exI [of _ t] exI [of _ T]) auto
  next
    case True
    have upt: "[Suc T..<Suc T + ?n] = [Suc T..<?n - 1] @ (?n - 1) # [?n..<Suc T + ?n]"
      using upt_mid [of "Suc T" "?n - 1" "Suc T + ?n"] True Suc_diff_1 [OF n] by (simp del: upt_Suc)
    define js where "js = (?n - 1) # [?n..<Suc T + ?n]"
    have occ': "\<forall>x\<ge>T. x < ?n - 1 \<longrightarrow> t ! ?S x \<noteq> None" using occ by blast
    have dist': "tab_distinct (gone t (?S T))" using gone_entries(2) [OF dist p] T(2) by simp
    have u_js: "u = tab_shift home t (?S T) (?S T) (map ?S ([Suc T..<?n - 1] @ js))"
      unfolding u_def cursors upt js_def using T(2) by simp
    have "Suc T \<le> ?n - 1" using True by simp
    from shift_to_anchor [OF b sh0 order_refl lessI this homes occ' dist', of js, folded u_js]
    obtain v g where
      v: "u = tab_shift home v (?S T) (?S g) (map ?S js)"
        "shifting home b v g (?n - 1)" "T \<le> g" "g < ?n - 1" "length v = ?n"
        "entries (gone v (?S g)) = entries (gone t (?S T))" "tab_distinct (gone v (?S g))"
        "entries v \<subseteq> entries t" "\<And>x. x < T \<or> x = ?n - 1 \<Longrightarrow> v ! ?S x = t ! ?S x"
        "\<And>x. T \<le> x \<Longrightarrow> x < ?n - 1 \<Longrightarrow> v ! ?S x \<noteq> None"
      by blast
    note v_eq = v(1) [unfolded js_def list.map around]
    have ent: "entries (gone v (?S g)) = entries t - {e}"
      using v(6) gone_entries(1) [OF dist p] T(2) by simp
    show ?thesis
    proof (cases "t ! ?S (?n - 1)")
      case None
      then have "u = gone v (?S g)" unfolding v_eq using v(9) [of "?n - 1"] by (simp add: gone_def)
      then show ?thesis using v ent None by (intro exI [of _ v] exI [of _ g]) auto
    next
      case (Some l)
      then have nN: "None \<notin> set t" using anchor by auto
      have hl: "home l < ?n" using homes entriesI [OF slot_less [OF b] Some] by blast
      have ne: "?S (?n - 1) \<noteq> ?S T" "?S g \<noteq> ?S (?n - 1)"
        using slot_inj [OF b, of "?n - 1" T] slot_inj [OF b, of g "?n - 1"] T(1) True v(4) n by auto
      have vl: "v ! ?S (?n - 1) = Some l" using Some v(9) by simp
      have mv: "cdist ?n (?S g) (?S (?n - 1)) \<le> cdist ?n (home l) (?S (?n - 1)) \<longleftrightarrow> cdist ?n b (home l) \<le> g"
        using move_iff [OF b hl v(4)] home_slot(1) [OF b hl] n by auto
      have vocc: "v ! ?S x \<noteq> None" if "x < ?n" for x
        using that v(9) [of x] v(10) [of x] full [OF nN, of x] by (cases "x < T"; cases "x = ?n - 1") auto
      have vD: "\<And>x. x < ?n - 1 \<Longrightarrow> x \<noteq> g \<Longrightarrow> \<exists>e. v ! ?S x = Some e \<and> cdist ?n b (home e) \<le> x"
        using shiftingD(1) [OF v(2), unfolded v(5)] vocc by (meson less_imp_diff_less less_le_trans diff_le_self not_None_eq)
      show ?thesis
      proof (cases "cdist ?n b (home l) \<le> g")
        case True
        define w where "w = v[?S g := v ! ?S (?n - 1)]"
        have len: "length w = ?n" by (simp add: w_def v(5))
        have at: "w ! ?S x = (if x = g then Some l else v ! ?S x)" if "x < ?n" for x
          using that v(4,5) vl slot_inj [OF b, of g x] slot_less [OF b, of g] by (simp add: w_def nth_list_update)
        have wD: "\<exists>e. w ! ?S x = Some e \<and> cdist ?n b (home e) \<le> x" if "x < ?n - 1" for x
          using that True vD [OF that] at [of x] by (cases "x = g") auto
        have sub: "entries w \<subseteq> entries t"
          using v(8) vl entriesI [OF slot_less [OF b] Some] set_update_subset_insert [of v "?S g" "Some l"]
          by (auto simp: w_def entries_def)
        have "u = tab_shift home w (?S T) (?S (?n - 1)) (map ?S [0..<Suc T])"
          unfolding v_eq using vl mv True ne by (simp add: w_def v(5) del: upt_Suc)
        also have "\<dots> = gone w (?S (?n - 1))"
          using wD T(1) \<open>T < ?n - 1\<close> sub homes
          by (intro shift_around [of b w T "?n - 1" home 0, unfolded len] b) auto
        finally have "u = gone w (?S (?n - 1))" .
        moreover have "shifting home b w (?n - 1) (?n - 1)"
          unfolding shifting_def len
        proof (intro allI impI conjI)
          fix x e assume x: "x < ?n - 1" "w ! ?S x = Some e"
          show "cdist ?n b (home e) \<le> x" using wD [OF x(1)] x(2) by auto
          show "w ! ?S i \<noteq> None" if "i < x" for i using wD [of i] that x(1) by auto
        qed simp
        moreover have "entries (gone w (?S (?n - 1))) = entries t - {e}"
          unfolding w_def ent [symmetric] using move_entries [of "?S g" v "?S (?n - 1)"] ne v(5) slot_less [OF b] by simp
        moreover have "tab_distinct (gone w (?S (?n - 1)))"
          unfolding w_def using move_distinct [OF v(7), of "?S (?n - 1)"] ne v(5) slot_less [OF b] by simp
        ultimately show ?thesis using len n by (intro exI [of _ w] exI [of _ "?n - 1"]) simp
      next
        case False
        have "u = tab_shift home v (?S T) (?S g) (map ?S [0..<Suc T])"
          unfolding v_eq using vl mv False ne by (simp add: v(5) del: upt_Suc)
        also have "\<dots> = gone v (?S g)"
          using vD vD [of T] vocc T(1) v(3,4,8) \<open>T < ?n - 1\<close> homes
          by (intro shift_around [of b v T g home 0, unfolded v(5)] b; cases "T < g") (auto simp: subset_iff)
        finally have "u = gone v (?S g)" .
        moreover have "None \<notin> set v"
        proof
          assume "None \<in> set v"
          then obtain q where "q < ?n" "v ! q = None" using v(5) by (auto simp: in_set_conv_nth)
          then show False using slots_exhaust [OF b] vocc by metis
        qed
        ultimately show ?thesis using v(2,4,5,7) ent False vl by (intro exI [of _ v] exI [of _ g]) auto
      qed
    qed
  qed
  then obtain v g where v: "u = gone v (?S g)" "length v = ?n" "g < ?n" "shifting home b v g (?n - 1)"
    "entries (gone v (?S g)) = entries t - {e}" "tab_distinct (gone v (?S g))"
    "\<And>e. g \<noteq> ?n - 1 \<Longrightarrow> v ! ?S (?n - 1) = Some e \<Longrightarrow> g < cdist ?n b (home e) \<and> None \<notin> set v"
    by blast
  show "entries u = entries t - {e}" using v by simp
  show "probe_inv home u" unfolding v(1)
    by (rule shifting_done [of b v g home, unfolded v(2)]) (use v b homes in auto)
qed

end
