(* ===== verification/Image_Index.thy ===== *)
theory Image_Index
  imports Prelude Linear_Probing
begin

text \<open>
  The receiver's image table and its hash index, the first part of
  \<^verbatim>\<open>src/src/agent/receiver.rs\<close>: \<open>image_hash\<close>, \<open>find_image_in_index\<close>, \<open>insert_image_index\<close> and
  \<open>remove_image_index\<close>.  A \<open>for\<close> loop over probes is a recursion over the list of probe numbers;
  the cursor of the deletion loop takes at most \<open>MAX_IMAGES\<close> values before it is back at the target.
  An array access out of range is \<open>None\<close>.

  The locale \<open>keyed_index\<close> is what the receiver relies on; it is interpreted on these definitions,
  and the correctness of the probing itself comes from \<open>Linear_Probing\<close>.
\<close>

unbundle bit_operations_syntax

section \<open>The table\<close>

definition MAX_IMAGES :: nat where "MAX_IMAGES = 256"
definition IMAGE_INDEX_MASK :: nat where "IMAGE_INDEX_MASK = MAX_IMAGES - 1"
definition IMAGE_INDEX_EMPTY :: u16 where "IMAGE_INDEX_EMPTY = 0xFFFF"

record image_entry =
  ie_session_id :: i32
  ie_stream_id :: i32
  ie_endpoint_idx :: nat
  ie_source_addr :: sockaddr_storage
  ie_initial_term_id :: i32
  ie_active_term_id :: i32
  ie_term_length :: nat
  ie_consumption_term_id :: i32
  ie_consumption_term_offset :: i32
  ie_receiver_window :: i32
  ie_receiver_id :: i64
  ie_expected_term_offset :: i32
  ie_time_of_last_sm_ns :: i64
  ie_time_of_last_nak_ns :: i64
  ie_sm_pending :: bool
  ie_active :: bool

definition image_entry_default :: image_entry where
  "image_entry_default =
     \<lparr>ie_session_id = 0, ie_stream_id = 0, ie_endpoint_idx = 0, ie_source_addr = replicate 128 0,
      ie_initial_term_id = 0, ie_active_term_id = 0, ie_term_length = 0,
      ie_consumption_term_id = 0, ie_consumption_term_offset = 0, ie_receiver_window = 0,
      ie_receiver_id = 0, ie_expected_term_offset = 0, ie_time_of_last_sm_ns = 0,
      ie_time_of_last_nak_ns = 0, ie_sm_pending = False, ie_active = False\<rparr>"

definition image_hash :: "i32 \<Rightarrow> i32 \<Rightarrow> nat" where
  "image_hash session_id stream_id =
     (let h = (session_id * 0x9E3779B9) XOR (stream_id * 0x517CC1B7)
      in unat h AND IMAGE_INDEX_MASK)"

section \<open>The operations of the index\<close>

fun find_probe ::
  "image_entry list \<Rightarrow> u16 list \<Rightarrow> i32 \<Rightarrow> i32 \<Rightarrow> nat \<Rightarrow> nat list \<Rightarrow> nat option option" where
  "find_probe images index session_id stream_id start [] = Some None"
| "find_probe images index session_id stream_id start (probe # probes) =
     (let idx = index ! ((start + probe) AND IMAGE_INDEX_MASK)
      in if idx = IMAGE_INDEX_EMPTY then Some None
         else if length images \<le> unat idx then None
         else
           let img = images ! unat idx
           in if ie_active img \<and> ie_session_id img = session_id \<and> ie_stream_id img = stream_id
              then Some (Some (unat idx))
              else find_probe images index session_id stream_id start probes)"

definition find_image_in_index ::
  "image_entry list \<Rightarrow> u16 list \<Rightarrow> i32 \<Rightarrow> i32 \<Rightarrow> nat option option" where
  "find_image_in_index images index session_id stream_id =
     find_probe images index session_id stream_id (image_hash session_id stream_id) [0..<MAX_IMAGES]"

fun insert_probe :: "u16 list \<Rightarrow> nat \<Rightarrow> nat \<Rightarrow> nat list \<Rightarrow> u16 list" where
  "insert_probe index images_idx start [] = index"
| "insert_probe index images_idx start (probe # probes) =
     (let slot = (start + probe) AND IMAGE_INDEX_MASK
      in if index ! slot = IMAGE_INDEX_EMPTY then index[slot := of_nat images_idx]
         else insert_probe index images_idx start probes)"

definition insert_image_index :: "u16 list \<Rightarrow> nat \<Rightarrow> i32 \<Rightarrow> i32 \<Rightarrow> u16 list" where
  "insert_image_index index images_idx session_id stream_id =
     insert_probe index images_idx (image_hash session_id stream_id) [0..<MAX_IMAGES]"

text \<open>The first phase of the removal: \<open>Some None\<close> when there is no such entry.\<close>

fun target_probe ::
  "u16 list \<Rightarrow> image_entry list \<Rightarrow> i32 \<Rightarrow> i32 \<Rightarrow> nat \<Rightarrow> nat list \<Rightarrow> nat option option" where
  "target_probe index images session_id stream_id start [] = Some None"
| "target_probe index images session_id stream_id start (probe # probes) =
     (let slot = (start + probe) AND IMAGE_INDEX_MASK; idx = index ! slot
      in if idx = IMAGE_INDEX_EMPTY then Some None
         else if length images \<le> unat idx then None
         else
           let img = images ! unat idx
           in if ie_session_id img = session_id \<and> ie_stream_id img = stream_id then Some (Some slot)
              else target_probe index images session_id stream_id start probes)"

definition wrapping_dist :: "nat \<Rightarrow> nat \<Rightarrow> nat" where
  "wrapping_dist from to = ((to + 2 ^ 64 - from) mod 2 ^ 64) AND IMAGE_INDEX_MASK"

text \<open>The second phase: \<open>gap\<close> is the hole, the list holds the cursor values that are left.\<close>

fun shift_probe ::
  "u16 list \<Rightarrow> image_entry list \<Rightarrow> nat \<Rightarrow> nat \<Rightarrow> nat list \<Rightarrow> u16 list option" where
  "shift_probe index images target gap [] = Some (index[gap := IMAGE_INDEX_EMPTY])"
| "shift_probe index images target gap (j # js) =
     (let neighbor_idx = index ! j
      in if neighbor_idx = IMAGE_INDEX_EMPTY then Some (index[gap := IMAGE_INDEX_EMPTY])
         else if length images \<le> unat neighbor_idx then None
         else
           let img = images ! unat neighbor_idx;
               natural = image_hash (ie_session_id img) (ie_stream_id img);
               dist_natural = wrapping_dist natural j;
               dist_gap = wrapping_dist gap j;
               index' = (if dist_gap \<le> dist_natural then index[gap := index ! j] else index);
               gap' = (if dist_gap \<le> dist_natural then j else gap)
           in if j = target then Some (index'[gap' := IMAGE_INDEX_EMPTY])
              else shift_probe index' images target gap' js)"

definition remove_image_index ::
  "u16 list \<Rightarrow> image_entry list \<Rightarrow> i32 \<Rightarrow> i32 \<Rightarrow> u16 list option" where
  "remove_image_index index images session_id stream_id =
     (case target_probe index images session_id stream_id (image_hash session_id stream_id)
             [0..<MAX_IMAGES] of
        None \<Rightarrow> None
      | Some None \<Rightarrow> Some index
      | Some (Some target) \<Rightarrow>
          shift_probe index images target target
            (map (\<lambda>k. (target + k) AND IMAGE_INDEX_MASK) [1..<Suc MAX_IMAGES]))"

section \<open>The index as a table of linear probing\<close>

definition index_tab :: "u16 list \<Rightarrow> nat option list" where
  "index_tab index = map (\<lambda>w. if w = IMAGE_INDEX_EMPTY then None else Some (unat w)) index"

definition image_key :: "image_entry \<Rightarrow> i32 \<times> i32" where
  "image_key img = (ie_session_id img, ie_stream_id img)"

definition image_home :: "image_entry list \<Rightarrow> nat \<Rightarrow> nat" where
  "image_home images i = image_hash (ie_session_id (images ! i)) (ie_stream_id (images ! i))"

definition index_inv :: "image_entry list \<Rightarrow> u16 list \<Rightarrow> nat set \<Rightarrow> bool" where
  "index_inv images index S \<longleftrightarrow>
     length images = MAX_IMAGES \<and> length index = MAX_IMAGES \<and> S \<subseteq> {..<MAX_IMAGES} \<and>
     entries (index_tab index) = S \<and> inj_on (\<lambda>i. image_key (images ! i)) S \<and>
     probe_inv (image_home images) (index_tab index)"

lemmas index_constants = MAX_IMAGES_def IMAGE_INDEX_MASK_def IMAGE_INDEX_EMPTY_def

lemma and_index_mask: "x AND IMAGE_INDEX_MASK = x mod 256"
proof -
  have "x AND (2 ^ 8 - 1) = take_bit 8 x" by (simp add: take_bit_eq_mask mask_eq_exp_minus_1)
  then show ?thesis by (simp add: index_constants take_bit_eq_mod)
qed

lemma image_hash_lt: "image_hash session_id stream_id < 256"
  by (simp add: image_hash_def and_index_mask)

lemma slot_mask: "(a + b) AND IMAGE_INDEX_MASK = slot 256 a b"
  by (simp add: and_index_mask slot_def)

lemma wrapping_dist_eq:
  assumes "a < 256" "b < 256"
  shows "wrapping_dist a b = cdist 256 a b"
proof -
  have "(b + 2 ^ 64 - a) mod 2 ^ 64 mod 256 = (b + 2 ^ 64 - a) mod 256" for a b :: nat
    by (rule mod_mod_cancel) simp
  moreover have "b + 2 ^ 64 - a = (b + 256 - a) + 256 * (2 ^ 56 - 1)" using assms by simp
  ultimately show ?thesis unfolding wrapping_dist_def and_index_mask cdist_def
    by (metis mod_mult_self2)
qed

lemma length_index_tab [simp]: "length (index_tab index) = length index"
  by (simp add: index_tab_def)

lemma nth_index_tab:
  "p < length index \<Longrightarrow> index_tab index ! p = (if index ! p = IMAGE_INDEX_EMPTY then None else Some (unat (index ! p)))"
  by (simp add: index_tab_def)

lemma index_tab_update:
  "index_tab (index[p := w]) = (index_tab index)[p := if w = IMAGE_INDEX_EMPTY then None else Some (unat w)]"
  by (simp add: index_tab_def map_update)

lemma of_nat_not_empty: "i < 256 \<Longrightarrow> of_nat i \<noteq> IMAGE_INDEX_EMPTY"
proof
  assume "i < 256" "of_nat i = IMAGE_INDEX_EMPTY"
  moreover have "unat (of_nat i :: u16) = i" using \<open>i < 256\<close> by (intro unat_of_nat_lt) simp
  ultimately show False by (simp add: IMAGE_INDEX_EMPTY_def)
qed

lemma index_entry_lt:
  assumes "entries (index_tab index) \<subseteq> {..<n}" "p < length index" "index ! p \<noteq> IMAGE_INDEX_EMPTY"
  shows "unat (index ! p) < n"
  using assms entriesI [of p "index_tab index"] by (auto simp: nth_index_tab)

lemma find_probe_search:
  assumes "length index = 256" "entries (index_tab index) \<subseteq> {..<length images}"
  shows "find_probe images index s t start is = Some (map_option (\<lambda>p. unat (index ! p))
    (tab_search (\<lambda>i. ie_active (images ! i) \<and> image_key (images ! i) = (s, t)) (index_tab index) start is))"
proof (induction "is")
  case (Cons i "is")
  have "slot 256 start i < 256" by (simp add: slot_lt)
  then show ?case using Cons assms index_entry_lt [OF assms(2), of "slot 256 start i"]
    by (cases "index ! slot 256 start i = IMAGE_INDEX_EMPTY")
      (simp_all add: slot_mask nth_index_tab image_key_def Let_def)
qed simp

lemma target_probe_search:
  assumes "length index = 256" "entries (index_tab index) \<subseteq> {..<length images}"
  shows "target_probe index images s t start is =
    Some (tab_search (\<lambda>i. image_key (images ! i) = (s, t)) (index_tab index) start is)"
proof (induction "is")
  case (Cons i "is")
  have "slot 256 start i < 256" by (simp add: slot_lt)
  then show ?case using Cons assms index_entry_lt [OF assms(2), of "slot 256 start i"]
    by (cases "index ! slot 256 start i = IMAGE_INDEX_EMPTY")
      (simp_all add: slot_mask nth_index_tab image_key_def Let_def)
qed simp

lemma insert_probe_tab:
  assumes "length index = 256" "e < 256"
  shows "index_tab (insert_probe index e start is) = tab_insert e (index_tab index) start is"
proof (induction "is")
  case (Cons i "is")
  have "slot 256 start i < 256" by (simp add: slot_lt)
  then show ?case using Cons assms of_nat_not_empty [OF assms(2)]
    by (auto simp: slot_mask nth_index_tab Let_def index_tab_update unat_of_nat_lt)
qed simp

lemma length_insert_probe [simp]: "length (insert_probe index e start is) = length index"
  by (induction "is") (auto simp: Let_def)

lemma shift_probe_tab:
  assumes "length index = 256" "entries (index_tab index) \<subseteq> {..<length images}"
    "gap < 256" "\<forall>j \<in> set js. j < 256"
  shows "\<exists>index'. shift_probe index images target gap js = Some index' \<and> length index' = 256 \<and>
    index_tab index' = tab_shift (image_home images) (index_tab index) target gap js"
  using assms
proof (induction js arbitrary: index gap)
  case Nil
  then show ?case by (simp add: index_tab_update)
next
  case (Cons j js)
  note prems = Cons.prems
  have j: "j < 256" using prems by simp
  show ?case
  proof (cases "index ! j = IMAGE_INDEX_EMPTY")
    case True
    then show ?thesis using prems j by (simp add: index_tab_update nth_index_tab)
  next
    case False
    let ?i = "unat (index ! j)"
    have i: "?i < length images" and ni: "\<not> length images \<le> ?i" using index_entry_lt [OF prems(2), of j] prems(1) j False by simp_all
    have home: "image_hash (ie_session_id (images ! ?i)) (ie_stream_id (images ! ?i)) = image_home images ?i"
      "image_home images ?i < 256"
      by (simp_all add: image_home_def image_hash_lt)
    let ?move = "cdist 256 gap j \<le> cdist 256 (image_home images ?i) j"
    let ?v = "if ?move then index[gap := index ! j] else index" and ?g = "if ?move then j else gap"
    have tab: "index_tab ?v = (if ?move then (index_tab index)[gap := index_tab index ! j] else index_tab index)"
      using False prems(1) j by (simp add: index_tab_update nth_index_tab)
    have ent: "entries (index_tab ?v) \<subseteq> {..<length images}"
      using prems(2) i False set_update_subset_insert [of "index_tab index" gap "Some ?i"] prems(1) j
      unfolding tab by (auto simp: entries_def nth_index_tab)
    have step: "shift_probe index images target gap (j # js) =
        (if j = target then Some (?v[?g := IMAGE_INDEX_EMPTY]) else shift_probe ?v images target ?g js)"
      by (simp only: shift_probe.simps Let_def home(1) wrapping_dist_eq [OF prems(3) j]
          wrapping_dist_eq [OF home(2) j] False ni if_False)
    have tstep: "tab_shift (image_home images) (index_tab index) target gap (j # js) =
        (if j = target then (index_tab ?v)[?g := None] else tab_shift (image_home images) (index_tab ?v) target ?g js)"
      unfolding tab using False prems(1) j by (simp add: nth_index_tab Let_def)
    show ?thesis unfolding step tstep
      using Cons.IH [of ?v ?g] ent prems(1,3,4) j by (simp add: index_tab_update)
  qed
qed

section \<open>The interface\<close>

text \<open>
  What the receiver relies on.  \<open>inv imgs ix S\<close> says that the index \<open>ix\<close> holds exactly the numbers \<open>S\<close>
  of the table \<open>imgs\<close>, under the keys of their entries.
\<close>

locale keyed_index =
  fixes key :: "'img \<Rightarrow> 'k" and act :: "'img \<Rightarrow> bool" and cap :: nat
    and inv :: "'img list \<Rightarrow> 'ix \<Rightarrow> nat set \<Rightarrow> bool"
    and find :: "'img list \<Rightarrow> 'ix \<Rightarrow> 'k \<Rightarrow> nat option option"
    and insert_ix :: "'ix \<Rightarrow> nat \<Rightarrow> 'k \<Rightarrow> 'ix"
    and remove_ix :: "'ix \<Rightarrow> 'img list \<Rightarrow> 'k \<Rightarrow> 'ix option"
  assumes inv_length: "inv imgs ix S \<Longrightarrow> length imgs = cap"
    and inv_sub: "inv imgs ix S \<Longrightarrow> S \<subseteq> {..<cap}"
    and inv_inj: "inv imgs ix S \<Longrightarrow> i \<in> S \<Longrightarrow> j \<in> S \<Longrightarrow> key (imgs ! i) = key (imgs ! j) \<Longrightarrow> i = j"
    and inv_frame: "inv imgs ix S \<Longrightarrow> length imgs' = length imgs \<Longrightarrow>
      (\<And>i. i \<in> S \<Longrightarrow> key (imgs' ! i) = key (imgs ! i)) \<Longrightarrow> inv imgs' ix S"
    and find_some: "inv imgs ix S \<Longrightarrow> i \<in> S \<Longrightarrow> act (imgs ! i) \<Longrightarrow> key (imgs ! i) = k \<Longrightarrow>
      find imgs ix k = Some (Some i)"
    and find_none: "inv imgs ix S \<Longrightarrow> (\<And>i. i \<in> S \<Longrightarrow> key (imgs ! i) \<noteq> k) \<Longrightarrow> find imgs ix k = Some None"
    and insert_inv: "inv imgs ix S \<Longrightarrow> i \<notin> S \<Longrightarrow> i < cap \<Longrightarrow>
      (\<And>j. j \<in> S \<Longrightarrow> key (imgs ! j) \<noteq> key (imgs ! i)) \<Longrightarrow>
      inv imgs (insert_ix ix i (key (imgs ! i))) (insert i S)"
    and remove_inv: "inv imgs ix S \<Longrightarrow> i \<in> S \<Longrightarrow> key (imgs ! i) = k \<Longrightarrow>
      \<exists>ix'. remove_ix ix imgs k = Some ix' \<and> inv imgs ix' (S - {i})"
begin

lemma find_iff:
  assumes "inv imgs ix S" "\<And>i. i \<in> S \<Longrightarrow> act (imgs ! i)"
  shows "find imgs ix k = Some r \<longleftrightarrow>
    (case r of Some i \<Rightarrow> i \<in> S \<and> key (imgs ! i) = k | None \<Rightarrow> \<forall>i \<in> S. key (imgs ! i) \<noteq> k)"
proof (cases "\<exists>i \<in> S. key (imgs ! i) = k")
  case True
  then obtain i where i: "i \<in> S" "key (imgs ! i) = k" by blast
  then show ?thesis using find_some [OF assms(1) i(1) assms(2) i(2)] inv_inj [OF assms(1)]
    by (auto split: option.split)
next
  case False
  then show ?thesis using find_none [OF assms(1), of k] by (auto split: option.split)
qed

text \<open>A new entry at the end of a densely filled table.\<close>

lemma append_inv:
  assumes inv: "inv imgs ix {..<n}" and n: "n < cap"
    and new: "\<And>j. j < n \<Longrightarrow> key (imgs ! j) \<noteq> key img"
  shows "inv (imgs[n := img]) (insert_ix ix n (key img)) {..<Suc n}"
proof -
  have len: "length imgs = cap" by (rule inv_length [OF inv])
  have "inv (imgs[n := img]) ix {..<n}" by (rule inv_frame [OF inv]) auto
  from insert_inv [OF this, of n] show ?thesis
    using n new len by (simp add: lessThan_Suc)
qed

text \<open>Removing an entry and moving the last one into the hole.\<close>

lemma swap_remove_inv:
  assumes inv: "inv imgs ix {..<Suc n}" and i: "i < n"
    and imgs1: "length imgs1 = length imgs" "\<And>j. j \<le> n \<Longrightarrow> key (imgs1 ! j) = key (imgs ! j)"
  shows "\<exists>ix1 ix2. remove_ix ix imgs (key (imgs ! i)) = Some ix1 \<and>
    remove_ix ix1 imgs1 (key (imgs1 ! n)) = Some ix2 \<and>
    inv (imgs1[i := imgs1 ! n, n := img]) (insert_ix ix2 i (key (imgs1 ! n))) {..<n}"
proof -
  have len: "length imgs = cap" "n < cap" using inv_length [OF inv] inv_sub [OF inv] by auto
  obtain ix1 where ix1: "remove_ix ix imgs (key (imgs ! i)) = Some ix1" "inv imgs ix1 ({..<Suc n} - {i})"
    using remove_inv [OF inv, of i] i by auto
  have "inv imgs1 ix1 ({..<Suc n} - {i})" by (rule inv_frame [OF ix1(2) imgs1(1)]) (simp add: imgs1(2))
  from remove_inv [OF this, of n] i
  obtain ix2 where ix2: "remove_ix ix1 imgs1 (key (imgs1 ! n)) = Some ix2" "inv imgs1 ix2 ({..<Suc n} - {i} - {n})"
    by auto
  let ?imgs = "imgs1[i := imgs1 ! n, n := img]"
  have S: "{..<Suc n} - {i} - {n} = {..<n} - {i}" "insert i ({..<n} - {i}) = {..<n}" using i by auto
  have at: "?imgs ! i = imgs1 ! n" "\<And>j. j < n \<Longrightarrow> j \<noteq> i \<Longrightarrow> ?imgs ! j = imgs1 ! j"
    using i len imgs1(1) by (auto simp: nth_list_update)
  have "inv ?imgs ix2 ({..<n} - {i})"
    by (rule inv_frame [OF ix2(2) [unfolded S]]) (auto simp: at(2))
  moreover have "key (?imgs ! j) \<noteq> key (?imgs ! i)" if "j \<in> {..<n} - {i}" for j
    using that at inv_inj [OF inv, of j n] imgs1(2) by auto
  ultimately have "inv ?imgs (insert_ix ix2 i (key (?imgs ! i))) (insert i ({..<n} - {i}))"
    using i len by (intro insert_inv) auto
  then show ?thesis using ix1(1) ix2(1) S(2) at(1) by auto
qed

end

section \<open>The hash index satisfies it\<close>

lemma home_lt: "image_home images i < 256"
  by (simp add: image_home_def image_hash_lt)

lemma index_inv_facts:
  assumes "index_inv images index S"
  shows "length images = 256" "length index = 256" "entries (index_tab index) = S" "S \<subseteq> {..<256}"
    "probe_inv (image_home images) (index_tab index)" "entries (index_tab index) \<subseteq> {..<length images}"
  using assms by (simp_all add: index_inv_def MAX_IMAGES_def)

lemma probe_inv_cong:
  assumes "probe_inv home t" "\<And>e. e \<in> entries t \<Longrightarrow> home' e = home e"
  shows "probe_inv home' t"
proof -
  have eq: "home' e = home e" if "p < length t" "t ! p = Some e" for p e
    using assms(2) [OF entriesI [OF that]] .
  have "anchored home' t b" if "anchored home t b" "b < length t" for b
    using that eq [OF slot_less [OF that(2)]] by (simp add: anchored_def)
  moreover have "reached home' t p e" if "p < length t" "t ! p = Some e" for p e
    using that assms(1) eq [OF that] by (simp add: probe_inv_def reached_def)
  ultimately show ?thesis using assms(1) by (auto simp: probe_inv_def)
qed

lemma index_search:
  assumes inv: "index_inv images index S" and i: "i \<in> S"
    and P: "P i" "\<And>j. P j \<Longrightarrow> image_key (images ! j) = image_key (images ! i)"
  shows "\<exists>p < 256. index ! p \<noteq> IMAGE_INDEX_EMPTY \<and> unat (index ! p) = i \<and> index_tab index ! p = Some i \<and>
    tab_search P (index_tab index) (image_home images i) [0..<MAX_IMAGES] = Some p"
proof -
  note f = index_inv_facts [OF inv]
  obtain p where p: "p < 256" "index_tab index ! p = Some i"
    using i f(2,3) by (metis entriesE length_index_tab)
  have "P j \<longleftrightarrow> j = i" if "j \<in> entries (index_tab index)" for j
    using that inv i P f(3) by (auto simp: index_inv_def dest: inj_onD)
  then have "tab_search P (index_tab index) (image_home images i) [0..<length (index_tab index)] = Some p"
    using p f(2) home_lt by (intro tab_search_found [OF f(5)]) simp_all
  then show ?thesis using p f(2) by (auto simp: nth_index_tab MAX_IMAGES_def split: if_splits)
qed

abbreviation find_key :: "image_entry list \<Rightarrow> u16 list \<Rightarrow> i32 \<times> i32 \<Rightarrow> nat option option" where
  "find_key images index k \<equiv> find_image_in_index images index (fst k) (snd k)"

abbreviation insert_key :: "u16 list \<Rightarrow> nat \<Rightarrow> i32 \<times> i32 \<Rightarrow> u16 list" where
  "insert_key index i k \<equiv> insert_image_index index i (fst k) (snd k)"

abbreviation remove_key :: "u16 list \<Rightarrow> image_entry list \<Rightarrow> i32 \<times> i32 \<Rightarrow> u16 list option" where
  "remove_key index images k \<equiv> remove_image_index index images (fst k) (snd k)"

lemma index_find_some:
  assumes inv: "index_inv images index S" and i: "i \<in> S" "ie_active (images ! i)" "image_key (images ! i) = k"
  shows "find_key images index k = Some (Some i)"
proof -
  note f = index_inv_facts [OF inv]
  have "image_hash (fst k) (snd k) = image_home images i"
    using i by (auto simp: image_home_def image_key_def)
  then show ?thesis
    using index_search [OF inv i(1), of "\<lambda>j. ie_active (images ! j) \<and> image_key (images ! j) = k"] i
    by (auto simp: find_image_in_index_def find_probe_search [OF f(2,6)])
qed

lemma index_find_none:
  assumes inv: "index_inv images index S" and k: "\<And>i. i \<in> S \<Longrightarrow> image_key (images ! i) \<noteq> k"
  shows "find_key images index k = Some None"
proof -
  note f = index_inv_facts [OF inv]
  have "index_tab index \<noteq> []" using f(2) by (auto simp: index_tab_def)
  then show ?thesis
    using tab_search_none [of "index_tab index"] k f(3)
    by (simp add: find_image_in_index_def find_probe_search [OF f(2,6)])
qed

lemma index_insert:
  assumes inv: "index_inv images index S" and i: "i \<notin> S" "i < 256"
    and new: "\<And>j. j \<in> S \<Longrightarrow> image_key (images ! j) \<noteq> image_key (images ! i)"
  shows "index_inv images (insert_key index i (image_key (images ! i))) (insert i S)"
proof -
  note f = index_inv_facts [OF inv]
  let ?t = "index_tab index"
  have start: "image_hash (fst (image_key (images ! i))) (snd (image_key (images ! i))) = image_home images i"
    by (simp add: image_key_def image_home_def)
  have "None \<in> set ?t"
  proof (rule ccontr)
    assume full: "None \<notin> set ?t"
    have some: "\<exists>e. ?t ! p = Some e" if "p < 256" for p
      using full nth_mem [of p ?t] that f(2) by (cases "?t ! p") auto
    have "inj_on (\<lambda>p. the (?t ! p)) {..<256}"
    proof (rule inj_onI)
      fix p q :: nat assume pq: "p \<in> {..<256}" "q \<in> {..<256}" "the (?t ! p) = the (?t ! q)"
      then obtain e where "?t ! p = Some e" "?t ! q = Some e" using some [of p] some [of q] by auto
      then show "p = q" using f(2,5) pq tab_distinctD [of ?t p q e] by (simp add: probe_inv_def)
    qed
    moreover have "(\<lambda>p. the (?t ! p)) ` {..<256} \<subseteq> {..<256} - {i}"
    proof (rule image_subsetI)
      fix p :: nat assume p: "p \<in> {..<256}"
      then obtain e where e: "?t ! p = Some e" using some by auto
      then have "e \<in> S" using entriesI [of p ?t e] p f(2,3) by simp
      then show "the (?t ! p) \<in> {..<256} - {i}" using e f(4) i by auto
    qed
    ultimately have "card {..<256 :: nat} \<le> card ({..<256} - {i})" by (rule card_inj_on_le) simp
    then show False using i(2) by simp
  qed
  then have "probe_inv (image_home images) (tab_insert i ?t (image_home images i) [0..<length ?t])"
    "entries (tab_insert i ?t (image_home images i) [0..<length ?t]) = insert i (entries ?t)"
    using tab_insert_inv [OF f(5)] i f home_lt by simp_all
  then show ?thesis
    using inv i f(2,3) new [THEN not_sym] unfolding index_inv_def insert_image_index_def start
    by (simp add: insert_probe_tab MAX_IMAGES_def inj_on_insert image_iff)
qed

lemma index_remove:
  assumes inv: "index_inv images index S" and i: "i \<in> S" "image_key (images ! i) = k"
  shows "\<exists>index'. remove_key index images k = Some index' \<and> index_inv images index' (S - {i})"
proof -
  note f = index_inv_facts [OF inv]
  have start: "image_hash (fst k) (snd k) = image_home images i"
    using i by (auto simp: image_home_def image_key_def)
  obtain p where p: "p < 256" "index_tab index ! p = Some i"
      "tab_search (\<lambda>j. image_key (images ! j) = k) (index_tab index) (image_home images i) [0..<MAX_IMAGES] = Some p"
    using index_search [OF inv i(1), of "\<lambda>j. image_key (images ! j) = k"] i(2) by auto
  have len: "length index = MAX_IMAGES" using f(2) by (simp add: MAX_IMAGES_def)
  define js where "js = map (slot MAX_IMAGES p) [1..<Suc MAX_IMAGES]"
  have js: "\<forall>j \<in> set js. j < 256"
    using slot_lt [of MAX_IMAGES p] by (auto simp: js_def MAX_IMAGES_def simp del: upt_Suc upt_rec_numeral)
  obtain index' where index': "shift_probe index images p p js = Some index'" "length index' = 256"
      "index_tab index' = tab_shift (image_home images) (index_tab index) p p js"
    using shift_probe_tab [OF f(2,6) p(1) js, of p] by blast
  have "remove_key index images k = Some index'"
    unfolding remove_image_index_def start target_probe_search [OF f(2,6)] slot_mask [folded MAX_IMAGES_def]
    by (simp add: p(3) index'(1) [unfolded js_def One_nat_def] del: upt_Suc)
  moreover have inv': "probe_inv (image_home images) (index_tab index')" "entries (index_tab index') = S - {i}"
    using tab_shift_inv [OF f(5), unfolded length_index_tab len f(3), OF p(1) [folded MAX_IMAGES_def] p(2), folded js_def]
      home_lt [folded MAX_IMAGES_def] by (simp_all add: index'(3))
  have "index_inv images index' (S - {i})"
    using inv index'(2) inv' unfolding index_inv_def by (auto simp: MAX_IMAGES_def intro: inj_on_diff)
  ultimately show ?thesis by blast
qed

lemma index_frame:
  assumes inv: "index_inv imgs ix S" and len: "length imgs' = length imgs"
    and keys: "\<And>i. i \<in> S \<Longrightarrow> image_key (imgs' ! i) = image_key (imgs ! i)"
  shows "index_inv imgs' ix S"
proof -
  have home: "image_home imgs' i = image_home imgs i" if "i \<in> S" for i
    using keys [OF that] by (simp add: image_home_def image_key_def)
  have "inj_on (\<lambda>i. image_key (imgs' ! i)) S = inj_on (\<lambda>i. image_key (imgs ! i)) S"
    by (rule inj_on_cong [OF keys])
  moreover have "probe_inv (image_home imgs') (index_tab ix)"
    by (rule probe_inv_cong [OF index_inv_facts(5) [OF inv]]) (simp add: home index_inv_facts(3) [OF inv])
  ultimately show ?thesis using inv len unfolding index_inv_def by simp
qed

interpretation image_index: keyed_index image_key ie_active MAX_IMAGES index_inv find_key insert_key remove_key
proof (unfold_locales, goal_cases)
  case (1 imgs ix S) then show ?case by (simp add: index_inv_def)
next
  case (2 imgs ix S) then show ?case by (simp add: index_inv_def)
next
  case (3 imgs ix S i j) then show ?case by (auto simp: index_inv_def dest: inj_onD)
next
  case (4 imgs ix S imgs')
  show ?case by (rule index_frame [OF 4])
next
  case (5 imgs ix S i k) then show ?case by (rule index_find_some)
next
  case (6 imgs ix S k) then show ?case by (rule index_find_none)
next
  case (7 imgs ix S i)
  then have "i < 256" by (simp add: MAX_IMAGES_def)
  with 7 show ?case by (intro index_insert)
next
  case (8 imgs ix S i k) then show ?case by (rule index_remove)
qed

lemma index_inv_empty:
  assumes "length images = MAX_IMAGES"
  shows "index_inv images (replicate MAX_IMAGES IMAGE_INDEX_EMPTY) {}"
proof -
  have "index_tab (replicate MAX_IMAGES IMAGE_INDEX_EMPTY) = replicate MAX_IMAGES None"
    by (simp add: index_tab_def)
  moreover have "MAX_IMAGES \<noteq> 0" by (simp add: MAX_IMAGES_def)
  ultimately show ?thesis using assms
    by (simp add: index_inv_def entries_def probe_inv_def tab_distinct_def)
qed

end
