(* ===== verification/Bridge.thy ===== *)
theory Bridge
  imports Prelude "HOL-Library.Multiset"
begin

text \<open>
  The lock-free transfer bridges of \<^verbatim>\<open>src/src/client/bridge.rs\<close> and
  \<^verbatim>\<open>src/src/client/sub_bridge.rs\<close>.  The three bridges of the source are the same slot protocol at
  three item types, so the slot operations are polymorphic here.

  First the operations as calls, then the two threads interleaved access by access: every atomic load
  and store and every plain access to a slot's cell is a step.  The invariant \<open>bridge_inv\<close> says who may
  touch which slot; it gives exactly-once transfer for every interleaving.
\<close>

section \<open>Slots and calls\<close>

definition BRIDGE_CAPACITY :: nat where "BRIDGE_CAPACITY = 32"
definition SUB_BRIDGE_CAPACITY :: nat where "SUB_BRIDGE_CAPACITY = 32"
definition RECV_ENDPOINT_BRIDGE_CAPACITY :: nat where "RECV_ENDPOINT_BRIDGE_CAPACITY = 16"
definition SLOT_EMPTY :: u8 where "SLOT_EMPTY = 0"
definition SLOT_FILLED :: u8 where "SLOT_FILLED = 1"

record 'a bridge_slot =
  bs_state :: u8
  bs_data :: "'a option"

type_synonym 'a bridge = "'a bridge_slot list"

definition bridge_new :: "nat \<Rightarrow> 'a bridge" where
  "bridge_new capacity = replicate capacity \<lparr>bs_state = SLOT_EMPTY, bs_data = None\<rparr>"

fun bridge_deposit :: "'a bridge \<Rightarrow> 'a \<Rightarrow> 'a bridge \<times> bool" where
  "bridge_deposit [] item = ([], False)"
| "bridge_deposit (s # slots) item =
     (if bs_state s = SLOT_EMPTY
      then (s\<lparr>bs_data := Some item, bs_state := SLOT_FILLED\<rparr> # slots, True)
      else let r = bridge_deposit slots item in (s # fst r, snd r))"

definition bridge_try_take :: "'a bridge \<Rightarrow> nat \<Rightarrow> 'a bridge \<times> 'a option" where
  "bridge_try_take slots idx =
     (if length slots \<le> idx then (slots, None)
      else if bs_state (slots ! idx) = SLOT_FILLED
      then (slots[idx := (slots ! idx)\<lparr>bs_data := None, bs_state := SLOT_EMPTY\<rparr>], bs_data (slots ! idx))
      else (slots, None))"

text \<open>\<open>peek_stream_id\<close> reads one field of the item; the field is the argument \<open>field\<close>.\<close>

definition bridge_peek :: "('a \<Rightarrow> 'b) \<Rightarrow> 'a bridge \<Rightarrow> nat \<Rightarrow> 'b option" where
  "bridge_peek field slots idx =
     (if length slots \<le> idx then None
      else if bs_state (slots ! idx) = SLOT_FILLED then map_option field (bs_data (slots ! idx))
      else None)"

definition publication_bridge_new :: "'a bridge" where
  "publication_bridge_new = bridge_new BRIDGE_CAPACITY"

definition subscription_bridge_new :: "'a bridge" where
  "subscription_bridge_new = bridge_new SUB_BRIDGE_CAPACITY"

definition recv_endpoint_bridge_new :: "'a bridge" where
  "recv_endpoint_bridge_new = bridge_new RECV_ENDPOINT_BRIDGE_CAPACITY"

section \<open>Two threads\<close>

datatype 'a producer_pc = P_idle | P_scan 'a nat | P_write 'a nat | P_publish 'a nat
datatype 'a consumer_pc = C_idle | C_check nat | C_take nat | C_release nat "'a option"

record 'a bridge_state =
  br_slots :: "'a bridge"
  br_producer :: "'a producer_pc"
  br_consumer :: "'a consumer_pc"
  br_deposited :: "'a list"
  br_taken :: "'a option list"

definition set_slot :: "'a bridge_state \<Rightarrow> nat \<Rightarrow> 'a bridge_slot \<Rightarrow> 'a bridge_state" where
  "set_slot b i s = b\<lparr>br_slots := (br_slots b)[i := s]\<rparr>"

text \<open>
  The next access of each thread.  The ghost lists record the items whose \<open>deposit\<close> returned \<open>true\<close> and the
  results of the \<open>try_take\<close> calls that found a filled slot.
\<close>

definition producer_step :: "'a bridge_state \<Rightarrow> 'a bridge_state" where
  "producer_step b =
     (case br_producer b of
        P_idle \<Rightarrow> b
      | P_scan item i \<Rightarrow>
          if length (br_slots b) \<le> i then b\<lparr>br_producer := P_idle\<rparr>
          else if bs_state (br_slots b ! i) = SLOT_EMPTY then b\<lparr>br_producer := P_write item i\<rparr>
          else b\<lparr>br_producer := P_scan item (Suc i)\<rparr>
      | P_write item i \<Rightarrow>
          (set_slot b i ((br_slots b ! i)\<lparr>bs_data := Some item\<rparr>))\<lparr>br_producer := P_publish item i\<rparr>
      | P_publish item i \<Rightarrow>
          (set_slot b i ((br_slots b ! i)\<lparr>bs_state := SLOT_FILLED\<rparr>))
            \<lparr>br_producer := P_idle, br_deposited := br_deposited b @ [item]\<rparr>)"

definition consumer_step :: "'a bridge_state \<Rightarrow> 'a bridge_state" where
  "consumer_step b =
     (case br_consumer b of
        C_idle \<Rightarrow> b
      | C_check i \<Rightarrow>
          if length (br_slots b) \<le> i then b\<lparr>br_consumer := C_idle\<rparr>
          else if bs_state (br_slots b ! i) = SLOT_FILLED then b\<lparr>br_consumer := C_take i\<rparr>
          else b\<lparr>br_consumer := C_idle\<rparr>
      | C_take i \<Rightarrow>
          (set_slot b i ((br_slots b ! i)\<lparr>bs_data := None\<rparr>))
            \<lparr>br_consumer := C_release i (bs_data (br_slots b ! i))\<rparr>
      | C_release i item \<Rightarrow>
          (set_slot b i ((br_slots b ! i)\<lparr>bs_state := SLOT_EMPTY\<rparr>))
            \<lparr>br_consumer := C_idle, br_taken := br_taken b @ [item]\<rparr>)"

inductive bridge_step :: "'a bridge_state \<Rightarrow> 'a bridge_state \<Rightarrow> bool" where
  call_deposit: "br_producer b = P_idle \<Longrightarrow> bridge_step b (b\<lparr>br_producer := P_scan item 0\<rparr>)"
| call_try_take: "br_consumer b = C_idle \<Longrightarrow> bridge_step b (b\<lparr>br_consumer := C_check i\<rparr>)"
| producer: "bridge_step b (producer_step b)"
| consumer: "bridge_step b (consumer_step b)"

definition bridge_start :: "nat \<Rightarrow> 'a bridge_state" where
  "bridge_start capacity =
     \<lparr>br_slots = bridge_new capacity, br_producer = P_idle, br_consumer = C_idle,
      br_deposited = [], br_taken = []\<rparr>"

inductive bridge_reach :: "nat \<Rightarrow> 'a bridge_state \<Rightarrow> bool" for capacity where
  start: "bridge_reach capacity (bridge_start capacity)"
| step: "bridge_reach capacity b \<Longrightarrow> bridge_step b b' \<Longrightarrow> bridge_reach capacity b'"

section \<open>Who may touch which slot\<close>

abbreviation vacant :: "'a option \<Rightarrow> 'a bridge_slot" where
  "vacant d \<equiv> \<lparr>bs_state = SLOT_EMPTY, bs_data = d\<rparr>"

abbreviation filled :: "'a option \<Rightarrow> 'a bridge_slot" where
  "filled d \<equiv> \<lparr>bs_state = SLOT_FILLED, bs_data = d\<rparr>"

definition slot_ok :: "'a producer_pc \<Rightarrow> 'a consumer_pc \<Rightarrow> nat \<Rightarrow> 'a bridge_slot \<Rightarrow> bool" where
  "slot_ok p c i s \<longleftrightarrow>
     (\<forall>x. p = P_write x i \<longrightarrow> s = vacant None) \<and>
     (\<forall>x. p = P_publish x i \<longrightarrow> s = vacant (Some x)) \<and>
     (c = C_take i \<longrightarrow> (\<exists>x. s = filled (Some x))) \<and>
     (\<forall>r. c = C_release i r \<longrightarrow> s = filled None \<and> r \<noteq> None) \<and>
     ((\<forall>x. p \<noteq> P_write x i \<and> p \<noteq> P_publish x i) \<longrightarrow> (\<forall>r. c \<noteq> C_release i r) \<longrightarrow>
        s = vacant None \<or> (\<exists>x. s = filled (Some x)))"

definition pcs_ok :: "'a bridge_state \<Rightarrow> bool" where
  "pcs_ok b \<longleftrightarrow>
     (\<forall>x i. br_producer b = P_write x i \<or> br_producer b = P_publish x i \<longrightarrow> i < length (br_slots b)) \<and>
     (\<forall>i r. br_consumer b = C_take i \<or> br_consumer b = C_release i r \<longrightarrow> i < length (br_slots b))"

definition slot_items :: "'a bridge_slot \<Rightarrow> 'a list" where
  "slot_items s = (if bs_state s = SLOT_FILLED then case bs_data s of None \<Rightarrow> [] | Some x \<Rightarrow> [x] else [])"

definition in_bridge :: "'a bridge \<Rightarrow> 'a multiset" where
  "in_bridge slots = mset (concat (map slot_items slots))"

definition in_hand :: "'a consumer_pc \<Rightarrow> 'a multiset" where
  "in_hand c = (case c of C_release i (Some x) \<Rightarrow> {#x#} | _ \<Rightarrow> {#})"

definition bridge_inv :: "'a bridge_state \<Rightarrow> bool" where
  "bridge_inv b \<longleftrightarrow> pcs_ok b \<and>
     (\<forall>i < length (br_slots b). slot_ok (br_producer b) (br_consumer b) i (br_slots b ! i)) \<and>
     None \<notin> set (br_taken b) \<and>
     mset (br_deposited b) = mset (map the (br_taken b)) + in_hand (br_consumer b) + in_bridge (br_slots b)"

lemma in_bridge_update:
  "i < length slots \<Longrightarrow>
   in_bridge (slots[i := s]) + mset (slot_items (slots ! i)) = in_bridge slots + mset (slot_items s)"
proof (induction slots arbitrary: i)
  case (Cons a slots)
  then show ?case by (cases i) (simp_all add: in_bridge_def ac_simps)
qed simp

lemma slot_items_simps [simp]:
  "slot_items \<lparr>bs_state = SLOT_EMPTY, bs_data = d\<rparr> = []"
  "slot_items \<lparr>bs_state = SLOT_FILLED, bs_data = Some x\<rparr> = [x]"
  "slot_items \<lparr>bs_state = SLOT_FILLED, bs_data = None\<rparr> = []"
  by (simp_all add: slot_items_def SLOT_EMPTY_def SLOT_FILLED_def)

lemma slot_states [simp]: "SLOT_EMPTY \<noteq> SLOT_FILLED" "SLOT_FILLED \<noteq> SLOT_EMPTY"
  by (simp_all add: SLOT_EMPTY_def SLOT_FILLED_def)

lemma in_bridge_new [simp]: "in_bridge (bridge_new n) = {#}"
  by (induction n) (simp_all add: in_bridge_def bridge_new_def)

lemma bridge_inv_start: "bridge_inv (bridge_start capacity)"
  by (simp add: bridge_inv_def bridge_start_def pcs_ok_def in_hand_def)
    (simp add: slot_ok_def bridge_new_def)

lemma bridge_inv_producer:
  assumes inv: "bridge_inv b"
  shows "bridge_inv (producer_step b)"
proof (cases "br_producer b")
  case P_idle
  then show ?thesis using inv by (simp add: producer_step_def)
next
  case (P_scan item i)
  have keep: "bridge_inv (b\<lparr>br_producer := p\<rparr>)"
    if p: "\<And>x j. p = P_write x j \<or> p = P_publish x j \<Longrightarrow> p = P_write x j \<and> j < length (br_slots b) \<and>
      bs_state (br_slots b ! j) = SLOT_EMPTY" for p
  proof -
    have "slot_ok p (br_consumer b) j (br_slots b ! j)" if "j < length (br_slots b)" for j
      using inv that P_scan p by (cases p) (auto simp: bridge_inv_def slot_ok_def)
    then show ?thesis using inv p P_scan by (auto simp: bridge_inv_def pcs_ok_def)
  qed
  show ?thesis using P_scan
    by (auto simp: producer_step_def intro!: keep)
next
  case (P_write item i)
  then have i: "i < length (br_slots b)" and s: "br_slots b ! i = vacant None"
    using inv by (auto simp: bridge_inv_def pcs_ok_def slot_ok_def)
  have "in_bridge ((br_slots b)[i := vacant (Some item)]) = in_bridge (br_slots b)"
    using in_bridge_update [OF i, of "vacant (Some item)"] s by simp
  then show ?thesis using inv P_write s i
    by (auto simp: producer_step_def bridge_inv_def pcs_ok_def set_slot_def slot_ok_def nth_list_update)
next
  case (P_publish item i)
  then have i: "i < length (br_slots b)" and s: "br_slots b ! i = vacant (Some item)"
    using inv by (auto simp: bridge_inv_def pcs_ok_def slot_ok_def)
  have "in_bridge ((br_slots b)[i := filled (Some item)]) = add_mset item (in_bridge (br_slots b))"
    using in_bridge_update [OF i, of "filled (Some item)"] s by simp
  then show ?thesis using inv P_publish s i
    by (auto simp: producer_step_def bridge_inv_def pcs_ok_def set_slot_def slot_ok_def nth_list_update)
qed

lemma bridge_inv_consumer:
  assumes inv: "bridge_inv b"
  shows "bridge_inv (consumer_step b)"
proof (cases "br_consumer b")
  case C_idle
  then show ?thesis using inv by (simp add: consumer_step_def)
next
  case (C_check i)
  have "\<exists>x. br_slots b ! i = filled (Some x)"
    if "i < length (br_slots b)" "bs_state (br_slots b ! i) = SLOT_FILLED"
    using inv that C_check
    by (cases "br_producer b") (auto simp: bridge_inv_def slot_ok_def)
  then show ?thesis using inv C_check
    by (auto simp: consumer_step_def bridge_inv_def pcs_ok_def slot_ok_def in_hand_def)
next
  case (C_take i)
  then obtain x where i: "i < length (br_slots b)" and s: "br_slots b ! i = filled (Some x)"
    using inv by (auto simp: bridge_inv_def pcs_ok_def slot_ok_def)
  have "add_mset x (in_bridge ((br_slots b)[i := filled None])) = in_bridge (br_slots b)"
    using in_bridge_update [OF i, of "filled None"] s by simp
  then show ?thesis using inv C_take s i
    by (auto simp: consumer_step_def bridge_inv_def pcs_ok_def set_slot_def slot_ok_def in_hand_def nth_list_update)
next
  case (C_release i r)
  then obtain x where i: "i < length (br_slots b)" and s: "br_slots b ! i = filled None" "r = Some x"
    using inv by (auto simp: bridge_inv_def pcs_ok_def slot_ok_def)
  have "in_bridge ((br_slots b)[i := vacant None]) = in_bridge (br_slots b)"
    using in_bridge_update [OF i, of "vacant None"] s by simp
  then show ?thesis using inv C_release s i
    by (auto simp: consumer_step_def bridge_inv_def pcs_ok_def set_slot_def slot_ok_def in_hand_def nth_list_update)
qed

lemma bridge_reach_inv: "bridge_reach capacity b \<Longrightarrow> bridge_inv b"
proof (induction rule: bridge_reach.induct)
  case start
  then show ?case by (rule bridge_inv_start)
next
  case (step b b')
  from step.hyps(2) show ?case
  proof (cases rule: bridge_step.cases)
    case (call_deposit item)
    then show ?thesis using step.IH by (auto simp: bridge_inv_def pcs_ok_def slot_ok_def)
  next
    case (call_try_take i)
    then show ?thesis using step.IH by (auto simp: bridge_inv_def pcs_ok_def slot_ok_def in_hand_def)
  next
    case producer
    then show ?thesis using bridge_inv_producer [OF step.IH] by simp
  next
    case consumer
    then show ?thesis using bridge_inv_consumer [OF step.IH] by simp
  qed
qed

section \<open>Calls are their steps\<close>

definition after_deposit :: "'a bridge_state \<Rightarrow> 'a \<Rightarrow> 'a bridge_state" where
  "after_deposit b item =
     (let r = bridge_deposit (br_slots b) item
      in b\<lparr>br_slots := fst r, br_producer := P_idle,
           br_deposited := br_deposited b @ (if snd r then [item] else [])\<rparr>)"

definition after_try_take :: "'a bridge_state \<Rightarrow> nat \<Rightarrow> 'a bridge_state" where
  "after_try_take b i =
     (let r = bridge_try_take (br_slots b) i
      in b\<lparr>br_slots := fst r, br_consumer := C_idle,
           br_taken := br_taken b @
             (if i < length (br_slots b) \<and> bs_state (br_slots b ! i) = SLOT_FILLED then [snd r] else [])\<rparr>)"

lemma deposit_steps_from:
  assumes "i \<le> length (br_slots b)"
  shows "\<exists>n. (producer_step ^^ n) (b\<lparr>br_producer := P_scan item i\<rparr>) =
    b\<lparr>br_slots := take i (br_slots b) @ fst (bridge_deposit (drop i (br_slots b)) item), br_producer := P_idle,
      br_deposited := br_deposited b @
        (if snd (bridge_deposit (drop i (br_slots b)) item) then [item] else [])\<rparr>"
  using assms
proof (induction "length (br_slots b) - i" arbitrary: i)
  case 0
  then show ?case by (intro exI [of _ 1]) (simp add: producer_step_def)
next
  case (Suc m)
  then have i: "i < length (br_slots b)" by simp
  let ?s = "br_slots b ! i"
  have d: "drop i (br_slots b) = ?s # drop (Suc i) (br_slots b)" using i by (rule Cons_nth_drop_Suc [symmetric])
  show ?case
  proof (cases "bs_state ?s = SLOT_EMPTY")
    case True
    have "(br_slots b)[i := ?s\<lparr>bs_data := Some item, bs_state := SLOT_FILLED\<rparr>] =
      take i (br_slots b) @ ?s\<lparr>bs_data := Some item, bs_state := SLOT_FILLED\<rparr> # drop (Suc i) (br_slots b)"
      using i by (rule upd_conv_take_nth_drop)
    then show ?thesis using True i
      by (intro exI [of _ 3]) (simp add: d eval_nat_numeral producer_step_def set_slot_def)
  next
    case False
    obtain n where "(producer_step ^^ n) (b\<lparr>br_producer := P_scan item (Suc i)\<rparr>) =
        b\<lparr>br_slots := take (Suc i) (br_slots b) @ fst (bridge_deposit (drop (Suc i) (br_slots b)) item),
          br_producer := P_idle,
          br_deposited := br_deposited b @
            (if snd (bridge_deposit (drop (Suc i) (br_slots b)) item) then [item] else [])\<rparr>"
    proof -
      have "m = length (br_slots b) - Suc i" "Suc i \<le> length (br_slots b)" using Suc.hyps(2) i by simp_all
      from Suc.hyps(1) [OF this] show thesis by (elim exE) (rule that)
    qed
    then show ?thesis using False i
      by (intro exI [of _ "Suc n"])
        (simp add: d producer_step_def funpow_swap1 [symmetric] Let_def take_Suc_conv_app_nth funpow_Suc_right del: funpow.simps)
  qed
qed

lemma try_take_steps:
  "\<exists>n. (consumer_step ^^ n) (b\<lparr>br_consumer := C_check i\<rparr>) = after_try_take b i"
proof (cases "i < length (br_slots b) \<and> bs_state (br_slots b ! i) = SLOT_FILLED")
  case True
  then show ?thesis
    by (intro exI [of _ 3])
      (simp add: eval_nat_numeral consumer_step_def set_slot_def after_try_take_def bridge_try_take_def not_le)
next
  case False
  then show ?thesis
    by (intro exI [of _ 1])
      (auto simp: consumer_step_def after_try_take_def bridge_try_take_def not_le)
qed

section \<open>Properties\<close>

text \<open>
  C13: The bridge hands every item over exactly once.  In every interleaving of the accesses of one
  depositing and one taking thread, the items whose \<open>deposit\<close> succeeded are, as a multiset, those
  taken so far, the one being handed out, and those in filled slots, and no \<open>try_take\<close> that saw a filled slot
  came back empty-handed.
\<close>

theorem bridge_transfers_once:
  assumes "bridge_reach capacity b"
  shows "mset (br_deposited b) =
      mset (map the (br_taken b)) + in_hand (br_consumer b) + in_bridge (br_slots b) \<and>
    None \<notin> set (br_taken b)"
  using bridge_reach_inv [OF assms] by (simp add: bridge_inv_def)

definition handed_over :: "nat bridge_state" where
  "handed_over = (let call = (bridge_start 2)\<lparr>br_producer := P_scan 7 0\<rparr>;
     sent = producer_step (producer_step (producer_step call))
   in consumer_step (consumer_step (consumer_step (sent\<lparr>br_consumer := C_check 0\<rparr>))))"

lemma handed_over_state:
  "handed_over = \<lparr>br_slots = [vacant None, vacant None], br_producer = P_idle, br_consumer = C_idle,
     br_deposited = [7], br_taken = [Some 7]\<rparr>"
  by (simp add: handed_over_def bridge_start_def bridge_new_def producer_step_def consumer_step_def
      set_slot_def eval_nat_numeral)

lemma handed_over_reach: "bridge_reach 2 handed_over"
proof -
  note P = bridge_reach.step [OF _ bridge_step.producer] and C = bridge_reach.step [OF _ bridge_step.consumer]
  have "bridge_reach 2 ((bridge_start 2)\<lparr>br_producer := P_scan 7 0\<rparr> :: nat bridge_state)"
    by (rule bridge_reach.step [OF bridge_reach.start bridge_step.call_deposit]) (simp add: bridge_start_def)
  note sent = P [OF P [OF P [OF this]]]
  show ?thesis unfolding handed_over_def Let_def
    by (rule C [OF C [OF C [OF bridge_reach.step [OF sent bridge_step.call_try_take]]]])
      (simp add: producer_step_def bridge_start_def bridge_new_def set_slot_def)
qed

theorem bridge_transfers_once_witness:
  "mset (br_deposited handed_over) = mset (map the (br_taken handed_over)) + {#} + {#} \<and>
   br_taken handed_over = [Some 7]"
  using bridge_transfers_once [OF handed_over_reach]
  by (simp add: handed_over_state in_hand_def in_bridge_def)

text \<open>
  A call of \<open>deposit\<close> or \<open>try_take\<close> that runs alone is the composition of the interleavable
  accesses, on every branch: slot found, bridge full, slot empty, index out of range.
\<close>

theorem bridge_calls_are_steps:
  "(\<exists>n. (producer_step ^^ n) (b\<lparr>br_producer := P_scan item 0\<rparr>) = after_deposit b item) \<and>
   (\<exists>n. (consumer_step ^^ n) (b\<lparr>br_consumer := C_check i\<rparr>) = after_try_take b i)"
  using deposit_steps_from [of 0 b] try_take_steps [where b = b and i = i]
  by (simp add: after_deposit_def Let_def)

end
