(* ===== verification/Endpoints.thy ===== *)
theory Endpoints
  imports Frame
begin

text \<open>
  The channel endpoints, \<^verbatim>\<open>src/src/media/send_channel_endpoint.rs\<close> and
  \<^verbatim>\<open>src/src/media/receive_channel_endpoint.rs\<close>.

  The poller is a trait in the source; here its \<open>submit_send\<close> is a function argument over an
  arbitrary poller state, which returns the error if there is one.  A pre-sized array together with
  its length field is the list of the entries in use.  The scratch buffers of the endpoints have
  exactly the size of the frame that is written into them before every submission, so what is
  submitted is the byte image of the header.
\<close>

unbundle bit_operations_syntax

datatype poll_error = RingFull | NoSendSlot | NotRegistered | Os i32

text \<open>A received datagram; the two client cookies and the address length are not read.\<close>

record recv_message =
  msg_transport_idx :: nat
  msg_data :: "byte list"
  msg_source_addr :: sockaddr_storage

type_synonym 'p submit =
  "'p \<Rightarrow> nat \<Rightarrow> byte list \<Rightarrow> sockaddr_storage option \<Rightarrow> 'p \<times> poll_error option"

section \<open>The receive channel endpoint\<close>

definition MAX_PENDING_SM :: nat where "MAX_PENDING_SM = 64"
definition MAX_PENDING_NAK :: nat where "MAX_PENDING_NAK = 64"
definition MAX_PENDING_RTTM :: nat where "MAX_PENDING_RTTM = 16"

record pending_sm =
  psm_dest_addr :: sockaddr_storage
  psm_session_id :: i32
  psm_stream_id :: i32
  psm_consumption_term_id :: i32
  psm_consumption_term_offset :: i32
  psm_receiver_window :: i32
  psm_receiver_id :: i64

record pending_nak =
  pnak_dest_addr :: sockaddr_storage
  pnak_session_id :: i32
  pnak_stream_id :: i32
  pnak_active_term_id :: i32
  pnak_term_offset :: i32
  pnak_length :: i32

record pending_rttm =
  prttm_dest_addr :: sockaddr_storage
  prttm_session_id :: i32
  prttm_stream_id :: i32
  prttm_echo_timestamp :: i64
  prttm_receiver_id :: i64

record receive_channel_endpoint =
  rce_transport_idx :: "nat option"
  rce_receiver_id :: i64
  rce_pending_sms :: "pending_sm list"
  rce_pending_naks :: "pending_nak list"
  rce_pending_rttms :: "pending_rttm list"

definition receive_channel_endpoint_new :: "i64 \<Rightarrow> receive_channel_endpoint" where
  "receive_channel_endpoint_new receiver_id =
     \<lparr>rce_transport_idx = None, rce_receiver_id = receiver_id, rce_pending_sms = [],
      rce_pending_naks = [], rce_pending_rttms = []\<rparr>"

definition rce_register ::
  "('p \<Rightarrow> 'p \<times> nat option) \<Rightarrow> 'p \<Rightarrow> receive_channel_endpoint \<Rightarrow> 'p \<times> receive_channel_endpoint \<times> bool" where
  "rce_register add_transport poller ep =
     (let r = add_transport poller
      in case snd r of
           None \<Rightarrow> (fst r, ep, False)
         | Some idx \<Rightarrow> (fst r, ep\<lparr>rce_transport_idx := Some idx\<rparr>, True))"

definition queue_sm :: "receive_channel_endpoint \<Rightarrow> pending_sm \<Rightarrow> receive_channel_endpoint" where
  "queue_sm ep sm =
     (if length (rce_pending_sms ep) < MAX_PENDING_SM
      then ep\<lparr>rce_pending_sms := rce_pending_sms ep @ [sm]\<rparr> else ep)"

definition queue_nak :: "receive_channel_endpoint \<Rightarrow> pending_nak \<Rightarrow> receive_channel_endpoint" where
  "queue_nak ep nak =
     (if length (rce_pending_naks ep) < MAX_PENDING_NAK
      then ep\<lparr>rce_pending_naks := rce_pending_naks ep @ [nak]\<rparr> else ep)"

definition queue_rttm :: "receive_channel_endpoint \<Rightarrow> pending_rttm \<Rightarrow> receive_channel_endpoint" where
  "queue_rttm ep rttm =
     (if length (rce_pending_rttms ep) < MAX_PENDING_RTTM
      then ep\<lparr>rce_pending_rttms := rce_pending_rttms ep @ [rttm]\<rparr> else ep)"

text \<open>The handler of data and setup frames is a pair of functions on its own state.\<close>

definition rce_on_message ::
  "('h \<Rightarrow> data_header \<Rightarrow> byte list \<Rightarrow> sockaddr_storage \<Rightarrow> 'h) \<Rightarrow>
   ('h \<Rightarrow> setup_header \<Rightarrow> sockaddr_storage \<Rightarrow> 'h) \<Rightarrow>
   receive_channel_endpoint \<Rightarrow> 'h \<Rightarrow> byte list \<Rightarrow> sockaddr_storage \<Rightarrow>
   receive_channel_endpoint \<times> 'h \<times> bool" where
  "rce_on_message on_data on_setup ep h data source =
     (case frame_header_parse data of
        None \<Rightarrow> (ep, h, False)
      | Some hdr \<Rightarrow>
         (case frame_type_from (fh_frame_type hdr) of
            Data \<Rightarrow> (case data_header_parse data of
                Some dh \<Rightarrow> (ep, on_data h dh (data_header_payload dh data) source, True)
              | None \<Rightarrow> (ep, h, False))
          | Pad \<Rightarrow> (case data_header_parse data of
                Some dh \<Rightarrow> (ep, on_data h dh (data_header_payload dh data) source, True)
              | None \<Rightarrow> (ep, h, False))
          | Setup \<Rightarrow> (case setup_header_parse data of
                Some su \<Rightarrow> (ep, on_setup h su source, True)
              | None \<Rightarrow> (ep, h, False))
          | Rttm \<Rightarrow> (case rttm_header_parse data of
                Some rttm \<Rightarrow>
                  if fh_flags (rttm_frame_header rttm) AND RTTM_FLAG_REPLY = 0
                  then (queue_rttm ep
                          \<lparr>prttm_dest_addr = source, prttm_session_id = rttm_session_id rttm,
                           prttm_stream_id = rttm_stream_id rttm,
                           prttm_echo_timestamp = rttm_echo_timestamp rttm,
                           prttm_receiver_id = rce_receiver_id ep\<rparr>, h, True)
                  else (ep, h, True)
              | None \<Rightarrow> (ep, h, True))
          | _ \<Rightarrow> (ep, h, False)))"

definition sm_frame :: "pending_sm \<Rightarrow> status_message" where
  "sm_frame pending =
     \<lparr>sm_frame_header = \<lparr>fh_frame_length = of_nat SM_TOTAL_LENGTH, fh_version = CURRENT_VERSION,
                          fh_flags = 0, fh_frame_type = FRAME_TYPE_SM\<rparr>,
      sm_session_id = psm_session_id pending, sm_stream_id = psm_stream_id pending,
      sm_consumption_term_id = psm_consumption_term_id pending,
      sm_consumption_term_offset = psm_consumption_term_offset pending,
      sm_receiver_window = psm_receiver_window pending, sm_receiver_id = psm_receiver_id pending\<rparr>"

definition nak_frame :: "pending_nak \<Rightarrow> nak_header" where
  "nak_frame pending =
     \<lparr>nak_frame_header = \<lparr>fh_frame_length = of_nat NAK_TOTAL_LENGTH, fh_version = CURRENT_VERSION,
                           fh_flags = 0, fh_frame_type = FRAME_TYPE_NAK\<rparr>,
      nak_session_id = pnak_session_id pending, nak_stream_id = pnak_stream_id pending,
      nak_active_term_id = pnak_active_term_id pending, nak_term_offset = pnak_term_offset pending,
      nak_length = pnak_length pending\<rparr>"

definition rttm_reply_frame :: "pending_rttm \<Rightarrow> rttm_header" where
  "rttm_reply_frame pending =
     \<lparr>rttm_frame_header = \<lparr>fh_frame_length = of_nat RTTM_TOTAL_LENGTH, fh_version = CURRENT_VERSION,
                            fh_flags = RTTM_FLAG_REPLY, fh_frame_type = FRAME_TYPE_RTTM\<rparr>,
      rttm_session_id = prttm_session_id pending, rttm_stream_id = prttm_stream_id pending,
      rttm_echo_timestamp = prttm_echo_timestamp pending, rttm_reception_delta = 0,
      rttm_receiver_id = prttm_receiver_id pending\<rparr>"

text \<open>One of the three sending loops: the number of submissions, and the error that ended it.\<close>

fun send_all ::
  "'p submit \<Rightarrow> nat \<Rightarrow> (byte list \<times> sockaddr_storage) list \<Rightarrow> 'p \<Rightarrow> 'p \<times> nat \<times> poll_error option" where
  "send_all submit idx [] poller = (poller, 0, None)"
| "send_all submit idx (frame # frames) poller =
     (let r = submit poller idx (fst frame) (Some (snd frame))
      in case snd r of
           Some e \<Rightarrow> (fst r, 0, Some e)
         | None \<Rightarrow> let s = send_all submit idx frames (fst r) in (fst s, Suc (fst (snd s)), snd (snd s)))"

definition sm_frames :: "receive_channel_endpoint \<Rightarrow> (byte list \<times> sockaddr_storage) list" where
  "sm_frames ep = map (\<lambda>p. (status_message_bytes (sm_frame p), psm_dest_addr p)) (rce_pending_sms ep)"

definition nak_frames :: "receive_channel_endpoint \<Rightarrow> (byte list \<times> sockaddr_storage) list" where
  "nak_frames ep = map (\<lambda>p. (nak_header_bytes (nak_frame p), pnak_dest_addr p)) (rce_pending_naks ep)"

definition rttm_frames :: "receive_channel_endpoint \<Rightarrow> (byte list \<times> sockaddr_storage) list" where
  "rttm_frames ep =
     map (\<lambda>p. (rttm_header_bytes (rttm_reply_frame p), prttm_dest_addr p)) (rce_pending_rttms ep)"

definition send_pending ::
  "'p submit \<Rightarrow> 'p \<Rightarrow> receive_channel_endpoint \<Rightarrow> 'p \<times> receive_channel_endpoint \<times> (poll_error + nat)" where
  "send_pending submit poller ep =
     (case rce_transport_idx ep of
        None \<Rightarrow> (poller, ep, Inl NotRegistered)
      | Some idx \<Rightarrow>
         (case send_all submit idx (sm_frames ep) poller of
            (p1, n1, Some e) \<Rightarrow> (p1, ep, Inl e)
          | (p1, n1, None) \<Rightarrow>
              let ep1 = ep\<lparr>rce_pending_sms := []\<rparr>
              in (case send_all submit idx (nak_frames ep1) p1 of
                    (p2, n2, Some e) \<Rightarrow> (p2, ep1, Inl e)
                  | (p2, n2, None) \<Rightarrow>
                      let ep2 = ep1\<lparr>rce_pending_naks := []\<rparr>
                      in (case send_all submit idx (rttm_frames ep2) p2 of
                            (p3, n3, Some e) \<Rightarrow> (p3, ep2, Inl e)
                          | (p3, n3, None) \<Rightarrow>
                              (p3, ep2\<lparr>rce_pending_rttms := []\<rparr>, Inr (n1 + n2 + n3))))))"

section \<open>The send channel endpoint\<close>

definition MAX_RECENT_SM :: nat where "MAX_RECENT_SM = 64"
definition MAX_RECENT_NAK :: nat where "MAX_RECENT_NAK = 64"
definition MAX_RECENT_RTTM :: nat where "MAX_RECENT_RTTM = 16"

record send_channel_endpoint =
  sce_transport_idx :: "nat option"
  sce_recent_sm :: "status_message list"
  sce_recent_naks :: "nak_header list"
  sce_recent_rttms :: "rttm_header list"

definition send_channel_endpoint_new :: send_channel_endpoint where
  "send_channel_endpoint_new =
     \<lparr>sce_transport_idx = None, sce_recent_sm = [], sce_recent_naks = [], sce_recent_rttms = []\<rparr>"

definition sce_register ::
  "('p \<Rightarrow> 'p \<times> nat option) \<Rightarrow> 'p \<Rightarrow> send_channel_endpoint \<Rightarrow> 'p \<times> send_channel_endpoint \<times> bool" where
  "sce_register add_transport poller ep =
     (let r = add_transport poller
      in case snd r of
           None \<Rightarrow> (fst r, ep, False)
         | Some idx \<Rightarrow> (fst r, ep\<lparr>sce_transport_idx := Some idx\<rparr>, True))"

definition sce_on_message :: "send_channel_endpoint \<Rightarrow> byte list \<Rightarrow> send_channel_endpoint" where
  "sce_on_message ep data =
     (case frame_header_parse data of
        None \<Rightarrow> ep
      | Some hdr \<Rightarrow>
         (case frame_type_from (fh_frame_type hdr) of
            StatusMessage \<Rightarrow> (case status_message_parse data of
                Some sm \<Rightarrow>
                  if length (sce_recent_sm ep) < MAX_RECENT_SM
                  then ep\<lparr>sce_recent_sm := sce_recent_sm ep @ [sm]\<rparr> else ep
              | None \<Rightarrow> ep)
          | Nak \<Rightarrow> (case nak_header_parse data of
                Some nak \<Rightarrow>
                  if length (sce_recent_naks ep) < MAX_RECENT_NAK
                  then ep\<lparr>sce_recent_naks := sce_recent_naks ep @ [nak]\<rparr> else ep
              | None \<Rightarrow> ep)
          | Rttm \<Rightarrow> (case rttm_header_parse data of
                Some rttm \<Rightarrow>
                  if fh_flags (rttm_frame_header rttm) AND RTTM_FLAG_REPLY \<noteq> 0 \<and>
                     length (sce_recent_rttms ep) < MAX_RECENT_RTTM
                  then ep\<lparr>sce_recent_rttms := sce_recent_rttms ep @ [rttm]\<rparr> else ep
              | None \<Rightarrow> ep)
          | _ \<Rightarrow> ep))"

definition drain_sm :: "send_channel_endpoint \<Rightarrow> status_message list \<times> send_channel_endpoint" where
  "drain_sm ep = (sce_recent_sm ep, ep\<lparr>sce_recent_sm := []\<rparr>)"

definition drain_naks :: "send_channel_endpoint \<Rightarrow> nak_header list \<times> send_channel_endpoint" where
  "drain_naks ep = (sce_recent_naks ep, ep\<lparr>sce_recent_naks := []\<rparr>)"

definition drain_rttm_replies :: "send_channel_endpoint \<Rightarrow> rttm_header list \<times> send_channel_endpoint" where
  "drain_rttm_replies ep = (sce_recent_rttms ep, ep\<lparr>sce_recent_rttms := []\<rparr>)"

definition send_data ::
  "'p submit \<Rightarrow> 'p \<Rightarrow> send_channel_endpoint \<Rightarrow> byte list \<Rightarrow> sockaddr_storage option \<Rightarrow> 'p \<times> poll_error option" where
  "send_data submit poller ep data dest =
     (case sce_transport_idx ep of
        None \<Rightarrow> (poller, Some NotRegistered)
      | Some idx \<Rightarrow> submit poller idx data dest)"

definition heartbeat_frame :: "i32 \<Rightarrow> i32 \<Rightarrow> i32 \<Rightarrow> i32 \<Rightarrow> data_header" where
  "heartbeat_frame session_id stream_id term_id term_offset =
     \<lparr>dh_frame_header = \<lparr>fh_frame_length = of_nat DATA_HEADER_LENGTH, fh_version = CURRENT_VERSION,
                          fh_flags = DATA_FLAG_BEGIN OR DATA_FLAG_END, fh_frame_type = FRAME_TYPE_HEARTBEAT\<rparr>,
      dh_term_offset = term_offset, dh_session_id = session_id, dh_stream_id = stream_id,
      dh_term_id = term_id, dh_reserved_value = 0\<rparr>"

definition send_heartbeat ::
  "'p submit \<Rightarrow> 'p \<Rightarrow> send_channel_endpoint \<Rightarrow> i32 \<Rightarrow> i32 \<Rightarrow> i32 \<Rightarrow> i32 \<Rightarrow> sockaddr_storage option \<Rightarrow>
   'p \<times> poll_error option" where
  "send_heartbeat submit poller ep session_id stream_id term_id term_offset dest =
     (case sce_transport_idx ep of
        None \<Rightarrow> (poller, Some NotRegistered)
      | Some idx \<Rightarrow>
          submit poller idx (data_header_bytes (heartbeat_frame session_id stream_id term_id term_offset)) dest)"

definition setup_frame :: "i32 \<Rightarrow> i32 \<Rightarrow> i32 \<Rightarrow> i32 \<Rightarrow> i32 \<Rightarrow> i32 \<Rightarrow> i32 \<Rightarrow> i32 \<Rightarrow> setup_header" where
  "setup_frame session_id stream_id initial_term_id active_term_id term_offset term_length mtu ttl =
     \<lparr>su_frame_header = \<lparr>fh_frame_length = of_nat SETUP_TOTAL_LENGTH, fh_version = CURRENT_VERSION,
                          fh_flags = 0, fh_frame_type = FRAME_TYPE_SETUP\<rparr>,
      su_term_offset = term_offset, su_session_id = session_id, su_stream_id = stream_id,
      su_initial_term_id = initial_term_id, su_active_term_id = active_term_id,
      su_term_length = term_length, su_mtu = mtu, su_ttl = ttl\<rparr>"

definition send_setup ::
  "'p submit \<Rightarrow> 'p \<Rightarrow> send_channel_endpoint \<Rightarrow> i32 \<Rightarrow> i32 \<Rightarrow> i32 \<Rightarrow> i32 \<Rightarrow> i32 \<Rightarrow> i32 \<Rightarrow> i32 \<Rightarrow> i32 \<Rightarrow>
   sockaddr_storage option \<Rightarrow> 'p \<times> poll_error option" where
  "send_setup submit poller ep session_id stream_id initial_term_id active_term_id term_offset
     term_length mtu ttl dest =
     (case sce_transport_idx ep of
        None \<Rightarrow> (poller, Some NotRegistered)
      | Some idx \<Rightarrow>
          submit poller idx (setup_header_bytes (setup_frame session_id stream_id initial_term_id
            active_term_id term_offset term_length mtu ttl)) dest)"

definition rttm_request_frame :: "i32 \<Rightarrow> i32 \<Rightarrow> i64 \<Rightarrow> rttm_header" where
  "rttm_request_frame session_id stream_id echo_timestamp_ns =
     \<lparr>rttm_frame_header = \<lparr>fh_frame_length = of_nat RTTM_TOTAL_LENGTH, fh_version = CURRENT_VERSION,
                            fh_flags = 0, fh_frame_type = FRAME_TYPE_RTTM\<rparr>,
      rttm_session_id = session_id, rttm_stream_id = stream_id,
      rttm_echo_timestamp = echo_timestamp_ns, rttm_reception_delta = 0, rttm_receiver_id = 0\<rparr>"

definition send_rttm ::
  "'p submit \<Rightarrow> 'p \<Rightarrow> send_channel_endpoint \<Rightarrow> i32 \<Rightarrow> i32 \<Rightarrow> i64 \<Rightarrow> sockaddr_storage option \<Rightarrow>
   'p \<times> poll_error option" where
  "send_rttm submit poller ep session_id stream_id echo_timestamp_ns dest =
     (case sce_transport_idx ep of
        None \<Rightarrow> (poller, Some NotRegistered)
      | Some idx \<Rightarrow>
          submit poller idx (rttm_header_bytes (rttm_request_frame session_id stream_id echo_timestamp_ns)) dest)"

section \<open>Well-formed endpoints\<close>

definition rce_wf :: "receive_channel_endpoint \<Rightarrow> bool" where
  "rce_wf ep \<longleftrightarrow> length (rce_pending_sms ep) \<le> MAX_PENDING_SM \<and>
     length (rce_pending_naks ep) \<le> MAX_PENDING_NAK \<and> length (rce_pending_rttms ep) \<le> MAX_PENDING_RTTM"

definition sce_wf :: "send_channel_endpoint \<Rightarrow> bool" where
  "sce_wf ep \<longleftrightarrow> length (sce_recent_sm ep) \<le> MAX_RECENT_SM \<and>
     length (sce_recent_naks ep) \<le> MAX_RECENT_NAK \<and> length (sce_recent_rttms ep) \<le> MAX_RECENT_RTTM"

lemma queue_wf:
  assumes "rce_wf ep"
  shows "rce_wf (queue_sm ep sm)" "rce_wf (queue_nak ep nak)" "rce_wf (queue_rttm ep rttm)"
  using assms by (simp_all add: rce_wf_def queue_sm_def queue_nak_def queue_rttm_def)

lemma rce_on_message_wf:
  "rce_wf ep \<Longrightarrow> rce_wf (fst (rce_on_message on_data on_setup ep h data source))"
  by (auto simp: rce_on_message_def queue_wf split: option.splits frame_type.splits)

lemma sce_on_message_wf: "sce_wf ep \<Longrightarrow> sce_wf (sce_on_message ep data)"
  by (auto simp: sce_on_message_def sce_wf_def split: option.splits frame_type.splits)

lemma send_pending_wf: "rce_wf ep \<Longrightarrow> rce_wf (fst (snd (send_pending submit poller ep)))"
  by (auto simp: send_pending_def rce_wf_def Let_def split: option.splits prod.splits)

lemma new_wf: "rce_wf (receive_channel_endpoint_new receiver_id)" "sce_wf send_channel_endpoint_new"
  by (simp_all add: receive_channel_endpoint_new_def send_channel_endpoint_new_def rce_wf_def sce_wf_def)

lemma drain_wf:
  assumes "sce_wf sep"
  shows "sce_wf (snd (drain_sm sep))" "sce_wf (snd (drain_naks sep))" "sce_wf (snd (drain_rttm_replies sep))"
  using assms by (simp_all add: sce_wf_def drain_sm_def drain_naks_def drain_rttm_replies_def)

section \<open>Frames of the other side\<close>

lemma header_of_frame:
  "frame_header_parse (status_message_bytes sm) = Some (sm_frame_header sm)"
  "frame_header_parse (nak_header_bytes nk) = Some (nak_frame_header nk)"
  "frame_header_parse (setup_header_bytes su) = Some (su_frame_header su)"
  "frame_header_parse (rttm_header_bytes rt) = Some (rttm_frame_header rt)"
  "frame_header_parse (data_header_bytes dh @ payload) = Some (dh_frame_header dh)"
  by (simp_all add: frame_header_parse_def status_message_bytes_def nak_header_bytes_def
      setup_header_bytes_def rttm_header_bytes_def data_header_bytes_def FRAME_HEADER_LENGTH_def fh.parse_bytes)

lemma parse_of_frame:
  "status_message_parse (status_message_bytes sm) = Some sm"
  "nak_header_parse (nak_header_bytes nk) = Some nk"
  "setup_header_parse (setup_header_bytes su) = Some su"
  "rttm_header_parse (rttm_header_bytes rt) = Some rt"
  "data_header_parse (data_header_bytes dh @ payload) = Some dh"
  using sm.parse_bytes [of sm "[]"] nak.parse_bytes [of nk "[]"] su.parse_bytes [of su "[]"]
    rttm.parse_bytes [of rt "[]"] dh.parse_bytes [of dh payload]
  by (simp_all add: header_defs header_lengths)

lemma frame_type_from_simps [simp]:
  "frame_type_from FRAME_TYPE_SM = StatusMessage" "frame_type_from FRAME_TYPE_NAK = Nak"
  "frame_type_from FRAME_TYPE_SETUP = Setup" "frame_type_from FRAME_TYPE_RTTM = Rttm"
  "frame_type_from FRAME_TYPE_DATA = Data" "frame_type_from FRAME_TYPE_PAD = Pad"
  "frame_type_from FRAME_TYPE_HEARTBEAT = Heartbeat"
  by (simp_all add: frame_type_from_def frame_types)

lemma send_all_ok:
  assumes "\<And>p i d a. snd (submit p i d a) = None"
  shows "send_all submit idx frames poller =
    (fold (\<lambda>frame p. fst (submit p idx (fst frame) (Some (snd frame)))) frames poller, length frames, None)"
  by (induction frames arbitrary: poller) (simp_all add: assms Let_def)

text \<open>Delivery straight into the other side's endpoint, as a poller that never fails.\<close>

definition deliver_to_sender :: "send_channel_endpoint submit" where
  "deliver_to_sender sep idx data dest = (sce_on_message sep data, None)"

lemma deliver_sms:
  "length (sce_recent_sm sep) + length ps \<le> MAX_RECENT_SM \<Longrightarrow>
   fold (\<lambda>frame p. fst (deliver_to_sender p idx (fst frame) (Some (snd frame))))
     (map (\<lambda>p. (status_message_bytes (sm_frame p), psm_dest_addr p)) ps) sep
   = sep\<lparr>sce_recent_sm := sce_recent_sm sep @ map sm_frame ps\<rparr>"
  by (induction ps arbitrary: sep)
    (simp_all add: deliver_to_sender_def sce_on_message_def header_of_frame parse_of_frame sm_frame_def)

lemma deliver_naks:
  "length (sce_recent_naks sep) + length ps \<le> MAX_RECENT_NAK \<Longrightarrow>
   fold (\<lambda>frame p. fst (deliver_to_sender p idx (fst frame) (Some (snd frame))))
     (map (\<lambda>p. (nak_header_bytes (nak_frame p), pnak_dest_addr p)) ps) sep
   = sep\<lparr>sce_recent_naks := sce_recent_naks sep @ map nak_frame ps\<rparr>"
  by (induction ps arbitrary: sep)
    (simp_all add: deliver_to_sender_def sce_on_message_def header_of_frame parse_of_frame nak_frame_def)

lemma deliver_rttms:
  "length (sce_recent_rttms sep) + length ps \<le> MAX_RECENT_RTTM \<Longrightarrow>
   fold (\<lambda>frame p. fst (deliver_to_sender p idx (fst frame) (Some (snd frame))))
     (map (\<lambda>p. (rttm_header_bytes (rttm_reply_frame p), prttm_dest_addr p)) ps) sep
   = sep\<lparr>sce_recent_rttms := sce_recent_rttms sep @ map rttm_reply_frame ps\<rparr>"
  by (induction ps arbitrary: sep)
    (simp_all add: deliver_to_sender_def sce_on_message_def header_of_frame parse_of_frame rttm_reply_frame_def
      RTTM_FLAG_REPLY_def)

section \<open>Properties\<close>

text \<open>
  C31: The queues of both endpoints stay within their arrays.  A new endpoint is well formed, and every
  operation that can add to a queue, for every incoming datagram and every behaviour of the poller,
  keeps it so.
\<close>

theorem endpoint_queues_bounded:
  "rce_wf (receive_channel_endpoint_new receiver_id) \<and> sce_wf send_channel_endpoint_new \<and>
   (rce_wf ep \<longrightarrow>
      rce_wf (queue_sm ep sm) \<and> rce_wf (queue_nak ep nak) \<and> rce_wf (queue_rttm ep rttm) \<and>
      rce_wf (fst (rce_on_message on_data on_setup ep h data source)) \<and>
      rce_wf (fst (snd (send_pending submit poller ep)))) \<and>
   (sce_wf sep \<longrightarrow> sce_wf (sce_on_message sep data) \<and> sce_wf (snd (drain_sm sep)) \<and>
      sce_wf (snd (drain_naks sep)) \<and> sce_wf (snd (drain_rttm_replies sep)))"
  by (simp add: new_wf queue_wf drain_wf rce_on_message_wf sce_on_message_wf send_pending_wf)

definition sample_rttm :: pending_rttm where
  "sample_rttm = \<lparr>prttm_dest_addr = [], prttm_session_id = 7, prttm_stream_id = 10,
     prttm_echo_timestamp = 123456, prttm_receiver_id = 9\<rparr>"

definition sample_sm :: pending_sm where
  "sample_sm = \<lparr>psm_dest_addr = [], psm_session_id = 7, psm_stream_id = 10,
     psm_consumption_term_id = 3, psm_consumption_term_offset = 64, psm_receiver_window = 4096,
     psm_receiver_id = 9\<rparr>"

definition sample_nak :: pending_nak where
  "sample_nak = \<lparr>pnak_dest_addr = [], pnak_session_id = 7, pnak_stream_id = 10,
     pnak_active_term_id = 3, pnak_term_offset = 64, pnak_length = 96\<rparr>"

definition sample_endpoint :: receive_channel_endpoint where
  "sample_endpoint = \<lparr>rce_transport_idx = Some 0, rce_receiver_id = 9, rce_pending_sms = [],
     rce_pending_naks = [], rce_pending_rttms = [sample_rttm]\<rparr>"

theorem endpoint_queues_bounded_witness:
  "rce_wf (queue_rttm sample_endpoint sample_rttm) \<and> sce_wf (sce_on_message send_channel_endpoint_new [1, 2, 3])"
  using endpoint_queues_bounded
    [of 9 sample_endpoint sample_sm sample_nak sample_rttm "\<lambda>h d p s. h" "\<lambda>h d s. h" "()" "[1, 2, 3]" "[]"
      "\<lambda>p i d a. (p, None)" "()" send_channel_endpoint_new]
  by (simp add: sample_endpoint_def rce_wf_def MAX_PENDING_SM_def MAX_PENDING_NAK_def MAX_PENDING_RTTM_def)



text \<open>
  A full buffer of recent status messages drops the newest message: the sender keeps the oldest
  reports of the receivers until it drains them.
\<close>

theorem full_endpoint_drops_newest:
  assumes "length (sce_recent_sm ep) = MAX_RECENT_SM"
    and "fh_frame_type (sm_frame_header sm) = FRAME_TYPE_SM"
  shows "sce_on_message ep (status_message_bytes sm) = ep"
  using assms by (simp add: sce_on_message_def header_of_frame parse_of_frame)

definition full_endpoint :: send_channel_endpoint where
  "full_endpoint = send_channel_endpoint_new
     \<lparr>sce_recent_sm := replicate MAX_RECENT_SM (status_message_view (replicate 36 0))\<rparr>"

definition fresh_sm :: status_message where
  "fresh_sm = sm_frame sample_sm"

theorem full_endpoint_drops_newest_witness:
  "sce_on_message full_endpoint (status_message_bytes fresh_sm) = full_endpoint"
  by (rule full_endpoint_drops_newest) (simp_all add: full_endpoint_def fresh_sm_def sm_frame_def)

end
