(* ===== verification/Receiver.thy ===== *)
theory Receiver
  imports Shared_Image Image_Index Bridge Endpoints
begin

text \<open>
  The receiver agent, \<^verbatim>\<open>src/src/agent/receiver.rs\<close>.

  Images are reference-counted objects shared with the subscriptions; they live in the list
  \<open>ra_arcs\<close>, and a handle names its object by position in that list.  The poller, the clock and
  the transport registration are arguments.  \<open>None\<close> is a panic or a write outside an image.
\<close>

unbundle bit_operations_syntax

definition MAX_PENDING_NAKS_PER_CYCLE :: nat where "MAX_PENDING_NAKS_PER_CYCLE = 64"

section \<open>State\<close>

record receiver_handle =
  rh_arc :: nat
  rh_image :: receiver_image

record subscriber_handle =
  sh_arc :: nat
  sh_image :: subscriber_image

record pending_image =
  pi_image :: subscriber_handle
  pi_session_id :: i32
  pi_stream_id :: i32
  pi_correlation_id :: i64

record receiver_agent =
  ra_endpoints :: "receive_channel_endpoint list"
  ra_images :: "image_entry list"
  ra_image_count :: nat
  ra_image_index :: "u16 list"
  ra_image_handles :: "receiver_handle option list"
  ra_max_images :: nat
  ra_sm_interval_ns :: i64
  ra_nak_delay_ns :: i64
  ra_receiver_window_override :: "i32 option"
  ra_send_sm_on_data :: bool
  ra_receiver_id :: i64
  ra_nak_queue :: "pending_nak list"
  ra_sub_bridge :: "pending_image bridge option"
  ra_recv_endpoint_bridge :: "receive_channel_endpoint bridge option"
  ra_arcs :: "image_inner list"

text \<open>The constructor after the configuration has been validated and the poller created.\<close>

definition receiver_agent_new ::
  "nat \<Rightarrow> i64 \<Rightarrow> i64 \<Rightarrow> i32 option \<Rightarrow> bool \<Rightarrow> i64 \<Rightarrow> receiver_agent" where
  "receiver_agent_new max_receiver_images sm_interval_ns nak_delay_ns receiver_window send_sm_on_data receiver_id =
     \<lparr>ra_endpoints = [], ra_images = replicate MAX_IMAGES image_entry_default, ra_image_count = 0,
      ra_image_index = replicate MAX_IMAGES IMAGE_INDEX_EMPTY,
      ra_image_handles = replicate MAX_IMAGES None,
      ra_max_images = min max_receiver_images MAX_IMAGES,
      ra_sm_interval_ns = sm_interval_ns, ra_nak_delay_ns = nak_delay_ns,
      ra_receiver_window_override = receiver_window, ra_send_sm_on_data = send_sm_on_data,
      ra_receiver_id = receiver_id, ra_nak_queue = [], ra_sub_bridge = None,
      ra_recv_endpoint_bridge = None, ra_arcs = []\<rparr>"

definition set_subscription_bridge :: "receiver_agent \<Rightarrow> pending_image bridge \<Rightarrow> receiver_agent" where
  "set_subscription_bridge ra bridge = ra\<lparr>ra_sub_bridge := Some bridge\<rparr>"

definition set_recv_endpoint_bridge ::
  "receiver_agent \<Rightarrow> receive_channel_endpoint bridge \<Rightarrow> receiver_agent" where
  "set_recv_endpoint_bridge ra bridge = ra\<lparr>ra_recv_endpoint_bridge := Some bridge\<rparr>"

definition add_endpoint ::
  "('p \<Rightarrow> 'p \<times> nat option) \<Rightarrow> 'p \<Rightarrow> receiver_agent \<Rightarrow> receive_channel_endpoint \<Rightarrow>
   'p \<times> receiver_agent \<times> nat option" where
  "add_endpoint add_transport poller ra endpoint =
     (let (poller', endpoint', ok) = rce_register add_transport poller endpoint
      in if ok then (poller', ra\<lparr>ra_endpoints := ra_endpoints ra @ [endpoint']\<rparr>,
                     Some (length (ra_endpoints ra)))
         else (poller', ra, None))"

definition has_image :: "receiver_agent \<Rightarrow> i32 \<Rightarrow> i32 \<Rightarrow> bool option" where
  "has_image ra session_id stream_id =
     map_option (\<lambda>r. r \<noteq> None) (find_image_in_index (ra_images ra) (ra_image_index ra) session_id stream_id)"

section \<open>Data frames\<close>

definition half_range32 :: int where "half_range32 = (2 ^ 31 - 1) div 2"
definition half_range64 :: int where "half_range64 = (2 ^ 63 - 1) div 2"

definition set_image :: "receiver_agent \<Rightarrow> nat \<Rightarrow> image_entry \<Rightarrow> receiver_agent" where
  "set_image ra idx img = ra\<lparr>ra_images := (ra_images ra)[idx := img]\<rparr>"

definition set_arc :: "receiver_agent \<Rightarrow> nat \<Rightarrow> image_inner \<Rightarrow> receiver_agent" where
  "set_arc ra arc inner = ra\<lparr>ra_arcs := (ra_arcs ra)[arc := inner]\<rparr>"

definition detect_gap :: "i64 \<Rightarrow> receiver_agent \<Rightarrow> nat \<Rightarrow> data_header \<Rightarrow> receiver_agent" where
  "detect_gap now_ns ra idx data_header =
     (let img = ra_images ra ! idx;
          gap = dh_term_offset data_header - ie_expected_term_offset img
      in if 0 < sint gap \<and> sint gap < half_range32 \<and> dh_term_id data_header = ie_active_term_id img then
           let since_last = now_ns - ie_time_of_last_nak_ns img
           in if 0 \<le> sint since_last \<and> sint (ra_nak_delay_ns ra) \<le> sint since_last then
                let queue =
                  (if length (ra_nak_queue ra) < MAX_PENDING_NAKS_PER_CYCLE
                   then ra_nak_queue ra @
                     [\<lparr>pnak_dest_addr = ie_source_addr img, pnak_session_id = dh_session_id data_header,
                       pnak_stream_id = dh_stream_id data_header,
                       pnak_active_term_id = ie_active_term_id img,
                       pnak_term_offset = ie_expected_term_offset img, pnak_length = gap\<rparr>]
                   else ra_nak_queue ra)
                in (set_image ra idx (img\<lparr>ie_time_of_last_nak_ns := now_ns\<rparr>))\<lparr>ra_nak_queue := queue\<rparr>
              else ra
         else ra)"

definition rotate_image :: "image_entry \<Rightarrow> image_inner \<Rightarrow> i32 \<Rightarrow> image_entry \<times> image_inner" where
  "rotate_image img inner term_id =
     (let term_ahead = term_id - ie_active_term_id img
      in if 0 < sint term_ahead \<and> sint term_ahead < half_range32 then
           let steps = min (unat term_ahead) PARTITION_COUNT
           in (img\<lparr>ie_active_term_id := term_id, ie_consumption_term_id := term_id,
                   ie_consumption_term_offset := 0, ie_expected_term_offset := 0\<rparr>,
               fold (\<lambda>s i. image_clean_partition i
                       (partition_index (ie_active_term_id img + of_nat s) (ie_initial_term_id img)))
                 [1..<Suc steps] inner)
         else (img, inner))"

definition forward32 :: "i32 \<Rightarrow> i32 \<Rightarrow> bool" where
  "forward32 from to \<longleftrightarrow> 0 < sint (to - from) \<and> sint (to - from) < half_range32"

definition track_offsets :: "bool \<Rightarrow> image_entry \<Rightarrow> i32 \<Rightarrow> nat \<Rightarrow> image_entry" where
  "track_offsets send_sm_on_data img term_id new_offset =
     (let aligned_end = of_nat new_offset;
          img1 = (if term_id = ie_consumption_term_id img \<and>
                     forward32 (ie_consumption_term_offset img) aligned_end
                  then img\<lparr>ie_consumption_term_offset := aligned_end\<rparr> else img);
          img2 = (if term_id = ie_active_term_id img1 \<and> forward32 (ie_expected_term_offset img1) aligned_end
                  then img1\<lparr>ie_expected_term_offset := aligned_end\<rparr> else img1)
      in if send_sm_on_data then img2\<lparr>ie_sm_pending := True\<rparr> else img2)"

definition track_position ::
  "image_entry \<Rightarrow> image_inner \<Rightarrow> receiver_image \<Rightarrow> i32 \<Rightarrow> nat \<Rightarrow> image_inner \<times> receiver_image" where
  "track_position img inner ri term_id new_offset =
     (let term_count = scast (term_id - ie_initial_term_id img) :: i64;
          new_pos = term_count * of_nat (ie_term_length img) + of_nat new_offset;
          advance = new_pos - ri_receiver_position_local ri
      in if 0 < sint advance \<and> sint advance < half_range64
         then advance_receiver_position inner ri new_pos else (inner, ri))"

definition write_frame ::
  "receiver_agent \<Rightarrow> nat \<Rightarrow> receiver_handle \<Rightarrow> data_header \<Rightarrow> byte list \<Rightarrow> receiver_agent option" where
  "write_frame ra idx handle data_header payload =
     (let term_id = dh_term_id data_header;
          (img, inner) = rotate_image (ra_images ra ! idx) (ra_arcs ra ! rh_arc handle) term_id;
          ra1 = set_arc (set_image ra idx img) (rh_arc handle) inner
      in if PARTITION_COUNT \<le> unat (ie_active_term_id img - term_id) then Some ra1
         else
           (case image_append_frame inner (partition_index term_id (ie_initial_term_id img))
                   (unat (dh_term_offset data_header)) data_header payload of
              Fault \<Rightarrow> None
            | Err e \<Rightarrow> Some ra1
            | Ok (new_offset, inner1) \<Rightarrow>
                let img1 = track_offsets (ra_send_sm_on_data ra) img term_id new_offset;
                    (inner2, ri) = track_position img1 inner1 (rh_image handle) term_id new_offset
                in Some ((set_arc (set_image ra1 idx img1) (rh_arc handle) inner2)
                     \<lparr>ra_image_handles := (ra_image_handles ra1)[idx := Some (handle\<lparr>rh_image := ri\<rparr>)]\<rparr>)))"

definition on_data :: "i64 \<Rightarrow> receiver_agent \<Rightarrow> data_header \<Rightarrow> byte list \<Rightarrow> receiver_agent option" where
  "on_data now_ns ra data_header payload =
     (case find_image_in_index (ra_images ra) (ra_image_index ra) (dh_session_id data_header)
             (dh_stream_id data_header) of
        None \<Rightarrow> None
      | Some None \<Rightarrow> Some ra
      | Some (Some idx) \<Rightarrow>
          let ra1 = detect_gap now_ns ra idx data_header
          in (case ra_image_handles ra1 ! idx of
                None \<Rightarrow> Some ra1
              | Some handle \<Rightarrow> write_frame ra1 idx handle data_header payload))"

section \<open>Setup frames\<close>

definition setup_image :: "i32 option \<Rightarrow> setup_header \<Rightarrow> sockaddr_storage \<Rightarrow> image_entry" where
  "setup_image receiver_window_override su source =
     \<lparr>ie_session_id = su_session_id su, ie_stream_id = su_stream_id su, ie_endpoint_idx = 0,
      ie_source_addr = source, ie_initial_term_id = su_initial_term_id su,
      ie_active_term_id = su_active_term_id su, ie_term_length = unat (su_term_length su),
      ie_consumption_term_id = su_active_term_id su, ie_consumption_term_offset = su_term_offset su,
      ie_receiver_window =
        (case receiver_window_override of Some w \<Rightarrow> w | None \<Rightarrow> of_int (sint (su_term_length su) div 2)),
      ie_receiver_id = 0, ie_expected_term_offset = su_term_offset su,
      ie_time_of_last_sm_ns = 0, ie_time_of_last_nak_ns = 0, ie_sm_pending = False, ie_active = True\<rparr>"

definition on_setup :: "receiver_agent \<Rightarrow> setup_header \<Rightarrow> sockaddr_storage \<Rightarrow> receiver_agent option" where
  "on_setup ra su source =
     (case find_image_in_index (ra_images ra) (ra_image_index ra) (su_session_id su) (su_stream_id su) of
        None \<Rightarrow> None
      | Some (Some i) \<Rightarrow> Some ra
      | Some None \<Rightarrow>
          if ra_max_images ra \<le> ra_image_count ra then Some ra
          else if sint (su_term_length su) < 32 \<or> \<not> is_power_of_two (unat (su_term_length su)) then Some ra
          else
            (case new_shared_image (su_session_id su) (su_stream_id su) (su_initial_term_id su)
                    (su_active_term_id su) (unat (su_term_length su)) (su_term_offset su) of
               None \<Rightarrow> Some ra
             | Some (inner, recv_image, sub_image) \<Rightarrow>
                 let idx = ra_image_count ra; arc = length (ra_arcs ra);
                     pending = \<lparr>pi_image = \<lparr>sh_arc = arc, sh_image = sub_image\<rparr>,
                       pi_session_id = su_session_id su, pi_stream_id = su_stream_id su,
                       pi_correlation_id = 0\<rparr>
                 in Some (ra
                      \<lparr>ra_images := (ra_images ra)
                         [idx := setup_image (ra_receiver_window_override ra) su source],
                       ra_image_handles := (ra_image_handles ra)
                         [idx := Some \<lparr>rh_arc = arc, rh_image = recv_image\<rparr>],
                       ra_arcs := ra_arcs ra @ [inner],
                       ra_sub_bridge := map_option (\<lambda>b. fst (bridge_deposit b pending)) (ra_sub_bridge ra),
                       ra_image_index :=
                         insert_image_index (ra_image_index ra) idx (su_session_id su) (su_stream_id su),
                       ra_image_count := idx + 1\<rparr>)))"

section \<open>Removing an image\<close>

definition close_handle :: "receiver_agent \<Rightarrow> nat \<Rightarrow> receiver_agent" where
  "close_handle ra idx =
     (case ra_image_handles ra ! idx of
        None \<Rightarrow> ra
      | Some h \<Rightarrow> set_arc ra (rh_arc h) (image_close (ra_arcs ra ! rh_arc h)))
     \<lparr>ra_image_handles := (ra_image_handles ra)[idx := None]\<rparr>"

definition remove_image :: "receiver_agent \<Rightarrow> i32 \<Rightarrow> i32 \<Rightarrow> (receiver_agent \<times> bool) option" where
  "remove_image ra session_id stream_id =
     (case find_image_in_index (ra_images ra) (ra_image_index ra) session_id stream_id of
        None \<Rightarrow> None
      | Some None \<Rightarrow> Some (ra, False)
      | Some (Some idx) \<Rightarrow>
         (case remove_image_index (ra_image_index ra) (ra_images ra) session_id stream_id of
            None \<Rightarrow> None
          | Some index1 \<Rightarrow>
              let images1 = (ra_images ra)[idx := (ra_images ra ! idx)\<lparr>ie_active := False\<rparr>];
                  ra1 = close_handle (ra\<lparr>ra_image_index := index1, ra_images := images1\<rparr>) idx;
                  last = ra_image_count ra - 1
              in if idx = last
                 then Some (ra1\<lparr>ra_images := images1[last := image_entry_default],
                                ra_image_count := last\<rparr>, True)
                 else
                   let moved_session = ie_session_id (images1 ! last);
                       moved_stream = ie_stream_id (images1 ! last)
                   in (case remove_image_index index1 images1 moved_session moved_stream of
                         None \<Rightarrow> None
                       | Some index2 \<Rightarrow>
                           Some (ra1
                             \<lparr>ra_images := images1[idx := images1 ! last, last := image_entry_default],
                              ra_image_handles := (ra_image_handles ra1)
                                [idx := ra_image_handles ra1 ! last, last := None],
                              ra_image_index := insert_image_index index2 idx moved_session moved_stream,
                              ra_image_count := last\<rparr>, True))))"

section \<open>The duty cycle\<close>

definition dispatch_message :: "i64 \<Rightarrow> receiver_agent option \<Rightarrow> recv_message \<Rightarrow> receiver_agent option" where
  "dispatch_message now_ns agent msg =
     (case agent of
        None \<Rightarrow> None
      | Some ra \<Rightarrow>
          let idx = msg_transport_idx msg
          in if length (ra_endpoints ra) \<le> idx then Some ra
             else
               let (ep, ra', handled) =
                     rce_on_message
                       (\<lambda>h dh payload source. Option.bind h (\<lambda>r. on_data now_ns r dh payload))
                       (\<lambda>h su source. Option.bind h (\<lambda>r. on_setup r su source))
                       (ra_endpoints ra ! idx) (Some ra) (msg_data msg) (msg_source_addr msg)
               in map_option (\<lambda>r. r\<lparr>ra_endpoints := (ra_endpoints r)[idx := ep]\<rparr>) ra')"

text \<open>
  \<open>poll_recv\<close> hands over the datagrams of this cycle and the number it counted, or nothing on an error.
\<close>

definition poll_data ::
  "('p \<Rightarrow> 'p \<times> recv_message list \<times> nat option) \<Rightarrow> i64 \<Rightarrow> 'p \<Rightarrow> receiver_agent \<Rightarrow>
   ('p \<times> receiver_agent \<times> nat) option" where
  "poll_data poll_recv now_ns poller ra =
     (let (poller', msgs, received) = poll_recv poller
      in map_option (\<lambda>r. (poller', r, case received of Some n \<Rightarrow> n | None \<Rightarrow> 0))
           (foldl (dispatch_message now_ns) (Some ra) msgs))"

definition image_sm :: "receiver_agent \<Rightarrow> image_entry \<Rightarrow> pending_sm" where
  "image_sm ra img =
     \<lparr>psm_dest_addr = ie_source_addr img, psm_session_id = ie_session_id img,
      psm_stream_id = ie_stream_id img, psm_consumption_term_id = ie_consumption_term_id img,
      psm_consumption_term_offset = ie_consumption_term_offset img,
      psm_receiver_window = ie_receiver_window img, psm_receiver_id = ra_receiver_id ra\<rparr>"

definition queue_image_sm :: "i64 \<Rightarrow> receiver_agent \<times> nat \<Rightarrow> nat \<Rightarrow> receiver_agent \<times> nat" where
  "queue_image_sm now_ns acc i =
     (let ra = fst acc; img = ra_images ra ! i
      in if \<not> ie_active img then acc
         else if sint (ra_sm_interval_ns ra) < sint (now_ns - ie_time_of_last_sm_ns img) \<or> ie_sm_pending img then
           let ra' = set_image ra i (img\<lparr>ie_time_of_last_sm_ns := now_ns, ie_sm_pending := False\<rparr>);
               ep_idx = ie_endpoint_idx img
           in if ep_idx < length (ra_endpoints ra)
              then (ra'\<lparr>ra_endpoints := (ra_endpoints ra)
                          [ep_idx := queue_sm (ra_endpoints ra ! ep_idx) (image_sm ra img)]\<rparr>, snd acc + 1)
              else (ra', snd acc)
         else acc)"

definition drain_nak :: "(receiver_agent \<times> nat) option \<Rightarrow> pending_nak \<Rightarrow> (receiver_agent \<times> nat) option" where
  "drain_nak acc nak =
     (case acc of
        None \<Rightarrow> None
      | Some (ra, work) \<Rightarrow>
         (case find_image_in_index (ra_images ra) (ra_image_index ra) (pnak_session_id nak) (pnak_stream_id nak) of
            None \<Rightarrow> None
          | Some None \<Rightarrow> Some (ra, work)
          | Some (Some idx) \<Rightarrow>
              let ep_idx = ie_endpoint_idx (ra_images ra ! idx)
              in if ep_idx < length (ra_endpoints ra)
                 then Some (ra\<lparr>ra_endpoints := (ra_endpoints ra)
                              [ep_idx := queue_nak (ra_endpoints ra ! ep_idx) nak]\<rparr>, work + 1)
                 else Some (ra, work)))"

fun flush_endpoints ::
  "'p submit \<Rightarrow> 'p \<Rightarrow> receive_channel_endpoint list \<Rightarrow> 'p \<times> receive_channel_endpoint list \<times> nat" where
  "flush_endpoints submit poller [] = (poller, [], 0)"
| "flush_endpoints submit poller (ep # eps) =
     (let (poller1, ep1, r) = send_pending submit poller ep;
          (poller2, eps1, n) = flush_endpoints submit poller1 eps
      in (poller2, ep1 # eps1, (case r of Inr k \<Rightarrow> k | Inl e \<Rightarrow> 0) + n))"

definition send_control_messages ::
  "'p submit \<Rightarrow> ('p \<Rightarrow> 'p) \<Rightarrow> i64 \<Rightarrow> 'p \<Rightarrow> receiver_agent \<Rightarrow> ('p \<times> receiver_agent \<times> nat) option" where
  "send_control_messages submit flush now_ns poller ra =
     (let queued = foldl (queue_image_sm now_ns) (ra, 0) [0..<ra_image_count ra]
      in (case foldl drain_nak (Some queued) (ra_nak_queue ra) of
            None \<Rightarrow> None
          | Some (ra1, work) \<Rightarrow>
              let (poller1, eps, n) = flush_endpoints submit poller (ra_endpoints ra1)
              in Some (flush poller1, ra1\<lparr>ra_nak_queue := [], ra_endpoints := eps\<rparr>, work + n)))"

fun poll_bridge_slots ::
  "('p \<Rightarrow> 'p \<times> nat option) \<Rightarrow> 'p \<Rightarrow> receive_channel_endpoint bridge \<Rightarrow> receive_channel_endpoint list \<Rightarrow>
   nat list \<Rightarrow> 'p \<times> receive_channel_endpoint bridge \<times> receive_channel_endpoint list \<times> nat" where
  "poll_bridge_slots add_transport poller bridge eps [] = (poller, bridge, eps, 0)"
| "poll_bridge_slots add_transport poller bridge eps (i # is) =
     (case bridge_try_take bridge i of
        (bridge1, None) \<Rightarrow> poll_bridge_slots add_transport poller bridge1 eps is
      | (bridge1, Some endpoint) \<Rightarrow>
          let (poller1, endpoint1, ok) = rce_register add_transport poller endpoint
          in if \<not> ok then poll_bridge_slots add_transport poller1 bridge1 eps is
             else
               let (p, b, e, n) = poll_bridge_slots add_transport poller1 bridge1 (eps @ [endpoint1]) is
               in (p, b, e, n + 1))"

definition poll_recv_endpoint_bridge ::
  "('p \<Rightarrow> 'p \<times> nat option) \<Rightarrow> 'p \<Rightarrow> receiver_agent \<Rightarrow> 'p \<times> receiver_agent \<times> nat" where
  "poll_recv_endpoint_bridge add_transport poller ra =
     (case ra_recv_endpoint_bridge ra of
        None \<Rightarrow> (poller, ra, 0)
      | Some bridge \<Rightarrow>
          let (poller', bridge', eps, n) =
                poll_bridge_slots add_transport poller bridge (ra_endpoints ra) [0..<length bridge]
          in (poller', ra\<lparr>ra_recv_endpoint_bridge := Some bridge', ra_endpoints := eps\<rparr>, n))"

definition receiver_do_work ::
  "('p \<Rightarrow> 'p \<times> nat option) \<Rightarrow> ('p \<Rightarrow> 'p \<times> recv_message list \<times> nat option) \<Rightarrow> 'p submit \<Rightarrow> ('p \<Rightarrow> 'p) \<Rightarrow>
   i64 \<Rightarrow> 'p \<Rightarrow> receiver_agent \<Rightarrow> ('p \<times> receiver_agent \<times> nat) option" where
  "receiver_do_work add_transport poll_recv submit flush now_ns poller ra =
     (let (poller0, ra0, n0) = poll_recv_endpoint_bridge add_transport poller ra
      in (case poll_data poll_recv now_ns poller0 ra0 of
            None \<Rightarrow> None
          | Some (poller1, ra1, n1) \<Rightarrow>
             (case send_control_messages submit flush now_ns poller1 ra1 of
                None \<Rightarrow> None
              | Some (poller2, ra2, n2) \<Rightarrow> Some (poller2, ra2, n0 + n1 + n2))))"

section \<open>The invariant\<close>

text \<open>
  Entry \<open>i\<close> of the table and its image object agree on the fixed parameters.  The object is in a
  well-formed state: its buffer has four terms of the configured length.
\<close>

definition image_ok :: "image_entry \<Rightarrow> image_inner \<Rightarrow> bool" where
  "image_ok img inner \<longleftrightarrow> ie_active img \<and> image_static inner \<and>
     length (slb_buffer (ii_log inner)) = 4 * ii_term_length inner \<and>
     slb_term_length (ii_log inner) = ii_term_length inner \<and>
     ie_term_length img = ii_term_length inner \<and> ie_initial_term_id img = ii_initial_term_id inner \<and>
     ie_session_id img = ii_session_id inner \<and> ie_stream_id img = ii_stream_id inner"

definition handle_ok :: "receiver_agent \<Rightarrow> nat \<Rightarrow> bool" where
  "handle_ok ra i \<longleftrightarrow>
     (\<exists>h. ra_image_handles ra ! i = Some h \<and> rh_arc h < length (ra_arcs ra) \<and>
        image_ok (ra_images ra ! i) (ra_arcs ra ! rh_arc h))"

definition receiver_inv :: "receiver_agent \<Rightarrow> bool" where
  "receiver_inv ra \<longleftrightarrow>
     ra_image_count ra \<le> ra_max_images ra \<and> ra_max_images ra \<le> MAX_IMAGES \<and>
     length (ra_image_handles ra) = MAX_IMAGES \<and>
     index_inv (ra_images ra) (ra_image_index ra) {..<ra_image_count ra} \<and>
     (\<forall>i < ra_image_count ra. handle_ok ra i) \<and>
     (\<forall>i < ra_image_count ra. \<forall>j < ra_image_count ra.
        map_option rh_arc (ra_image_handles ra ! i) = map_option rh_arc (ra_image_handles ra ! j) \<longrightarrow> i = j)"

definition image_keys :: "receiver_agent \<Rightarrow> (i32 \<times> i32) set" where
  "image_keys ra = (\<lambda>i. image_key (ra_images ra ! i)) ` {..<ra_image_count ra}"

lemma receiver_invD:
  assumes "receiver_inv ra"
  shows "ra_image_count ra \<le> ra_max_images ra" "ra_max_images ra \<le> MAX_IMAGES"
    "length (ra_image_handles ra) = MAX_IMAGES" "length (ra_images ra) = MAX_IMAGES"
    "index_inv (ra_images ra) (ra_image_index ra) {..<ra_image_count ra}"
    "\<And>i. i < ra_image_count ra \<Longrightarrow> handle_ok ra i"
    "\<And>i. i < ra_image_count ra \<Longrightarrow> ie_active (ra_images ra ! i)"
  using assms by (auto simp: receiver_inv_def index_inv_def handle_ok_def image_ok_def)

lemma handle_arcs_inj:
  "receiver_inv ra \<Longrightarrow> i < ra_image_count ra \<Longrightarrow> j < ra_image_count ra \<Longrightarrow>
   map_option rh_arc (ra_image_handles ra ! i) = map_option rh_arc (ra_image_handles ra ! j) \<Longrightarrow> i = j"
  unfolding receiver_inv_def by blast

lemma handles_distinct:
  assumes "receiver_inv ra" "i < ra_image_count ra" "j < ra_image_count ra"
    and "ra_image_handles ra ! i = Some h" "ra_image_handles ra ! j = Some k" "rh_arc h = rh_arc k"
  shows "i = j"
  using assms unfolding receiver_inv_def by auto

lemma find_image:
  assumes "receiver_inv ra"
  shows "(\<exists>i. find_image_in_index (ra_images ra) (ra_image_index ra) s t = Some (Some i) \<and>
      i < ra_image_count ra \<and> image_key (ra_images ra ! i) = (s, t)) \<or>
    find_image_in_index (ra_images ra) (ra_image_index ra) s t = Some None \<and> (s, t) \<notin> image_keys ra"
proof -
  note inv = receiver_invD [OF assms]
  show ?thesis
  proof (cases "(s, t) \<in> image_keys ra")
    case True
    then obtain i where "i < ra_image_count ra" "image_key (ra_images ra ! i) = (s, t)"
      by (auto simp: image_keys_def)
    then show ?thesis using image_index.find_some [OF inv(5), of i "(s, t)"] inv(7) by auto
  next
    case False
    then have "image_key (ra_images ra ! i) \<noteq> (s, t)" if "i < ra_image_count ra" for i
      using that by (force simp: image_keys_def)
    then show ?thesis using image_index.find_none [OF inv(5), of "(s, t)"] False by simp
  qed
qed

section \<open>Frames keep the image in shape\<close>

lemma clean_image_ok: "image_ok img inner \<Longrightarrow> image_ok img (image_clean_partition inner idx)"
proof -
  assume ok: "image_ok img inner"
  have "length (slb_buffer (shared_log_clean_partition (ii_log inner) idx)) = length (slb_buffer (ii_log inner))"
  proof (cases "PARTITION_COUNT \<le> idx")
    case False
    then have "(idx + 1) * ii_term_length inner \<le> 4 * ii_term_length inner"
      by (intro mult_right_mono) (simp_all add: PARTITION_COUNT_def)
    then show ?thesis using False ok by (simp add: shared_log_clean_partition_def image_ok_def algebra_simps)
  qed (simp add: shared_log_clean_partition_def)
  then show ?thesis
    using ok by (simp add: image_ok_def image_static_def image_clean_partition_def shared_log_clean_partition_def)
qed

lemma fold_clean_ok: "image_ok img inner \<Longrightarrow> image_ok img (fold (\<lambda>s i. image_clean_partition i (f s)) ss inner)"
  by (induction ss arbitrary: inner) (simp_all add: clean_image_ok)

lemma image_ok_entry:
  "image_ok img inner \<Longrightarrow> ie_active img' = ie_active img \<Longrightarrow> ie_term_length img' = ie_term_length img \<Longrightarrow>
   ie_initial_term_id img' = ie_initial_term_id img \<Longrightarrow> image_key img' = image_key img \<Longrightarrow> image_ok img' inner"
  by (simp add: image_ok_def image_key_def)

lemma rotate_image_ok:
  assumes "image_ok img inner" "rotate_image img inner term_id = (img', inner')"
  shows "image_ok img' inner'" "image_key img' = image_key img"
proof -
  have "image_ok img inner'" using assms fold_clean_ok [OF assms(1)]
    by (auto simp: rotate_image_def Let_def split: if_splits simp del: upt_Suc)
  moreover have "ie_active img' = ie_active img" "ie_term_length img' = ie_term_length img"
    "ie_initial_term_id img' = ie_initial_term_id img" "image_key img' = image_key img"
    using assms(2) by (auto simp: rotate_image_def image_key_def Let_def split: if_splits simp del: upt_Suc)
  ultimately show "image_ok img' inner'" "image_key img' = image_key img" by (auto intro: image_ok_entry)
qed

lemma append_frame_ok:
  assumes ok: "image_ok img inner" and off: "off < 2 ^ 31" and pl: "length payload < 2 ^ 30"
  shows "image_append_frame inner idx off header payload \<noteq> Fault"
    and "image_append_frame inner idx off header payload = Ok (n, inner') \<Longrightarrow>
      image_ok img inner' \<and> n \<le> ii_term_length inner \<and> ii_receiver_position inner' = ii_receiver_position inner"
proof -
  let ?t = "ii_term_length inner" let ?r = "32 + length payload"
  let ?b = "idx * ?t + off" let ?n = "off + align_frame_length ?r"
  have r: "align_frame_length ?r \<le> ?r + 31" "?r \<le> align_frame_length ?r" using align_lt [of ?r] align_ge [of ?r] by simp_all
  have wrap: "align_frame_length ?r mod 2 ^ 32 = align_frame_length ?r" "?n mod 2 ^ 32 = ?n"
    using r off pl by simp_all
  have "image_append_frame inner idx off header payload \<noteq> Fault \<and>
    (image_append_frame inner idx off header payload = Ok (n, inner') \<longrightarrow>
      image_ok img inner' \<and> n \<le> ?t \<and> ii_receiver_position inner' = ii_receiver_position inner)"
  proof (cases "PARTITION_COUNT \<le> idx \<or> ?t < ?n")
    case True
    then show ?thesis using wrap by (auto simp: image_append_frame_def DATA_HEADER_LENGTH_def Let_def)
  next
    case False
    have "idx * ?t + ?t \<le> 4 * ?t"
      using False mult_le_mono1 [of "Suc idx" 4 ?t] by (simp add: PARTITION_COUNT_def add.commute)
    moreover have "length (slb_buffer (ii_log inner)) = 4 * ?t" using ok by (simp add: image_ok_def)
    moreover have "?n \<le> ?t" using False by simp
    ultimately have room: "?b + ?r \<le> length (slb_buffer (ii_log inner))" using r(2) by linarith
    then show ?thesis using False wrap ok
      by (auto simp: image_append_frame_def DATA_HEADER_LENGTH_def Let_def write_at_def dh.length_bytes
          atomic_frame_length_store_def image_ok_def image_static_def set_image_buffer_def)
  qed
  then show "image_append_frame inner idx off header payload \<noteq> Fault"
    "image_append_frame inner idx off header payload = Ok (n, inner') \<Longrightarrow>
      image_ok img inner' \<and> n \<le> ii_term_length inner \<and> ii_receiver_position inner' = ii_receiver_position inner"
    by blast+
qed

lemma track_ok:
  assumes "image_ok img inner"
  shows "image_ok (track_offsets b img t n) (fst (track_position img' inner ri t n))"
    "image_key (track_offsets b img t n) = image_key img"
  using assms
  by (auto simp: track_offsets_def track_position_def Let_def advance_receiver_position_def image_ok_def
      image_static_def image_key_def)

section \<open>The operations keep the invariant\<close>

lemma receiver_inv_update:
  assumes inv: "receiver_inv ra" and i: "i < ra_image_count ra" and h: "ra_image_handles ra ! i = Some h"
    and h': "rh_arc h' = rh_arc h" and ok: "image_ok img inner" and key: "image_key img = image_key (ra_images ra ! i)"
    and ra': "ra_image_count ra' = ra_image_count ra" "ra_max_images ra' = ra_max_images ra"
      "ra_image_index ra' = ra_image_index ra" "ra_images ra' = (ra_images ra)[i := img]"
      "ra_arcs ra' = (ra_arcs ra)[rh_arc h := inner]"
      "ra_image_handles ra' = (ra_image_handles ra)[i := Some h']"
  shows "receiver_inv ra'" "image_keys ra' = image_keys ra"
proof -
  note D = receiver_invD [OF inv]
  have len: "i < MAX_IMAGES" using i D(1,2) by simp
  have keys: "image_key ((ra_images ra)[i := img] ! j) = image_key (ra_images ra ! j)" for j
    using key len D(4) by (cases "j = i") simp_all
  have idx: "index_inv (ra_images ra') (ra_image_index ra') {..<ra_image_count ra'}"
    unfolding ra' by (rule image_index.inv_frame [OF D(5)]) (simp_all add: keys)
  have arcs: "map_option rh_arc (ra_image_handles ra' ! j) = map_option rh_arc (ra_image_handles ra ! j)" for j
    using h h' len D(3) by (cases "j = i") (simp_all add: ra')
  have arc: "rh_arc h < length (ra_arcs ra)" using D(6) [OF i] h by (auto simp: handle_ok_def)
  have "handle_ok ra' j" if j: "j < ra_image_count ra" for j
  proof (cases "j = i")
    case True
    then show ?thesis using len D(3,4) arc ok h' by (simp add: handle_ok_def ra')
  next
    case False
    obtain k where k: "ra_image_handles ra ! j = Some k" "rh_arc k < length (ra_arcs ra)"
        "image_ok (ra_images ra ! j) (ra_arcs ra ! rh_arc k)"
      using D(6) [OF j] by (auto simp: handle_ok_def)
    then have "rh_arc k \<noteq> rh_arc h" using handles_distinct [OF inv j i k(1) h] False by auto
    then show ?thesis using k False by (simp add: handle_ok_def ra')
  qed
  then show "receiver_inv ra'"
    using inv idx arcs by (simp add: receiver_inv_def ra'(1,2) ra'(6))
  show "image_keys ra' = image_keys ra" by (simp add: image_keys_def ra' keys)
qed

lemma detect_gap_fields:
  "ra_image_count (detect_gap now ra i dh) = ra_image_count ra"
  "ra_max_images (detect_gap now ra i dh) = ra_max_images ra"
  "ra_image_index (detect_gap now ra i dh) = ra_image_index ra"
  "ra_arcs (detect_gap now ra i dh) = ra_arcs ra"
  "ra_image_handles (detect_gap now ra i dh) = ra_image_handles ra"
  "ra_endpoints (detect_gap now ra i dh) = ra_endpoints ra"
  "ra_send_sm_on_data (detect_gap now ra i dh) = ra_send_sm_on_data ra"
  "\<exists>t. ra_images (detect_gap now ra i dh) = (ra_images ra)[i := (ra_images ra ! i)\<lparr>ie_time_of_last_nak_ns := t\<rparr>]"
proof -
  let ?img = "ra_images ra ! i" let ?gap = "dh_term_offset dh - ie_expected_term_offset ?img"
  let ?since = "now - ie_time_of_last_nak_ns ?img"
  let ?due = "0 < sint ?gap \<and> sint ?gap < half_range32 \<and> dh_term_id dh = ie_active_term_id ?img \<and>
    0 \<le> sint ?since \<and> sint (ra_nak_delay_ns ra) \<le> sint ?since"
  show "\<exists>t. ra_images (detect_gap now ra i dh) = (ra_images ra)[i := ?img\<lparr>ie_time_of_last_nak_ns := t\<rparr>]"
  proof (cases ?due)
    case True
    then show ?thesis by (intro exI [of _ now]) (simp add: detect_gap_def Let_def set_image_def)
  next
    case False
    then have "ra_images (detect_gap now ra i dh) = ra_images ra" by (auto simp: detect_gap_def Let_def)
    then show ?thesis by (intro exI [of _ "ie_time_of_last_nak_ns ?img"]) simp
  qed
qed (simp_all add: detect_gap_def set_image_def Let_def)

lemma update_same: "xs ! i = y \<Longrightarrow> xs[i := y] = xs"
  by (metis list_update_id)

lemma detect_gap_inv:
  assumes inv: "receiver_inv ra" and i: "i < ra_image_count ra"
  shows "receiver_inv (detect_gap now ra i dh)" "image_keys (detect_gap now ra i dh) = image_keys ra"
proof -
  obtain t where t: "ra_images (detect_gap now ra i dh) =
      (ra_images ra)[i := (ra_images ra ! i)\<lparr>ie_time_of_last_nak_ns := t\<rparr>]"
    by (rule exE [OF detect_gap_fields(8)])
  obtain h where h: "ra_image_handles ra ! i = Some h" "rh_arc h < length (ra_arcs ra)"
      "image_ok (ra_images ra ! i) (ra_arcs ra ! rh_arc h)"
    using receiver_invD(6) [OF inv i] by (auto simp: handle_ok_def)
  have ok: "image_ok ((ra_images ra ! i)\<lparr>ie_time_of_last_nak_ns := t\<rparr>) (ra_arcs ra ! rh_arc h)"
    by (rule image_ok_entry [OF h(3)]) (simp_all add: image_key_def)
  have key: "image_key ((ra_images ra ! i)\<lparr>ie_time_of_last_nak_ns := t\<rparr>) = image_key (ra_images ra ! i)"
    by (simp add: image_key_def)
  note upd = receiver_inv_update [OF inv i h(1) refl ok key detect_gap_fields(1-3) t]
  show "receiver_inv (detect_gap now ra i dh)" "image_keys (detect_gap now ra i dh) = image_keys ra"
    by (rule upd; simp add: detect_gap_fields(4,5) update_same h(1))+
qed

lemma write_frame_inv:
  assumes inv: "receiver_inv ra" and i: "i < ra_image_count ra" and h: "ra_image_handles ra ! i = Some h"
    and off: "0 \<le> sint (dh_term_offset dh)" and pl: "length payload < 2 ^ 30"
  shows "\<exists>ra'. write_frame ra i h dh payload = Some ra' \<and> receiver_inv ra' \<and> image_keys ra' = image_keys ra \<and>
    ra_endpoints ra' = ra_endpoints ra"
proof -
  obtain img inner where rot: "rotate_image (ra_images ra ! i) (ra_arcs ra ! rh_arc h) (dh_term_id dh) = (img, inner)"
    by (cases "rotate_image (ra_images ra ! i) (ra_arcs ra ! rh_arc h) (dh_term_id dh)")
  have ok0: "image_ok (ra_images ra ! i) (ra_arcs ra ! rh_arc h)"
    using receiver_invD(6) [OF inv i] h by (auto simp: handle_ok_def)
  note ok = rotate_image_ok [OF ok0 rot]
  let ?ra1 = "set_arc (set_image ra i img) (rh_arc h) inner"
  have inv1: "receiver_inv ?ra1" "image_keys ?ra1 = image_keys ra"
    using receiver_inv_update [OF inv i h refl ok, of ?ra1] h i receiver_invD(1-3) [OF inv]
    by (simp_all add: set_arc_def set_image_def update_same)
  let ?idx = "partition_index (dh_term_id dh) (ie_initial_term_id img)" and ?off = "unat (dh_term_offset dh)"
  have off': "?off < 2 ^ 31"
    using sint_nonneg(1) [OF off] by simp
  show ?thesis
  proof (cases "PARTITION_COUNT \<le> unat (ie_active_term_id img - dh_term_id dh)")
    case True
    then show ?thesis using inv1 rot by (simp add: write_frame_def set_arc_def set_image_def)
  next
    case False
    show ?thesis
    proof (cases "image_append_frame inner ?idx ?off dh payload")
      case (Ok r)
      then obtain n inner1 where r: "image_append_frame inner ?idx ?off dh payload = Ok (n, inner1)"
        by (cases r) simp
      have ok1: "image_ok img inner1" using append_frame_ok(2) [OF ok(1) off' pl r] by simp
      obtain inner2 ri where tr: "track_position (track_offsets (ra_send_sm_on_data ra) img (dh_term_id dh) n)
          inner1 (rh_image h) (dh_term_id dh) n = (inner2, ri)" by fastforce
      let ?img = "track_offsets (ra_send_sm_on_data ra) img (dh_term_id dh) n"
      have ok2: "image_ok ?img inner2" "image_key ?img = image_key (ra_images ra ! i)"
        using track_ok(1) [OF ok1, where img' = ?img and t = "dh_term_id dh" and n = n and ri = "rh_image h"]
          track_ok(2) [OF ok1] tr ok(2) by auto
      define ra' where "ra' = (set_arc (set_image ?ra1 i ?img) (rh_arc h) inner2)
        \<lparr>ra_image_handles := (ra_image_handles ?ra1)[i := Some (h\<lparr>rh_image := ri\<rparr>)]\<rparr>"
      have "write_frame ra i h dh payload = Some ra'"
        using False rot r tr by (simp add: write_frame_def Let_def ra'_def)
      moreover have "receiver_inv ra'" "image_keys ra' = image_keys ra"
        using receiver_inv_update [OF inv i h _ ok2, of "h\<lparr>rh_image := ri\<rparr>" ra']
        by (simp_all add: ra'_def set_arc_def set_image_def)
      ultimately show ?thesis by (simp add: ra'_def set_arc_def set_image_def)
    next
      case (Err e)
      then show ?thesis using False inv1 rot by (simp add: write_frame_def set_arc_def set_image_def)
    next
      case Fault
      then show ?thesis using append_frame_ok(1) [OF ok(1) off' pl] by simp
    qed
  qed
qed

lemma on_data_inv:
  assumes inv: "receiver_inv ra"
    and off: "0 \<le> sint (dh_term_offset dh)" and pl: "length payload < 2 ^ 30"
  shows "\<exists>ra'. on_data now ra dh payload = Some ra' \<and> receiver_inv ra' \<and> image_keys ra' = image_keys ra \<and>
    ra_endpoints ra' = ra_endpoints ra"
proof -
  let ?f = "find_image_in_index (ra_images ra) (ra_image_index ra) (dh_session_id dh) (dh_stream_id dh)"
  consider i where "?f = Some (Some i)" "i < ra_image_count ra" | "?f = Some None"
    using find_image [OF inv] by blast
  then show ?thesis
  proof cases
    case (1 i)
    note inv1 = detect_gap_inv [OF inv 1(2), of now dh]
    obtain h where h: "ra_image_handles (detect_gap now ra i dh) ! i = Some h"
      using receiver_invD(6) [OF inv1(1), of i] 1(2) by (auto simp: handle_ok_def detect_gap_fields)
    show ?thesis
      using write_frame_inv [OF inv1(1) _ h off pl] 1 inv1(2) h
      by (simp add: on_data_def Let_def detect_gap_fields)
  next
    case 2
    then show ?thesis using inv by (simp add: on_data_def)
  qed
qed

definition setup_accepted :: "receiver_agent \<Rightarrow> setup_header \<Rightarrow> bool" where
  "setup_accepted ra su \<longleftrightarrow> (su_session_id su, su_stream_id su) \<notin> image_keys ra \<and>
     ra_image_count ra < ra_max_images ra \<and> 32 \<le> sint (su_term_length su) \<and>
     is_power_of_two (unat (su_term_length su))"

lemma new_shared_image_ok:
  assumes "32 \<le> sint tlen" "is_power_of_two (unat (tlen :: i32))"
  obtains inner ri si where "new_shared_image s t i a (unat tlen) off = Some (inner, ri, si)"
    "image_static inner" "length (slb_buffer (ii_log inner)) = 4 * unat tlen" "slb_term_length (ii_log inner) = unat tlen"
    "ii_term_length inner = unat tlen" "ii_initial_term_id inner = i" "ii_session_id inner = s" "ii_stream_id inner = t"
proof -
  have nn: "sint tlen = int (unat tlen)" "unat tlen < 2 ^ 31"
    using sint_nonneg [of tlen] assms(1) by simp_all
  have ge: "32 \<le> unat tlen" using assms(1) nn(1) by linarith
  obtain k where k: "unat tlen = 2 ^ k" using assms(2) by (auto simp: is_power_of_two_iff)
  then have "(2 :: nat) ^ k < 2 ^ 31" using nn(2) by simp
  then have "k \<le> 30" by (simp only: power_strict_increasing_iff)
  then have le: "unat tlen \<le> 2 ^ 30" unfolding k by (rule power_increasing) simp
  have log: "shared_log_buffer_new (unat tlen) =
      Some \<lparr>slb_buffer = replicate (unat tlen * PARTITION_COUNT) 0, slb_term_length = unat tlen\<rparr>"
    using assms(2) ge by (simp add: shared_log_buffer_new_def term_constants)
  then obtain inner ri si where new: "new_shared_image s t i a (unat tlen) off = Some (inner, ri, si)"
    by (simp add: new_shared_image_def Let_def)
  show thesis
    by (rule that [OF new]) (use new log assms(2) ge le in
      \<open>auto simp: new_shared_image_def image_static_def PARTITION_COUNT_def Let_def\<close>)
qed

lemma on_setup_inv:
  assumes inv: "receiver_inv ra"
  shows "\<exists>ra'. on_setup ra su source = Some ra' \<and> receiver_inv ra' \<and>
    image_keys ra' = (if setup_accepted ra su then insert (su_session_id su, su_stream_id su) (image_keys ra)
      else image_keys ra) \<and> ra_endpoints ra' = ra_endpoints ra"
proof -
  let ?f = "find_image_in_index (ra_images ra) (ra_image_index ra) (su_session_id su) (su_stream_id su)"
  let ?k = "(su_session_id su, su_stream_id su)" let ?n = "ra_image_count ra"
  note D = receiver_invD [OF inv]
  consider i where "?f = Some (Some i)" "?k \<in> image_keys ra" | "?f = Some None" "?k \<notin> image_keys ra"
    using find_image [OF inv, of "su_session_id su" "su_stream_id su"] by (force simp: image_keys_def)
  then show ?thesis
  proof cases
    case 1
    then show ?thesis using inv by (simp add: on_setup_def setup_accepted_def)
  next
    case 2
    show ?thesis
    proof (cases "setup_accepted ra su")
      case False
      then show ?thesis using 2 inv by (auto simp: on_setup_def setup_accepted_def)
    next
      case True
      then have acc: "?n < ra_max_images ra" "32 \<le> sint (su_term_length su)"
          "is_power_of_two (unat (su_term_length su))" by (auto simp: setup_accepted_def)
      obtain inner ri si where new: "new_shared_image (su_session_id su) (su_stream_id su) (su_initial_term_id su)
            (su_active_term_id su) (unat (su_term_length su)) (su_term_offset su) = Some (inner, ri, si)"
          "image_static inner" "length (slb_buffer (ii_log inner)) = 4 * unat (su_term_length su)"
          "slb_term_length (ii_log inner) = unat (su_term_length su)"
          "ii_term_length inner = unat (su_term_length su)" "ii_initial_term_id inner = su_initial_term_id su"
          "ii_session_id inner = su_session_id su" "ii_stream_id inner = su_stream_id su"
        by (rule new_shared_image_ok [OF acc(2,3)])
      let ?img = "setup_image (ra_receiver_window_override ra) su source"
      have key: "image_key ?img = ?k" by (simp add: image_key_def setup_image_def)
      have ok: "image_ok ?img inner" using new(2-) by (simp add: image_ok_def setup_image_def)
      have "\<not> ra_max_images ra \<le> ?n" "\<not> sint (su_term_length su) < 32" using acc by simp_all
      then obtain ra' where ra': "on_setup ra su source = Some ra'"
        using 2 acc(3) new(1) by (simp add: on_setup_def Let_def)
      then have f: "ra_images ra' = (ra_images ra)[?n := ?img]" "ra_arcs ra' = ra_arcs ra @ [inner]"
        "ra_image_handles ra' = (ra_image_handles ra)[?n := Some \<lparr>rh_arc = length (ra_arcs ra), rh_image = ri\<rparr>]"
        "ra_image_index ra' = insert_image_index (ra_image_index ra) ?n (su_session_id su) (su_stream_id su)"
        "ra_image_count ra' = Suc ?n" "ra_max_images ra' = ra_max_images ra" "ra_endpoints ra' = ra_endpoints ra"
        using 2 acc new(1) by (auto simp: on_setup_def Let_def)
      have n: "?n < MAX_IMAGES" using acc(1) D(2) by simp
      have "image_key (ra_images ra ! j) \<noteq> ?k" if "j < ?n" for j
        using 2(2) that by (force simp: image_keys_def)
      then have idx: "index_inv (ra_images ra') (ra_image_index ra') {..<ra_image_count ra'}"
        using image_index.append_inv [OF D(5) n, of ?img] key by (simp add: f)
      have old: "ra_image_handles ra' ! j = ra_image_handles ra ! j" "ra_images ra' ! j = ra_images ra ! j"
        if "j < ?n" for j using that by (simp_all add: f)
      have at: "ra_image_handles ra' ! ?n = Some \<lparr>rh_arc = length (ra_arcs ra), rh_image = ri\<rparr>"
        "ra_images ra' ! ?n = ?img" using n D(3,4) by (simp_all add: f)
      have h: "handle_ok ra' j" if "j < Suc ?n" for j
      proof (cases "j = ?n")
        case True
        then show ?thesis using at ok by (simp add: handle_ok_def f(2))
      next
        case False
        then have j: "j < ?n" using that by simp
        then show ?thesis using D(6) [OF j] old [OF j] by (auto simp: handle_ok_def f(2) nth_append)
      qed
      have arc_old: "\<exists>h. ra_image_handles ra ! j = Some h \<and> rh_arc h < length (ra_arcs ra)" if "j < ?n" for j
        using D(6) [OF that] by (auto simp: handle_ok_def)
      have dist: "i = j" if "i < Suc ?n" "j < Suc ?n"
        "map_option rh_arc (ra_image_handles ra' ! i) = map_option rh_arc (ra_image_handles ra' ! j)" for i j
      proof -
        consider "i = ?n" "j = ?n" | "i = ?n" "j < ?n" | "i < ?n" "j = ?n" | "i < ?n" "j < ?n"
          using \<open>i < Suc ?n\<close> \<open>j < Suc ?n\<close> by linarith
        then show ?thesis
        proof cases
          case 4
          then show ?thesis using inv that(3) old by (auto simp: receiver_inv_def)
        qed (use that(3) at arc_old old in \<open>fastforce+\<close>)
      qed
      have "receiver_inv ra'" unfolding receiver_inv_def
        using idx h dist acc(1) D(2,3) by (simp add: f)
      moreover have "image_keys ra' = insert ?k (image_keys ra)"
        using old(2) at(2) key by (auto simp: image_keys_def f(5) lessThan_Suc image_iff)
      ultimately show ?thesis using ra' f(7) True by simp
    qed
  qed
qed

lemma close_handle_fields:
  "ra_images (close_handle ra i) = ra_images ra" "ra_image_index (close_handle ra i) = ra_image_index ra"
  "ra_max_images (close_handle ra i) = ra_max_images ra" "ra_endpoints (close_handle ra i) = ra_endpoints ra"
  "ra_image_count (close_handle ra i) = ra_image_count ra"
  "ra_image_handles (close_handle ra i) = (ra_image_handles ra)[i := None]"
  "ra_image_handles ra ! i = Some h \<Longrightarrow>
     ra_arcs (close_handle ra i) = (ra_arcs ra)[rh_arc h := image_close (ra_arcs ra ! rh_arc h)]"
  by (simp_all add: close_handle_def set_arc_def split: option.split)

text \<open>The table after the removal of entry \<open>i\<close>: the last entry has moved into its place.\<close>

lemma removed_inv:
  assumes inv: "receiver_inv ra" and i: "i \<le> n" and n: "ra_image_count ra = Suc n"
    and h: "ra_image_handles ra ! i = Some h"
    and idx: "index_inv (ra_images ra') (ra_image_index ra') {..<n}"
    and ra': "ra_image_count ra' = n" "ra_max_images ra' = ra_max_images ra"
      "ra_arcs ra' = (ra_arcs ra)[rh_arc h := image_close (ra_arcs ra ! rh_arc h)]"
      "length (ra_image_handles ra') = MAX_IMAGES"
      "\<And>j. j < n \<Longrightarrow> ra_images ra' ! j = ra_images ra ! (if j = i then n else j)"
      "\<And>j. j < n \<Longrightarrow> ra_image_handles ra' ! j = ra_image_handles ra ! (if j = i then n else j)"
  shows "receiver_inv ra'" "image_keys ra' = image_keys ra - {image_key (ra_images ra ! i)}"
proof -
  note D = receiver_invD [OF inv]
  let ?f = "\<lambda>j. if j = i then n else j"
  have f: "?f j < Suc n" "?f j \<noteq> i" if "j < n" for j using that i by auto
  have "handle_ok ra' j" if j: "j < n" for j
  proof -
    obtain k where k: "ra_image_handles ra ! ?f j = Some k" "rh_arc k < length (ra_arcs ra)"
        "image_ok (ra_images ra ! ?f j) (ra_arcs ra ! rh_arc k)"
      using D(6) [unfolded n, OF f(1) [OF j]] unfolding handle_ok_def by blast
    have "rh_arc k \<noteq> rh_arc h"
      using handles_distinct [OF inv _ _ k(1) h] f [OF j] i n by auto
    then show ?thesis using k ra'(5,6) [OF j] by (simp add: handle_ok_def ra'(3))
  qed
  moreover have "j = l" if "j < n" "l < n"
    "map_option rh_arc (ra_image_handles ra' ! j) = map_option rh_arc (ra_image_handles ra' ! l)" for j l
  proof -
    have "?f j = ?f l"
      using that(3) f(1) [OF that(1)] f(1) [OF that(2)] n
      by (intro handle_arcs_inj [OF inv]) (simp_all only: ra'(6) [OF that(1)] ra'(6) [OF that(2)])
    then show ?thesis using that i by (auto split: if_splits)
  qed
  ultimately show "receiver_inv ra'"
    using idx D(1,2) n ra'(1,2,4) unfolding receiver_inv_def by simp
  have inj: "j = i" if "j \<le> n" "image_key (ra_images ra ! j) = image_key (ra_images ra ! i)" for j
    using image_index.inv_inj [OF D(5), of j i] that i n by simp
  show "image_keys ra' = image_keys ra - {image_key (ra_images ra ! i)}"
  proof (intro equalityI subsetI)
    fix k assume "k \<in> image_keys ra'"
    then obtain j where j: "j < n" "k = image_key (ra_images ra ! ?f j)"
      by (auto simp: image_keys_def ra'(1,5))
    then show "k \<in> image_keys ra - {image_key (ra_images ra ! i)}"
      using f [OF j(1)] inj [of "?f j"] n by (auto simp: image_keys_def)
  next
    fix k assume "k \<in> image_keys ra - {image_key (ra_images ra ! i)}"
    then obtain j where j: "j < Suc n" "k = image_key (ra_images ra ! j)" "j \<noteq> i"
      by (auto simp: image_keys_def n)
    let ?g = "if j = n then i else j"
    have "?g < n" "?f ?g = j" using j i by auto
    then show "k \<in> image_keys ra'"
      unfolding image_keys_def ra'(1) using ra'(5) [of ?g] j(2) by (intro image_eqI [of _ _ ?g]) auto
  qed
qed

lemma remove_image_inv:
  assumes inv: "receiver_inv ra"
  shows "\<exists>ra'. remove_image ra s t = Some (ra', (s, t) \<in> image_keys ra) \<and> receiver_inv ra' \<and>
    image_keys ra' = image_keys ra - {(s, t)} \<and>
    (\<forall>i h. i < ra_image_count ra \<longrightarrow> image_key (ra_images ra ! i) = (s, t) \<longrightarrow>
       ra_image_handles ra ! i = Some h \<longrightarrow> is_closed (ra_arcs ra' ! rh_arc h))"
proof -
  note D = receiver_invD [OF inv]
  let ?f = "find_image_in_index (ra_images ra) (ra_image_index ra) s t"
  consider i where "?f = Some (Some i)" "i < ra_image_count ra" "image_key (ra_images ra ! i) = (s, t)"
    | "?f = Some None" "(s, t) \<notin> image_keys ra"
    using find_image [OF inv, of s t] by blast
  then show ?thesis
  proof cases
    case 2
    then have "image_key (ra_images ra ! i) \<noteq> (s, t)" if "i < ra_image_count ra" for i
      using that by (force simp: image_keys_def)
    with 2 inv show ?thesis by (auto simp: remove_image_def)
  next
    case (1 i)
    obtain n where n: "ra_image_count ra = Suc n" using 1(2) by (cases "ra_image_count ra") auto
    obtain h where h: "ra_image_handles ra ! i = Some h" "rh_arc h < length (ra_arcs ra)"
      using D(6) [OF 1(2)] by (auto simp: handle_ok_def)
    have uniq: "j = i" if "j < ra_image_count ra" "image_key (ra_images ra ! j) = (s, t)" for j
      using image_index.inv_inj [OF D(5), of j i] that 1 by simp
    have mem: "(s, t) \<in> image_keys ra" using 1(2,3) by (force simp: image_keys_def)
    have len: "n < MAX_IMAGES" "i \<le> n" using D(1,2) n 1(2) by simp_all
    define images1 where "images1 = (ra_images ra)[i := (ra_images ra ! i)\<lparr>ie_active := False\<rparr>]"
    have keys1: "image_key (images1 ! j) = image_key (ra_images ra ! j)" for j
      using len D(4) by (cases "j = i") (simp_all add: images1_def image_key_def)
    have len1: "length images1 = length (ra_images ra)" by (simp add: images1_def)
    have split: "fst (image_key img) = ie_session_id img" "snd (image_key img) = ie_stream_id img" for img
      by (simp_all add: image_key_def)
    let ?close = "\<lambda>ix. close_handle (ra\<lparr>ra_image_index := ix, ra_images := images1\<rparr>) i"
    have "\<exists>ra'. remove_image ra s t = Some (ra', True) \<and>
      index_inv (ra_images ra') (ra_image_index ra') {..<n} \<and>
      ra_image_count ra' = n \<and> ra_max_images ra' = ra_max_images ra \<and>
      ra_arcs ra' = (ra_arcs ra)[rh_arc h := image_close (ra_arcs ra ! rh_arc h)] \<and>
      length (ra_image_handles ra') = MAX_IMAGES \<and>
      (\<forall>j < n. ra_images ra' ! j = ra_images ra ! (if j = i then n else j)) \<and>
      (\<forall>j < n. ra_image_handles ra' ! j = ra_image_handles ra ! (if j = i then n else j))"
    proof (cases "i = n")
      case True
      obtain ix where ix: "remove_image_index (ra_image_index ra) (ra_images ra) s t = Some ix"
          "index_inv (ra_images ra) ix ({..<ra_image_count ra} - {i})"
        using image_index.remove_inv [OF D(5), of i "(s, t)"] 1 by auto
      have S: "{..<ra_image_count ra} - {i} = {..<n}" using True n by auto
      have "index_inv (images1[n := image_entry_default]) ix {..<n}"
        by (rule image_index.inv_frame [OF ix(2) [unfolded S]]) (simp_all add: images1_def True)
      then show ?thesis
        using 1(1) ix(1) True n h(1) D(3)
        by (intro exI [of _ "(?close ix)\<lparr>ra_images := images1[n := image_entry_default], ra_image_count := n\<rparr>"])
          (simp add: remove_image_def Let_def close_handle_fields images1_def)
    next
      case False
      then have i: "i < n" using len by simp
      obtain ix1 ix2 where ix: "remove_image_index (ra_image_index ra) (ra_images ra) s t = Some ix1"
          "remove_image_index ix1 images1 (ie_session_id (images1 ! n)) (ie_stream_id (images1 ! n)) = Some ix2"
          "index_inv (images1[i := images1 ! n, n := image_entry_default])
             (insert_image_index ix2 i (ie_session_id (images1 ! n)) (ie_stream_id (images1 ! n))) {..<n}"
        using image_index.swap_remove_inv [OF D(5) [unfolded n] i len1 keys1, of image_entry_default] 1(3)
        by (auto simp: split)
      have mv: "images1 ! n = ra_images ra ! n" using i by (simp add: images1_def)
      show ?thesis
        using 1(1) ix False n h(1) D(3,4) i len(1) mv
        by (intro exI [of _ "(?close ix1)\<lparr>ra_images := images1[i := images1 ! n, n := image_entry_default],
              ra_image_handles := (ra_image_handles (?close ix1))[i := ra_image_handles (?close ix1) ! n, n := None],
              ra_image_index := insert_image_index ix2 i (ie_session_id (images1 ! n)) (ie_stream_id (images1 ! n)),
              ra_image_count := n\<rparr>"])
          (simp add: remove_image_def Let_def close_handle_fields images1_def [symmetric], simp add: images1_def)
    qed
    then obtain ra' where ra': "remove_image ra s t = Some (ra', True)"
      "index_inv (ra_images ra') (ra_image_index ra') {..<n}"
      "ra_image_count ra' = n" "ra_max_images ra' = ra_max_images ra"
      "ra_arcs ra' = (ra_arcs ra)[rh_arc h := image_close (ra_arcs ra ! rh_arc h)]"
      "length (ra_image_handles ra') = MAX_IMAGES"
      "\<And>j. j < n \<Longrightarrow> ra_images ra' ! j = ra_images ra ! (if j = i then n else j)"
      "\<And>j. j < n \<Longrightarrow> ra_image_handles ra' ! j = ra_image_handles ra ! (if j = i then n else j)"
      by blast
    note res = removed_inv [OF inv len(2) n h(1) ra'(2-)]
    have "is_closed (ra_arcs ra' ! rh_arc h)" using h(2) by (simp add: ra'(5) is_closed_def image_close_def)
    then show ?thesis using ra'(1) res mem uniq h(1) 1(3) by auto
  qed
qed

section \<open>The duty cycle keeps the invariant\<close>

lemma receiver_inv_other [simp]:
  "receiver_inv (ra\<lparr>ra_endpoints := eps\<rparr>) = receiver_inv ra"
  "receiver_inv (ra\<lparr>ra_nak_queue := q\<rparr>) = receiver_inv ra"
  "receiver_inv (ra\<lparr>ra_recv_endpoint_bridge := b\<rparr>) = receiver_inv ra"
  "image_keys (ra\<lparr>ra_endpoints := eps\<rparr>) = image_keys ra"
  "image_keys (ra\<lparr>ra_nak_queue := q\<rparr>) = image_keys ra"
  "image_keys (ra\<lparr>ra_recv_endpoint_bridge := b\<rparr>) = image_keys ra"
  by (simp_all add: receiver_inv_def handle_ok_def image_keys_def)

text \<open>A datagram that names no negative term offset, and is no longer than a datagram can be.\<close>

definition datagram_ok :: "byte list \<Rightarrow> bool" where
  "datagram_ok data \<longleftrightarrow> length data < 2 ^ 30 \<and>
     (case data_header_parse data of None \<Rightarrow> True | Some dh \<Rightarrow> 0 \<le> sint (dh_term_offset dh))"

lemma length_payload: "length (data_header_payload dh data) \<le> length data"
  by (auto simp: data_header_payload_def Let_def min_def)

lemma dispatch_inv:
  assumes inv: "receiver_inv ra" and ok: "datagram_ok (msg_data msg)"
  shows "\<exists>ra'. dispatch_message now (Some ra) msg = Some ra' \<and> receiver_inv ra'"
proof (cases "length (ra_endpoints ra) \<le> msg_transport_idx msg")
  case True
  then show ?thesis using inv by (simp add: dispatch_message_def)
next
  case False
  let ?od = "\<lambda>h dh payload (source :: sockaddr_storage). Option.bind h (\<lambda>r. on_data now r dh payload)"
  let ?os = "\<lambda>h su source. Option.bind h (\<lambda>r. on_setup r su source)"
  obtain ep h b where r: "rce_on_message ?od ?os (ra_endpoints ra ! msg_transport_idx msg) (Some ra)
      (msg_data msg) (msg_source_addr msg) = (ep, h, b)"
    by (cases "rce_on_message ?od ?os (ra_endpoints ra ! msg_transport_idx msg) (Some ra)
      (msg_data msg) (msg_source_addr msg)")
  have data: "\<exists>ra'. on_data now ra dh (data_header_payload dh (msg_data msg)) = Some ra' \<and> receiver_inv ra'"
    if "data_header_parse (msg_data msg) = Some dh" for dh
  proof -
    have "length (data_header_payload dh (msg_data msg)) < 2 ^ 30"
      using ok length_payload [of dh "msg_data msg"] by (simp add: datagram_ok_def)
    then show ?thesis using on_data_inv [OF inv, of dh _ now] ok that by (auto simp: datagram_ok_def)
  qed
  have setup': "\<exists>ra'. on_setup ra su source = Some ra' \<and> receiver_inv ra'" for su source
    using on_setup_inv [OF inv] by blast
  have "h = Some ra \<or> (\<exists>dh. data_header_parse (msg_data msg) = Some dh \<and>
      h = on_data now ra dh (data_header_payload dh (msg_data msg))) \<or> (\<exists>su source. h = on_setup ra su source)"
    using r by (auto simp: rce_on_message_def split: option.splits frame_type.splits if_splits)
  then have "\<exists>ra'. h = Some ra' \<and> receiver_inv ra'" using inv data setup' by blast
  then show ?thesis using False r by (auto simp: dispatch_message_def Let_def)
qed

lemma dispatch_all_inv:
  assumes "receiver_inv ra" "\<forall>msg \<in> set msgs. datagram_ok (msg_data msg)"
  shows "\<exists>ra'. foldl (dispatch_message now) (Some ra) msgs = Some ra' \<and> receiver_inv ra'"
  using assms
proof (induction msgs arbitrary: ra)
  case (Cons msg msgs)
  then obtain ra1 where "dispatch_message now (Some ra) msg = Some ra1" "receiver_inv ra1"
    using dispatch_inv [of ra msg now] by auto
  then show ?case using Cons by simp
qed simp

lemma queue_image_sm_inv:
  assumes inv: "receiver_inv ra" and i: "i < ra_image_count ra"
  shows "receiver_inv (fst (queue_image_sm now (ra, w) i))"
    "ra_image_count (fst (queue_image_sm now (ra, w) i)) = ra_image_count ra"
    "ra_nak_queue (fst (queue_image_sm now (ra, w) i)) = ra_nak_queue ra"
proof -
  obtain h where h: "ra_image_handles ra ! i = Some h"
      "image_ok (ra_images ra ! i) (ra_arcs ra ! rh_arc h)"
    using receiver_invD(6) [OF inv i] by (auto simp: handle_ok_def)
  let ?img = "(ra_images ra ! i)\<lparr>ie_time_of_last_sm_ns := now, ie_sm_pending := False\<rparr>"
  have ok: "image_ok ?img (ra_arcs ra ! rh_arc h)"
    by (rule image_ok_entry [OF h(2)]) (simp_all add: image_key_def)
  have "receiver_inv (set_image ra i ?img)"
    by (rule receiver_inv_update(1) [OF inv i h(1) refl ok])
      (simp_all add: set_image_def update_same h(1) image_key_def)
  then show "receiver_inv (fst (queue_image_sm now (ra, w) i))"
    using inv by (simp add: queue_image_sm_def Let_def)
  show "ra_image_count (fst (queue_image_sm now (ra, w) i)) = ra_image_count ra"
    "ra_nak_queue (fst (queue_image_sm now (ra, w) i)) = ra_nak_queue ra"
    by (simp_all add: queue_image_sm_def Let_def set_image_def)
qed

lemma queue_all_sm_inv:
  assumes "receiver_inv ra" "\<forall>i \<in> set is. i < ra_image_count ra"
  shows "receiver_inv (fst (foldl (queue_image_sm now) (ra, w) is))"
  using assms
proof (induction "is" arbitrary: ra w)
  case (Cons i "is")
  obtain ra1 w1 where r: "queue_image_sm now (ra, w) i = (ra1, w1)" by (cases "queue_image_sm now (ra, w) i")
  then have "receiver_inv ra1" "ra_image_count ra1 = ra_image_count ra"
    using queue_image_sm_inv [OF Cons.prems(1), of i now w] Cons.prems(2) by simp_all
  then show ?case using Cons r by simp
qed simp

lemma drain_naks_inv:
  assumes "receiver_inv ra"
  shows "\<exists>ra' w'. foldl drain_nak (Some (ra, w)) naks = Some (ra', w') \<and> receiver_inv ra'"
  using assms
proof (induction naks arbitrary: ra w)
  case (Cons nak naks)
  have "\<exists>ra' w'. drain_nak (Some (ra, w)) nak = Some (ra', w') \<and> receiver_inv ra'"
    using find_image [OF Cons.prems, of "pnak_session_id nak" "pnak_stream_id nak"] Cons.prems
    by (auto simp: drain_nak_def Let_def)
  then show ?case using Cons.IH by auto
qed simp

lemma send_control_inv:
  assumes "receiver_inv ra"
  shows "\<exists>p ra' n. send_control_messages submit flush now poller ra = Some (p, ra', n) \<and> receiver_inv ra' \<and>
    ra_nak_queue ra' = []"
proof -
  let ?q = "foldl (queue_image_sm now) (ra, 0) [0..<ra_image_count ra]"
  have "receiver_inv (fst ?q)" using assms by (intro queue_all_sm_inv) simp_all
  then obtain ra1 w where "foldl drain_nak (Some ?q) (ra_nak_queue ra) = Some (ra1, w)" "receiver_inv ra1"
    using drain_naks_inv [of "fst ?q" "snd ?q" "ra_nak_queue ra"] by auto
  then show ?thesis by (simp add: send_control_messages_def Let_def split: prod.split)
qed

end
