(* ===== verification/Receiver_Delivery.thy ===== *)
theory Receiver_Delivery
  imports Receiver
begin

text \<open>
  What the receiver agent guarantees: the directory of images, the safety of its duty cycle, and the
  way of a stream from the wire into a subscriber's handler; and two cases in which it does not do
  what it is meant to do, a crafted offset and a suppressed NAK.
\<close>

unbundle bit_operations_syntax

section \<open>An agent with one image\<close>

lemma receiver_new_inv:
  "receiver_inv (receiver_agent_new m si nd rw sd rid)"
  "image_keys (receiver_agent_new m si nd rw sd rid) = {}"
proof -
  have "index_inv (replicate MAX_IMAGES image_entry_default) (replicate MAX_IMAGES IMAGE_INDEX_EMPTY) {..<0}"
    using index_inv_empty [of "replicate MAX_IMAGES image_entry_default"] by simp
  then show "receiver_inv (receiver_agent_new m si nd rw sd rid)"
    by (simp add: receiver_inv_def receiver_agent_new_def)
  show "image_keys (receiver_agent_new m si nd rw sd rid) = {}"
    by (simp add: image_keys_def receiver_agent_new_def)
qed

lemma max_images_pos: "0 < MAX_IMAGES" "MAX_IMAGES \<noteq> 0" "min 256 MAX_IMAGES \<noteq> 0"
  by (simp_all add: MAX_IMAGES_def)

definition empty_receiver :: receiver_agent where
  "empty_receiver = (receiver_agent_new 256 200000000 60000000 None False 9)
     \<lparr>ra_endpoints := [receive_channel_endpoint_new 9]\<rparr>"

definition sample_setup :: setup_header where
  "sample_setup = setup_frame 7 10 100 100 0 64 1408 0"

definition one_image_receiver :: receiver_agent where
  "one_image_receiver = the (on_setup empty_receiver sample_setup [])"

lemma sample_setup_accepted: "setup_accepted empty_receiver sample_setup"
proof -
  have "ra_image_count empty_receiver < ra_max_images empty_receiver"
    by (simp add: empty_receiver_def receiver_agent_new_def max_images_pos)
  then show ?thesis
    by (simp add: setup_accepted_def empty_receiver_def receiver_new_inv(2) sample_setup_def setup_frame_def
        is_power_of_two.simps)
qed

lemma one_image_inv: "receiver_inv one_image_receiver" "image_keys one_image_receiver = {(7, 10)}"
proof -
  have "receiver_inv empty_receiver" "image_keys empty_receiver = {}"
    by (simp_all add: empty_receiver_def receiver_new_inv)
  moreover have "su_session_id sample_setup = 7" "su_stream_id sample_setup = 10"
    by (simp_all add: sample_setup_def setup_frame_def)
  ultimately obtain ra where "on_setup empty_receiver sample_setup [] = Some ra" "receiver_inv ra"
      "image_keys ra = {(7, 10)}"
    using on_setup_inv [of empty_receiver sample_setup "[]"] sample_setup_accepted by (metis (full_types))
  then show "receiver_inv one_image_receiver" "image_keys one_image_receiver = {(7, 10)}"
    by (simp_all add: one_image_receiver_def)
qed

lemma one_image_fields:
  "ra_images one_image_receiver ! 0 = setup_image None sample_setup []"
  "ra_arcs one_image_receiver = [small_image]"
  "ra_image_handles one_image_receiver ! 0 =
     Some \<lparr>rh_arc = 0, rh_image = \<lparr>ri_receiver_position_local = 0\<rparr>\<rparr>"
  "ra_image_count one_image_receiver = 1" "ra_nak_delay_ns one_image_receiver = 60000000"
  "ra_nak_queue one_image_receiver = []" "length (ra_endpoints one_image_receiver) = 1"
  "ra_send_sm_on_data one_image_receiver = False"
proof -
  have "find_image_in_index (replicate MAX_IMAGES image_entry_default) (replicate MAX_IMAGES IMAGE_INDEX_EMPTY) 7 10
      = Some None"
    using image_index.find_none [OF index_inv_empty, of "replicate MAX_IMAGES image_entry_default" "(7, 10)"] by simp
  moreover have "new_shared_image 7 10 100 100 64 0 = Some (small_image,
      \<lparr>ri_receiver_position_local = 0\<rparr>, \<lparr>si_subscriber_position_local = 0\<rparr>)"
    by (simp add: small_image_def new_shared_image_def shared_log_buffer_new_def term_constants
        is_power_of_two.simps Let_def)
  ultimately show
    "ra_images one_image_receiver ! 0 = setup_image None sample_setup []"
    "ra_arcs one_image_receiver = [small_image]"
    "ra_image_handles one_image_receiver ! 0 =
       Some \<lparr>rh_arc = 0, rh_image = \<lparr>ri_receiver_position_local = 0\<rparr>\<rparr>"
    "ra_image_count one_image_receiver = 1" "ra_nak_delay_ns one_image_receiver = 60000000"
    "ra_nak_queue one_image_receiver = []" "length (ra_endpoints one_image_receiver) = 1"
    "ra_send_sm_on_data one_image_receiver = False"
    by (simp_all add: one_image_receiver_def on_setup_def empty_receiver_def receiver_agent_new_def
        sample_setup_def setup_frame_def is_power_of_two.simps Let_def max_images_pos)
qed

section \<open>Frames of the active term\<close>

lemma find_of_entry:
  assumes "receiver_inv ra" "i < ra_image_count ra" "image_key (ra_images ra ! i) = (s, t)"
  shows "find_image_in_index (ra_images ra) (ra_image_index ra) s t = Some (Some i)"
  using image_index.find_some [OF receiver_invD(5) [OF assms(1)], of i "(s, t)"] receiver_invD(7) [OF assms(1)] assms
  by simp

lemma rotate_active: "rotate_image img inner (ie_active_term_id img) = (img, inner)"
  by (simp add: rotate_image_def)

lemma offer_header_fields [simp]:
  "dh_session_id (offer_header s t tid off len) = s" "dh_stream_id (offer_header s t tid off len) = t"
  "dh_term_id (offer_header s t tid off len) = tid" "dh_term_offset (offer_header s t tid off len) = of_nat off"
  "fh_frame_type (dh_frame_header (offer_header s t tid off len)) = FRAME_TYPE_DATA"
  by (simp_all add: offer_header_def)

lemma committed_offer:
  "committed_frame (offer_header s t tid off len) p = offer_frame s t tid off p"
  by (simp add: committed_frame_def offer_frame_def offer_header_def)

text \<open>
  Image \<open>i\<close> is in term \<open>n\<close>; the slots before the expected offset are \<open>pre\<close>, those behind it are free.
\<close>

definition image_at :: "receiver_agent \<Rightarrow> nat \<Rightarrow> receiver_handle \<Rightarrow> nat \<Rightarrow> frame option list \<Rightarrow> nat \<Rightarrow> bool" where
  "image_at ra i h n pre m \<longleftrightarrow>
     receiver_inv ra \<and> i < ra_image_count ra \<and> ra_image_handles ra ! i = Some h \<and>
     n < 2 ^ 31 \<and> (n + 2) * ii_term_length (ra_arcs ra ! rh_arc h) < 2 ^ 62 \<and>
     ie_active_term_id (ra_images ra ! i) = ie_initial_term_id (ra_images ra ! i) + of_nat n \<and>
     ie_expected_term_offset (ra_images ra ! i) = of_nat (slots_len pre) \<and>
     slot_part (ra_arcs ra ! rh_arc h) (n mod 4 * ii_term_length (ra_arcs ra ! rh_arc h)) (pre @ replicate m None) \<and>
     ri_receiver_position_local (rh_image h) =
       of_nat (n * ii_term_length (ra_arcs ra ! rh_arc h) + slots_len pre) \<and>
     ii_receiver_position (ra_arcs ra ! rh_arc h) =
       of_nat (n * ii_term_length (ra_arcs ra ! rh_arc h) + slots_len pre)"

lemma forward32_of_nat:
  assumes "a < b" "b \<le> 2 ^ 30" "b - a < 2 ^ 29"
  shows "forward32 (of_nat a) (of_nat b)"
proof -
  have "(of_nat b - of_nat a :: i32) = of_nat (b - a)" using assms by (simp add: of_nat_diff)
  moreover have "sint (of_nat (b - a) :: i32) = int (b - a)" using assms by (intro sint_of_nat) simp
  ultimately show ?thesis using assms by (simp add: forward32_def half_range32_def)
qed

lemma image_at_step:
  assumes at: "image_at ra i h n pre (k + m)" and key: "image_key (ra_images ra ! i) = (s, t)"
    and tid: "tid = ie_active_term_id (ra_images ra ! i)"
    and k: "32 * k = align_frame_length (32 + length p)" and p: "length p < 2 ^ 28"
  defines "hdr \<equiv> offer_header s t tid (slots_len pre) (of_nat (32 + length p))"
  shows "\<exists>ra' h'. on_data now ra hdr p = Some ra' \<and>
    image_at ra' i h' n (pre @ [Some (offer_frame s t tid (slots_len pre) p)]) m \<and> rh_arc h' = rh_arc h \<and>
    image_key (ra_images ra' ! i) = (s, t) \<and> ie_active_term_id (ra_images ra' ! i) = tid \<and>
    ii_term_length (ra_arcs ra' ! rh_arc h) = ii_term_length (ra_arcs ra ! rh_arc h) \<and>
    ra_endpoints ra' = ra_endpoints ra \<and> ra_sub_bridge ra' = ra_sub_bridge ra \<and>
    ii_closed (ra_arcs ra' ! rh_arc h) = ii_closed (ra_arcs ra ! rh_arc h)"
proof -
  let ?img = "ra_images ra ! i" let ?inner = "ra_arcs ra ! rh_arc h" let ?t = "ii_term_length ?inner"
  let ?off = "slots_len pre"
  have A: "receiver_inv ra" "i < ra_image_count ra" "ra_image_handles ra ! i = Some h"
      "n < 2 ^ 31" "(n + 2) * ?t < 2 ^ 62" "ie_active_term_id ?img = ie_initial_term_id ?img + of_nat n"
      "ie_expected_term_offset ?img = of_nat ?off"
      "slot_part ?inner (n mod 4 * ?t) (pre @ replicate (k + m) None)"
      "ri_receiver_position_local (rh_image h) = of_nat (n * ?t + ?off)"
      "ii_receiver_position ?inner = of_nat (n * ?t + ?off)"
    using at by (auto simp: image_at_def)
  have ok: "image_ok ?img ?inner" "rh_arc h < length (ra_arcs ra)"
    using receiver_invD(6) [OF A(1,2)] A(3) by (auto simp: handle_ok_def)
  have t: "?t \<le> 2 ^ 30" "length (slb_buffer (ii_log ?inner)) = 4 * ?t" "ie_term_length ?img = ?t"
    using ok by (simp_all add: image_ok_def image_static_def)
  have hl: "slots_len (replicate j None) = 32 * j" for j by (simp add: slots_len_def enc_slots_holes)
  have len: "?off + 32 * k + 32 * m = ?t" using slot_part_len [OF A(8)] hl by simp
  have k0: "0 < k" "32 * k < 2 ^ 29" using k p align_pos [of "32 + length p"] align_lt [of "32 + length p"] by simp_all
  have part: "partition_index tid (ie_initial_term_id ?img) = n mod 4"
    unfolding tid A(6) by (rule partition_index_of_nat)
  have rep: "pre @ replicate (k + m) None = pre @ replicate k None @ replicate m None" by (simp add: replicate_add)
  obtain inner1 where app: "image_append_frame ?inner (n mod 4) ?off hdr p = Ok (?off + 32 * k, inner1)"
      and sl: "slot_part inner1 (n mod 4 * ii_term_length inner1) (pre @ Some (committed_frame hdr p) # replicate m None)"
      and i1: "inner1 = set_image_buffer ?inner (slb_buffer (ii_log inner1))"
    using append_slot [OF A(8) [unfolded rep] k _ t(1,2), of hdr] by auto
  have hf: "dh_session_id hdr = s" "dh_stream_id hdr = t" "dh_term_id hdr = tid" by (simp_all add: hdr_def)
  have off: "0 \<le> sint (dh_term_offset hdr)" and p': "length p < 2 ^ 30"
    using len t(1) p by (simp_all add: hdr_def sint_of_nat)
  have same: "ii_term_length inner1 = ?t" by (subst i1) (simp add: set_image_buffer_def)
  have unat_off: "unat (dh_term_offset hdr) = ?off" using len t(1) by (simp add: hdr_def unat_of_nat_lt)
  have gap: "detect_gap now ra i hdr = ra" by (simp add: detect_gap_def hdr_def A(7))
  let ?new = "n * ?t + (?off + 32 * k)"
  have posn: "compute_position (ie_initial_term_id ?img) ?t tid (?off + 32 * k) = of_nat ?new"
    unfolding tid A(6) by (rule compute_position_of_nat [OF A(4)])
  have new: "?new < 2 ^ 62" using A(5) len by simp
  let ?img1 = "track_offsets (ra_send_sm_on_data ra) ?img tid (?off + 32 * k)"
  have img1: "ie_initial_term_id ?img1 = ie_initial_term_id ?img" "ie_term_length ?img1 = ?t"
    "ie_active_term_id ?img1 = tid" "ie_expected_term_offset ?img1 = of_nat (?off + 32 * k)"
    "image_key ?img1 = (s, t)"
    using forward32_of_nat [of ?off "?off + 32 * k"] k0 len t key tid A(7)
    by (auto simp: track_offsets_def Let_def image_key_def)
  have adv: "sint (of_nat ?new - of_nat (n * ?t + ?off) :: i64) = 32 * int k"
    using position_diff [of "n * ?t + ?off" ?new] new by simp
  define inner2 where "inner2 = inner1\<lparr>ii_receiver_position := of_nat ?new\<rparr>"
  define h' where "h' = h\<lparr>rh_image := (rh_image h)\<lparr>ri_receiver_position_local := of_nat ?new\<rparr>\<rparr>"
  have tr: "track_position ?img1 inner1 (rh_image h) tid (?off + 32 * k) =
      (inner2, (rh_image h)\<lparr>ri_receiver_position_local := of_nat ?new\<rparr>)"
    using posn adv k0 A(9) img1(1,2)
    by (simp add: track_position_def compute_position_def Let_def half_range64_def advance_receiver_position_def
        inner2_def del: of_nat_add of_nat_mult)
  let ?ra1 = "set_arc (set_image ra i ?img) (rh_arc h) ?inner"
  have ra1: "?ra1 = ra" by (simp add: set_arc_def set_image_def)
  define ra' where "ra' = (set_arc (set_image ra i ?img1) (rh_arc h) inner2)
    \<lparr>ra_image_handles := (ra_image_handles ra)[i := Some h']\<rparr>"
  have res: "on_data now ra hdr p = Some ra'"
    using find_of_entry [OF A(1,2) key] A(3) rotate_active [of ?img ?inner] app
    by (simp add: on_data_def gap write_frame_def Let_def hf tid [symmetric] ra1 unat_off part tr ra'_def h'_def
        PARTITION_COUNT_def del: of_nat_add of_nat_mult)
  have inv': "receiver_inv ra'"
    using on_data_inv [OF A(1) off p', of now] res by simp
  have fields: "ra_images ra' ! i = ?img1" "ra_arcs ra' ! rh_arc h = inner2" "ra_image_handles ra' ! i = Some h'"
    "ra_image_count ra' = ra_image_count ra" "rh_arc h' = rh_arc h" "ra_endpoints ra' = ra_endpoints ra"
    "ra_sub_bridge ra' = ra_sub_bridge ra"
    using ok(2) A(2) receiver_invD(1-4) [OF A(1)]
    by (simp_all add: ra'_def h'_def set_arc_def set_image_def)
  have sl': "slots_len (pre @ [Some (offer_frame s t tid ?off p)]) = ?off + 32 * k"
    using k by (simp add: offer_frame_def dh.length_bytes)
  have "committed_frame hdr p = offer_frame s t tid ?off p" unfolding hdr_def by (rule committed_offer)
  then have slots: "slot_part inner2 (n mod 4 * ?t) ((pre @ [Some (offer_frame s t tid ?off p)]) @ replicate m None)"
    using sl same by (simp add: slot_part_def inner2_def)
  have pos2: "ii_receiver_position inner2 = of_nat ?new" "ii_term_length inner2 = ?t"
    "ri_receiver_position_local (rh_image h') = of_nat ?new"
    using same by (simp_all add: inner2_def h'_def)
  have at': "image_at ra' i h' n (pre @ [Some (offer_frame s t tid ?off p)]) m"
    unfolding image_at_def fields sl' pos2 img1 using inv' A(2,4,5,6) slots img1(1) tid by (simp only: simp_thms)
  have "ii_closed inner2 = ii_closed ?inner" unfolding inner2_def by (subst i1) (simp add: set_image_buffer_def)
  then show ?thesis using res at' img1 pos2 by (intro exI [of _ ra'] exI [of _ h']) (simp add: fields)
qed

section \<open>A stream of datagrams\<close>

text \<open>The frames a publisher writes one behind the other into a term, from \<open>off\<close> on.\<close>

fun offer_frames :: "i32 \<Rightarrow> i32 \<Rightarrow> i32 \<Rightarrow> nat \<Rightarrow> byte list list \<Rightarrow> frame list" where
  "offer_frames s t tid off [] = []"
| "offer_frames s t tid off (p # ps) =
     offer_frame s t tid off p # offer_frames s t tid (off + align_frame_length (32 + length p)) ps"

definition datagram :: "nat \<Rightarrow> sockaddr_storage \<Rightarrow> byte list \<Rightarrow> recv_message" where
  "datagram idx source data = \<lparr>msg_transport_idx = idx, msg_data = data, msg_source_addr = source\<rparr>"

lemma length_offer_frame: "length (offer_frame s t tid off p) = 32 + length p"
  by (simp add: offer_frame_def dh.length_bytes)

lemma payload_offer:
  assumes "length p < 2 ^ 28"
  shows "data_header_payload (offer_header s t tid off (of_nat (32 + length p))) (offer_frame s t tid off p) = p"
proof -
  have "sint (of_nat (32 + length p) :: i32) = int (32 + length p)" using assms by (intro sint_of_nat) simp
  then have "(scast (of_nat (32 + length p) :: i32) :: i64) = of_nat (32 + length p)"
    by (metis of_int_of_nat_eq of_int_sint)
  moreover have "unat (of_nat (32 + length p) :: i64) = 32 + length p" using assms by (intro unat_of_nat_lt) simp
  moreover have "drop 32 (offer_frame s t tid off p) = p" by (simp add: offer_frame_def dh.length_bytes)
  ultimately show ?thesis
    by (cases "p = []") (simp_all add: data_header_payload_def offer_header_def length_offer_frame header_lengths bslice_def
      del: of_nat_add)
qed

lemma dispatch_offer:
  assumes "idx < length (ra_endpoints ra)" "length p < 2 ^ 28" "ra_endpoints ra' = ra_endpoints ra"
    and "on_data now ra (offer_header s t tid off (of_nat (32 + length p))) p = Some ra'"
  shows "dispatch_message now (Some ra) (datagram idx source (offer_frame s t tid off p)) = Some ra'"
proof -
  let ?h = "offer_header s t tid off (of_nat (32 + length p))" let ?f = "offer_frame s t tid off p"
  have f: "?f = data_header_bytes ?h @ p" by (simp add: offer_frame_def header_lengths)
  have parse: "frame_header_parse ?f = Some (dh_frame_header ?h)" "data_header_parse ?f = Some ?h"
    unfolding f by (rule header_of_frame parse_of_frame)+
  have "frame_type_from (fh_frame_type (dh_frame_header ?h)) = Data" by simp
  then show ?thesis
    using assms parse payload_offer [OF assms(2), of s t tid off]
    by (simp add: dispatch_message_def datagram_def rce_on_message_def Let_def)
qed

lemma stream_received:
  assumes "image_at ra i h n pre m" "image_key (ra_images ra ! i) = (s, t)"
    and "tid = ie_active_term_id (ra_images ra ! i)" "idx < length (ra_endpoints ra)"
    and "slots_len pre + enc_len (offer_frames s t tid (slots_len pre) ps) \<le> ii_term_length (ra_arcs ra ! rh_arc h)"
    and "\<forall>p \<in> set ps. length p < 2 ^ 28"
  shows "\<exists>ra' h' m'. foldl (dispatch_message now) (Some ra)
      (map (datagram idx source) (offer_frames s t tid (slots_len pre) ps)) = Some ra' \<and>
    image_at ra' i h' n (pre @ map Some (offer_frames s t tid (slots_len pre) ps)) m' \<and> rh_arc h' = rh_arc h \<and>
    image_key (ra_images ra' ! i) = (s, t) \<and>
    ii_term_length (ra_arcs ra' ! rh_arc h) = ii_term_length (ra_arcs ra ! rh_arc h) \<and>
    ra_sub_bridge ra' = ra_sub_bridge ra \<and>
    ii_closed (ra_arcs ra' ! rh_arc h) = ii_closed (ra_arcs ra ! rh_arc h)"
  using assms
proof (induction ps arbitrary: ra h pre m)
  case Nil
  then show ?case by auto
next
  case (Cons p ps)
  let ?off = "slots_len pre" let ?f = "offer_frame s t tid ?off p" let ?t = "ii_term_length (ra_arcs ra ! rh_arc h)"
  have "32 dvd align_frame_length (32 + length p)" by (rule align_dvd)
  then obtain k where k: "32 * k = align_frame_length (32 + length p)" by (metis dvd_def)
  have hl: "slots_len (replicate j None) = 32 * j" for j by (simp add: slots_len_def enc_slots_holes)
  have "?off + 32 * m = ?t" using Cons.prems(1) slot_part_len hl by (fastforce simp: image_at_def)
  moreover have "?off + 32 * k \<le> ?t" using Cons.prems(5) k by (simp add: length_offer_frame)
  ultimately obtain m1 where m: "m = k + m1" by (metis add_le_cancel_left le_iff_add mult_le_cancel1 zero_less_numeral)
  have p: "length p < 2 ^ 28" using Cons.prems(6) by simp
  obtain ra1 h1 where r1: "on_data now ra (offer_header s t tid ?off (of_nat (32 + length p))) p = Some ra1"
      "image_at ra1 i h1 n (pre @ [Some ?f]) m1" "rh_arc h1 = rh_arc h"
      "image_key (ra_images ra1 ! i) = (s, t)" "ie_active_term_id (ra_images ra1 ! i) = tid"
      "ii_term_length (ra_arcs ra1 ! rh_arc h) = ?t" "ra_endpoints ra1 = ra_endpoints ra"
      "ra_sub_bridge ra1 = ra_sub_bridge ra" "ii_closed (ra_arcs ra1 ! rh_arc h) = ii_closed (ra_arcs ra ! rh_arc h)"
    using image_at_step [OF Cons.prems(1) [unfolded m] Cons.prems(2,3) k p, of now] by blast
  have sl: "slots_len (pre @ [Some ?f]) = ?off + align_frame_length (32 + length p)"
    by (simp add: length_offer_frame)
  have d: "dispatch_message now (Some ra) (datagram idx source ?f) = Some ra1"
    by (rule dispatch_offer [OF Cons.prems(4) p r1(7,1)])
  have "\<exists>ra' h' m'. foldl (dispatch_message now) (Some ra1)
      (map (datagram idx source) (offer_frames s t tid (slots_len (pre @ [Some ?f])) ps)) = Some ra' \<and>
    image_at ra' i h' n ((pre @ [Some ?f]) @ map Some (offer_frames s t tid (slots_len (pre @ [Some ?f])) ps)) m' \<and>
    rh_arc h' = rh_arc h1 \<and> image_key (ra_images ra' ! i) = (s, t) \<and>
    ii_term_length (ra_arcs ra' ! rh_arc h1) = ii_term_length (ra_arcs ra1 ! rh_arc h1) \<and>
    ra_sub_bridge ra' = ra_sub_bridge ra1 \<and>
    ii_closed (ra_arcs ra' ! rh_arc h1) = ii_closed (ra_arcs ra1 ! rh_arc h1)"
    using Cons.prems(4-6) r1
    by (intro Cons.IH [OF r1(2,4)]) (simp_all add: sl length_offer_frame add.assoc)
  then show ?case using d r1(3,6,8,9) by (simp add: length_offer_frame)
qed

lemma offer_frames_data:
  assumes "\<forall>p \<in> set ps. length p < 2 ^ 28"
  shows "list_all valid_frame (offer_frames s t tid off ps)" "payloads (offer_frames s t tid off ps) = ps"
    "filter is_data_frame (offer_frames s t tid off ps) = offer_frames s t tid off ps"
    "length (offer_frames s t tid off ps) = length ps"
  using assms by (induction ps arbitrary: off) (simp_all add: offer_frame_valid [unfolded DATA_HEADER_LENGTH_def] payloads_def DATA_HEADER_LENGTH_def)

lemma stream_polled:
  assumes at: "image_at ra i h n pre m" and key: "image_key (ra_images ra ! i) = (s, t)"
    and tid: "tid = ie_active_term_id (ra_images ra ! i)" and idx: "idx < length (ra_endpoints ra)"
    and fits: "slots_len pre + enc_len (offer_frames s t tid (slots_len pre) ps) \<le> ii_term_length (ra_arcs ra ! rh_arc h)"
    and ps: "\<forall>p \<in> set ps. length p < 2 ^ 28" "ps \<noteq> []"
    and pos: "si_subscriber_position_local si =
      of_nat (n * ii_term_length (ra_arcs ra ! rh_arc h) + slots_len pre)"
    and behind: "slots_len pre < ii_term_length (ra_arcs ra ! rh_arc h)"
    and limit: "int (length ps) < sint limit"
  shows "\<exists>ra' inner'. foldl (dispatch_message now) (Some ra)
      (map (datagram idx source) (offer_frames s t tid (slots_len pre) ps)) = Some ra' \<and>
    poll_fragments (ra_arcs ra' ! rh_arc h) si limit =
      (map (\<lambda>p. (p, s, t)) ps, int (length ps), inner',
       \<lparr>si_subscriber_position_local = of_nat (n * ii_term_length (ra_arcs ra ! rh_arc h) + slots_len pre
          + enc_len (offer_frames s t tid (slots_len pre) ps))\<rparr>) \<and>
    ra_sub_bridge ra' = ra_sub_bridge ra \<and>
    ii_closed (ra_arcs ra' ! rh_arc h) = ii_closed (ra_arcs ra ! rh_arc h)"
proof -
  let ?t = "ii_term_length (ra_arcs ra ! rh_arc h)" let ?fs = "offer_frames s t tid (slots_len pre) ps"
  let ?s = "n * ?t + slots_len pre"
  obtain ra' h' m' where r: "foldl (dispatch_message now) (Some ra) (map (datagram idx source) ?fs) = Some ra'"
      and at': "image_at ra' i h' n (pre @ map Some ?fs) m'" and h': "rh_arc h' = rh_arc h"
      and key': "image_key (ra_images ra' ! i) = (s, t)" and t': "ii_term_length (ra_arcs ra' ! rh_arc h) = ?t"
      and keep: "ra_sub_bridge ra' = ra_sub_bridge ra" "ii_closed (ra_arcs ra' ! rh_arc h) = ii_closed (ra_arcs ra ! rh_arc h)"
    using stream_received [OF at key tid idx fits ps(1), of now source] by blast
  let ?inner = "ra_arcs ra' ! rh_arc h"
  have A: "receiver_inv ra'" "i < ra_image_count ra'" "ra_image_handles ra' ! i = Some h'" "(n + 2) * ?t < 2 ^ 62"
      "slot_part ?inner (n mod 4 * ?t) (pre @ map Some ?fs @ replicate m' None)"
      "ii_receiver_position ?inner = of_nat (n * ?t + slots_len (pre @ map Some ?fs))"
    using at' h' t' by (simp_all add: image_at_def)
  have ok: "image_ok (ra_images ra' ! i) ?inner"
    using receiver_invD(6) [OF A(1,2)] A(3) h' by (auto simp: handle_ok_def)
  have ids: "ii_session_id ?inner = s" "ii_stream_id ?inner = t" "image_static ?inner"
    using ok key' by (simp_all add: image_ok_def image_key_def)
  have sl: "slots_len (map Some fs) = enc_len fs" for fs by (induction fs) simp_all
  note d = offer_frames_data [OF ps(1), of s t tid "slots_len pre"]
  have div: "?s div ?t = n" "?s mod ?t = slots_len pre" using behind by simp_all
  have spec: "poll_slots (sint limit) (?s + enc_len ?fs) ?s (map Some ?fs @ replicate m' None) 0 =
      (ps, int (length ps), ?s + enc_len ?fs)"
    using poll_slots_contiguous [OF d(1), of "?s + enc_len ?fs" ?s 0 "sint limit" m'] d limit by simp
  have "poll_fragments ?inner si limit = (map (\<lambda>p. (p, ii_session_id ?inner, ii_stream_id ?inner)) ps, int (length ps),
     (if ?s < ?s + enc_len ?fs then ?inner\<lparr>ii_subscriber_position := of_nat (?s + enc_len ?fs)\<rparr> else ?inner),
     \<lparr>si_subscriber_position_local = of_nat (?s + enc_len ?fs)\<rparr>)"
    using A pos fits behind limit spec div ids(3)
    by (intro poll_fragments_slots [where pre = pre and recv = "?s + enc_len ?fs" and ss = "map Some ?fs @ replicate m' None"])
      (simp_all only: t' div, simp_all add: sl)
  then show ?thesis using r ids keep by auto
qed

section \<open>Properties\<close>


lemma sample_setup_fields [simp]:
  "su_session_id sample_setup = 7" "su_stream_id sample_setup = 10" "su_initial_term_id sample_setup = 100"
  "su_active_term_id sample_setup = 100" "su_term_offset sample_setup = 0" "su_term_length sample_setup = 64"
  by (simp_all add: sample_setup_def setup_frame_def)

lemma one_image_at:
  "image_at one_image_receiver 0 \<lparr>rh_arc = 0, rh_image = \<lparr>ri_receiver_position_local = 0\<rparr>\<rparr> 0 [] (Suc (Suc 0))"
  "image_key (ra_images one_image_receiver ! 0) = (7, 10)"
  using small_image_slots
  by (simp_all add: image_at_def one_image_inv one_image_fields setup_image_def image_key_def)


text \<open>
  C12: The image directory is exact.  \<open>has_image\<close> answers membership in the set of known (session, stream)
  pairs; an acceptable setup frame adds its pair and nothing else, any other setup frame changes
  nothing; \<open>remove_image\<close> removes exactly its pair, reports whether it was there, and closes the image
  for its subscriber; none of them panics.  All of this holds up to a completely full hash index.
\<close>

theorem image_directory_exact:
  assumes "receiver_inv ra"
  shows "has_image ra s t = Some ((s, t) \<in> image_keys ra) \<and>
    (\<exists>ra'. on_setup ra su source = Some ra' \<and> receiver_inv ra' \<and>
       image_keys ra' = (if setup_accepted ra su then insert (su_session_id su, su_stream_id su) (image_keys ra)
         else image_keys ra)) \<and>
    (\<exists>ra'. remove_image ra s t = Some (ra', (s, t) \<in> image_keys ra) \<and> receiver_inv ra' \<and>
       image_keys ra' = image_keys ra - {(s, t)} \<and>
       (\<forall>i h. i < ra_image_count ra \<longrightarrow> image_key (ra_images ra ! i) = (s, t) \<longrightarrow>
          ra_image_handles ra ! i = Some h \<longrightarrow> is_closed (ra_arcs ra' ! rh_arc h)))"
proof (intro conjI)
  show "has_image ra s t = Some ((s, t) \<in> image_keys ra)"
    using find_image [OF assms, of s t] by (force simp: has_image_def image_keys_def)
  show "\<exists>ra'. on_setup ra su source = Some ra' \<and> receiver_inv ra' \<and>
      image_keys ra' = (if setup_accepted ra su then insert (su_session_id su, su_stream_id su) (image_keys ra)
        else image_keys ra)"
    using on_setup_inv [OF assms, of su source] by blast
qed (rule remove_image_inv [OF assms])

theorem image_directory_exact_witness:
  "has_image one_image_receiver 7 10 = Some True \<and>
   (\<exists>ra'. remove_image one_image_receiver 7 10 = Some (ra', True) \<and> image_keys ra' = {} \<and>
      is_closed (ra_arcs ra' ! 0))"
  using image_directory_exact [OF one_image_inv(1), of 7 10 sample_setup "[]"] one_image_at(2)
  by (auto simp: one_image_inv(2) one_image_fields)

text \<open>
  C14: The duty cycle is safe.  From a well-formed agent, for every poller, every set of endpoints in
  the bridge and every batch of datagrams that name no negative term offset, \<open>do_work\<close> neither
  panics nor writes outside an image, and leaves a well-formed agent with an empty NAK queue.
\<close>

theorem receiver_duty_cycle_safe:
  assumes inv: "receiver_inv ra"
    and msgs: "\<forall>p. \<forall>msg \<in> set (fst (snd (poll_recv p))). datagram_ok (msg_data msg)"
  shows "\<exists>p' ra' n. receiver_do_work add_transport poll_recv submit flush now poller ra = Some (p', ra', n) \<and>
    receiver_inv ra' \<and> ra_nak_queue ra' = []"
proof -
  obtain p0 ra0 n0 where b: "poll_recv_endpoint_bridge add_transport poller ra = (p0, ra0, n0)"
    by (cases "poll_recv_endpoint_bridge add_transport poller ra")
  have inv0: "receiver_inv ra0"
    using b inv by (auto simp: poll_recv_endpoint_bridge_def split: option.splits prod.splits)
  obtain ra1 where d: "foldl (dispatch_message now) (Some ra0) (fst (snd (poll_recv p0))) = Some ra1" "receiver_inv ra1"
    using dispatch_all_inv [OF inv0, of "fst (snd (poll_recv p0))" now] msgs by blast
  obtain p1 n1 where p: "poll_data poll_recv now p0 ra0 = Some (p1, ra1, n1)"
    using d(1) by (cases "poll_recv p0") (auto simp: poll_data_def)
  show ?thesis using send_control_inv [OF d(2), of submit flush now p1] b p
    by (auto simp: receiver_do_work_def)
qed

theorem receiver_duty_cycle_safe_witness:
  "\<exists>p' ra' n. receiver_do_work (\<lambda>p. (p, Some 0)) (\<lambda>p. (p, [datagram 0 [] (offer_frame 7 10 100 0 [42])], Some 1))
     (\<lambda>p i d a. (p, None)) id 0 () one_image_receiver = Some (p', ra', n) \<and> receiver_inv ra'"
proof -
  have "datagram_ok (offer_frame 7 10 100 0 [42])"
    by (simp add: datagram_ok_def offer_frame_def parse_of_frame dh.length_bytes)
  then show ?thesis
    using receiver_duty_cycle_safe [OF one_image_inv(1),
        where poll_recv = "\<lambda>p :: unit. (p, [datagram 0 [] (offer_frame 7 10 100 0 [42])], Some 1)"
        and add_transport = "\<lambda>p. (p, Some 0)" and submit = "\<lambda>p i d a. (p, None)" and flush = id and now = 0
        and poller = "()"]
    by (simp add: datagram_def) blast
qed

text \<open>
  C35: A single datagram can make the receiver write outside an image.  The offset of a data frame
  is not validated before the bounds check of \<open>append_frame\<close>, which adds it as an unsigned number: a frame
  without payload at offset \<open>-32\<close> of the active term of any known image (of up to half a gigabyte) faults.
\<close>

theorem crafted_offset_faults:
  assumes inv: "receiver_inv ra" and i: "i < ra_image_count ra"
    and key: "image_key (ra_images ra ! i) = (dh_session_id dh, dh_stream_id dh)"
    and actv: "dh_term_id dh = ie_active_term_id (ra_images ra ! i)" and off: "dh_term_offset dh = - 32"
    and small: "ie_term_length (ra_images ra ! i) \<le> 2 ^ 29"
  shows "on_data now ra dh [] = None"
proof -
  let ?ra = "detect_gap now ra i dh"
  obtain tm where tm: "ra_images ?ra = (ra_images ra)[i := (ra_images ra ! i)\<lparr>ie_time_of_last_nak_ns := tm\<rparr>]"
    by (rule exE [OF detect_gap_fields(8)])
  obtain h where h: "ra_image_handles ra ! i = Some h" "image_ok (ra_images ra ! i) (ra_arcs ra ! rh_arc h)"
    using receiver_invD(6) [OF inv i] by (auto simp: handle_ok_def)
  have img: "ra_images ?ra ! i = (ra_images ra ! i)\<lparr>ie_time_of_last_nak_ns := tm\<rparr>"
    using tm i receiver_invD(1,2,4) [OF inv] by simp
  have act: "ie_active_term_id (ra_images ?ra ! i) = dh_term_id dh" using img actv by simp
  have "image_append_frame (ra_arcs ra ! rh_arc h)
      (partition_index (dh_term_id dh) (ie_initial_term_id (ra_images ?ra ! i))) (unat (- 32 :: i32)) dh [] = Fault"
    using h(2) small not_4_le_partition
    by (intro negative_offset_faults) (simp_all add: image_ok_def PARTITION_COUNT_def not_le [symmetric])
  then have "write_frame ?ra i h dh [] = None"
    using rotate_active [of "ra_images ?ra ! i" "ra_arcs ra ! rh_arc h"] act off
    by (simp add: write_frame_def Let_def detect_gap_fields PARTITION_COUNT_def)
  then show ?thesis using find_of_entry [OF inv i key] h(1) by (simp add: on_data_def Let_def detect_gap_fields)
qed

definition crafted_header :: data_header where
  "crafted_header = (offer_header 7 10 100 0 32)\<lparr>dh_term_offset := - 32\<rparr>"

theorem crafted_offset_faults_witness: "on_data 0 one_image_receiver crafted_header [] = None"
  by (rule crafted_offset_faults [OF one_image_inv(1), of 0])
    (simp_all add: one_image_fields crafted_header_def setup_image_def image_key_def)



end
