(* ===== verification/Subscription.thy ===== *)
theory Subscription
  imports Receiver_Delivery "HOL-Library.While_Combinator" "HOL-Library.Multiset" "HOL-Library.Sublist"
begin

text \<open>
  The subscription of \<^verbatim>\<open>src/src/client/subscription.rs\<close>: it takes the images of its stream from the
  bridge, drops the closed ones and polls the others for fragments.

  The images and the bridge are shared with the receiver agent; they are arguments of the operations
  and handles name an image by its position in the agent's store.  The loop that removes closed
  images is a \<open>while_option\<close>, so that its termination is a statement of its own.
\<close>

section \<open>Model\<close>

definition MAX_SUB_IMAGES :: nat where "MAX_SUB_IMAGES = 16"

record subscription =
  sub_registration_id :: i64
  sub_stream_id :: i32
  sub_channel_uri_buf :: "byte list"
  sub_channel_uri_len :: nat
  sub_images :: "subscriber_handle option list"
  sub_image_count :: nat

definition subscription_new :: "i64 \<Rightarrow> i32 \<Rightarrow> byte list \<Rightarrow> subscription" where
  "subscription_new registration_id stream_id channel =
     (let len = min (length channel) 256
      in \<lparr>sub_registration_id = registration_id, sub_stream_id = stream_id,
          sub_channel_uri_buf = take len channel @ replicate (256 - len) 0, sub_channel_uri_len = len,
          sub_images = replicate MAX_SUB_IMAGES None, sub_image_count = 0\<rparr>)"

definition peek_stream_id :: "pending_image bridge \<Rightarrow> nat \<Rightarrow> i32 option" where
  "peek_stream_id bridge idx = bridge_peek pi_stream_id bridge idx"

fun drain_slots ::
  "subscription \<Rightarrow> pending_image bridge \<Rightarrow> nat list \<Rightarrow> subscription \<times> pending_image bridge" where
  "drain_slots sub bridge [] = (sub, bridge)"
| "drain_slots sub bridge (idx # idxs) =
     (if MAX_SUB_IMAGES \<le> sub_image_count sub then (sub, bridge)
      else if peek_stream_id bridge idx = Some (sub_stream_id sub) then
        (case bridge_try_take bridge idx of
           (bridge', Some pending) \<Rightarrow>
             drain_slots
               (sub\<lparr>sub_images := (sub_images sub)[sub_image_count sub := Some (pi_image pending)],
                    sub_image_count := sub_image_count sub + 1\<rparr>) bridge' idxs
         | (bridge', None) \<Rightarrow> drain_slots sub bridge' idxs)
      else drain_slots sub bridge idxs)"

definition drain_bridge :: "subscription \<Rightarrow> pending_image bridge \<Rightarrow> subscription \<times> pending_image bridge" where
  "drain_bridge sub bridge = drain_slots sub bridge [0..<SUB_BRIDGE_CAPACITY]"

definition image_closed :: "image_inner list \<Rightarrow> subscription \<Rightarrow> nat \<Rightarrow> bool" where
  "image_closed arcs sub i =
     (case sub_images sub ! i of None \<Rightarrow> False | Some h \<Rightarrow> is_closed (arcs ! sh_arc h))"

definition swap_remove_image :: "subscription \<Rightarrow> nat \<Rightarrow> subscription" where
  "swap_remove_image sub i =
     (let last = sub_image_count sub - 1
      in sub\<lparr>sub_images :=
               (if i \<noteq> last then (sub_images sub)[i := sub_images sub ! last, last := None]
                else (sub_images sub)[i := None]),
             sub_image_count := last\<rparr>)"

definition remove_closed_images :: "image_inner list \<Rightarrow> subscription \<Rightarrow> subscription option" where
  "remove_closed_images arcs sub =
     map_option snd
       (while_option (\<lambda>(i, s). i < sub_image_count s)
         (\<lambda>(i, s). if image_closed arcs s i then (i, swap_remove_image s i) else (i + 1, s))
         (0, sub))"

text \<open>The loop over the images: calls of the handler, fragments so far, remaining limit.\<close>

fun poll_images ::
  "image_inner list \<Rightarrow> subscription \<Rightarrow> int \<Rightarrow> nat list \<Rightarrow>
   (byte list \<times> i32 \<times> i32) list \<times> int \<times> image_inner list \<times> subscription" where
  "poll_images arcs sub remaining [] = ([], 0, arcs, sub)"
| "poll_images arcs sub remaining (i # is) =
     (if remaining \<le> 0 then ([], 0, arcs, sub)
      else case sub_images sub ! i of
        None \<Rightarrow> poll_images arcs sub remaining is
      | Some h \<Rightarrow>
          let images_left = int (sub_image_count sub - i);
              per_image = (if remaining < images_left then 1 else remaining div images_left);
              (calls, fragments, inner, si) =
                poll_fragments (arcs ! sh_arc h) (sh_image h) (of_int (max per_image 1));
              (calls', total, arcs', sub') =
                poll_images (arcs[sh_arc h := inner])
                  (sub\<lparr>sub_images := (sub_images sub)[i := Some (h\<lparr>sh_image := si\<rparr>)]\<rparr>)
                  (remaining - fragments) is
          in (calls @ calls', fragments + total, arcs', sub'))"

definition subscription_poll ::
  "image_inner list \<Rightarrow> pending_image bridge \<Rightarrow> subscription \<Rightarrow> i32 \<Rightarrow>
   ((byte list \<times> i32 \<times> i32) list \<times> int \<times> image_inner list \<times> pending_image bridge \<times> subscription) option" where
  "subscription_poll arcs bridge sub limit =
     (if sint limit \<le> 0 then Some ([], 0, arcs, bridge, sub)
      else
        let (sub1, bridge') = drain_bridge sub bridge
        in case remove_closed_images arcs sub1 of
             None \<Rightarrow> None
           | Some sub2 \<Rightarrow>
               if sub_image_count sub2 = 0 then Some ([], 0, arcs, bridge', sub2)
               else
                 let (calls, total, arcs', sub3) =
                       poll_images arcs sub2 (sint limit) [0..<sub_image_count sub2]
                 in Some (calls, total, arcs', bridge', sub3))"

definition subscription_channel :: "subscription \<Rightarrow> byte list" where
  "subscription_channel sub = take (sub_channel_uri_len sub) (sub_channel_uri_buf sub)"

section \<open>The tracked images\<close>

definition sub_inv :: "subscription \<Rightarrow> bool" where
  "sub_inv sub \<longleftrightarrow> length (sub_images sub) = MAX_SUB_IMAGES \<and> sub_image_count sub \<le> MAX_SUB_IMAGES \<and>
     (\<forall>i < MAX_SUB_IMAGES. (sub_images sub ! i \<noteq> None) = (i < sub_image_count sub))"

definition tracked :: "subscription \<Rightarrow> subscriber_handle list" where
  "tracked sub = map the (take (sub_image_count sub) (sub_images sub))"

lemma sub_inv_new: "sub_inv (subscription_new r s c)" "tracked (subscription_new r s c) = []"
  by (simp_all add: sub_inv_def tracked_def subscription_new_def Let_def)

lemma tracked_length: "sub_inv sub \<Longrightarrow> length (tracked sub) = sub_image_count sub"
  by (simp add: sub_inv_def tracked_def)

lemma tracked_nth:
  "sub_inv sub \<Longrightarrow> i < sub_image_count sub \<Longrightarrow> sub_images sub ! i = Some (tracked sub ! i)"
  by (auto simp: sub_inv_def tracked_def)

lemma image_closed_tracked:
  "sub_inv sub \<Longrightarrow> i < sub_image_count sub \<Longrightarrow>
   image_closed arcs sub i = is_closed (arcs ! sh_arc (tracked sub ! i))"
  by (simp add: image_closed_def tracked_nth)

lemma mset_swap_remove:
  assumes "i < length xs"
  shows "mset (if i \<noteq> length xs - 1 then butlast (xs[i := last xs]) else butlast xs) = mset xs - {#xs ! i#}"
proof -
  obtain ys z where xs: "xs = ys @ [z]" using assms by (cases xs rule: rev_cases) auto
  show ?thesis
  proof (cases "i = length ys")
    case True
    then show ?thesis by (simp add: xs)
  next
    case False
    then have "i < length ys" using assms xs by simp
    then show ?thesis
      by (simp add: xs list_update_append nth_append mset_update butlast_append)
  qed
qed

lemma swap_remove_tracked:
  assumes "sub_inv sub" "i < sub_image_count sub"
  shows "sub_inv (swap_remove_image sub i)"
    and "tracked (swap_remove_image sub i) =
      (if i \<noteq> sub_image_count sub - 1 then butlast ((tracked sub)[i := last (tracked sub)])
       else butlast (tracked sub))"
    and "sub_image_count (swap_remove_image sub i) = sub_image_count sub - 1"
proof -
  let ?n = "sub_image_count sub"
  have n: "length (sub_images sub) = MAX_SUB_IMAGES" "?n \<le> MAX_SUB_IMAGES" "0 < ?n"
    using assms by (simp_all add: sub_inv_def)
  show "sub_inv (swap_remove_image sub i)"
    using assms n unfolding sub_inv_def swap_remove_image_def Let_def
    by (auto simp: nth_list_update)
  show "sub_image_count (swap_remove_image sub i) = ?n - 1"
    by (simp add: swap_remove_image_def Let_def)
  show "tracked (swap_remove_image sub i) =
      (if i \<noteq> ?n - 1 then butlast ((tracked sub)[i := last (tracked sub)]) else butlast (tracked sub))"
  proof (rule nth_equalityI)
    have last: "last (map the (take ?n (sub_images sub))) = the (sub_images sub ! (?n - 1))"
      using n by (subst last_conv_nth) auto
    show "length (tracked (swap_remove_image sub i)) =
      length (if i \<noteq> ?n - 1 then butlast ((tracked sub)[i := last (tracked sub)]) else butlast (tracked sub))"
      using n by (simp add: tracked_def swap_remove_image_def Let_def)
    show "tracked (swap_remove_image sub i) ! k =
      (if i \<noteq> ?n - 1 then butlast ((tracked sub)[i := last (tracked sub)]) else butlast (tracked sub)) ! k"
      if "k < length (tracked (swap_remove_image sub i))" for k
      using that n assms(2) last
      by (auto simp: tracked_def swap_remove_image_def Let_def nth_butlast nth_list_update)
  qed
qed

lemma swap_remove_fields: "sub_stream_id (swap_remove_image sub i) = sub_stream_id sub"
  by (simp add: swap_remove_image_def Let_def)

lemma swap_remove_mset:
  assumes "sub_inv sub" "i < sub_image_count sub"
  shows "mset (tracked (swap_remove_image sub i)) = mset (tracked sub) - {#tracked sub ! i#}"
  using mset_swap_remove [of i "tracked sub"] assms
  by (simp add: swap_remove_tracked(2) tracked_length)

section \<open>Closed images\<close>

abbreviation open_handle :: "image_inner list \<Rightarrow> subscriber_handle \<Rightarrow> bool" where
  "open_handle arcs h \<equiv> \<not> is_closed (arcs ! sh_arc h)"

definition cleanup_inv :: "image_inner list \<Rightarrow> subscription \<Rightarrow> nat \<times> subscription \<Rightarrow> bool" where
  "cleanup_inv arcs sub0 st \<longleftrightarrow>
     (case st of (i, s) \<Rightarrow> sub_inv s \<and> i \<le> sub_image_count s \<and> sub_stream_id s = sub_stream_id sub0 \<and>
        (\<forall>j < i. open_handle arcs (tracked s ! j)) \<and>
        filter_mset (open_handle arcs) (mset (tracked s)) = filter_mset (open_handle arcs) (mset (tracked sub0)))"

lemma cleanup_step:
  assumes "cleanup_inv arcs sub0 (i, s)" "i < sub_image_count s"
  shows "cleanup_inv arcs sub0 (if image_closed arcs s i then (i, swap_remove_image s i) else (i + 1, s))"
proof (cases "image_closed arcs s i")
  case False
  then show ?thesis
    using assms by (auto simp: cleanup_inv_def image_closed_tracked less_Suc_eq)
next
  case True
  have inv: "sub_inv s" and old: "\<forall>j < i. open_handle arcs (tracked s ! j)"
    using assms(1) by (simp_all add: cleanup_inv_def)
  have closed: "is_closed (arcs ! sh_arc (tracked s ! i))"
    using True image_closed_tracked [OF inv assms(2)] by simp
  have mem: "tracked s ! i \<in># mset (tracked s)" using assms(2) tracked_length [OF inv] by simp
  have "filter_mset (open_handle arcs) (mset (tracked (swap_remove_image s i))) =
      filter_mset (open_handle arcs) (mset (tracked s))"
    using closed by (simp add: swap_remove_mset [OF inv assms(2)])
  moreover have "tracked (swap_remove_image s i) ! j = tracked s ! j" if "j < i" for j
    using that assms(2) tracked_length [OF inv]
    by (simp add: swap_remove_tracked(2) [OF inv assms(2)] nth_butlast)
  ultimately show ?thesis
    using assms old True
    unfolding cleanup_inv_def prod.case if_P [OF True]
    by (simp add: swap_remove_tracked(1,3) [OF inv assms(2)] swap_remove_fields)
qed

lemma remove_closed_result:
  assumes inv: "sub_inv sub"
  shows "\<exists>sub'. remove_closed_images arcs sub = Some sub' \<and> sub_inv sub' \<and>
    sub_stream_id sub' = sub_stream_id sub \<and>
    mset (tracked sub') = filter_mset (open_handle arcs) (mset (tracked sub)) \<and>
    (\<forall>h \<in> set (tracked sub'). open_handle arcs h)"
proof -
  let ?b = "\<lambda>(i, s). i < sub_image_count s"
  let ?c = "\<lambda>(i, s). if image_closed arcs s i then (i, swap_remove_image s i) else (i + 1, s)"
  have "\<exists>st. while_option ?b ?c (0, sub) = Some st"
    by (rule measure_while_option_Some [where P = "\<lambda>_. True" and f = "\<lambda>(i, s). sub_image_count s - i"])
      (auto simp: swap_remove_image_def Let_def)
  then obtain i s where st: "while_option ?b ?c (0, sub) = Some (i, s)" by auto
  have "cleanup_inv arcs sub (i, s)"
  proof (rule while_option_rule [OF _ st])
    show "cleanup_inv arcs sub (?c st)" if "cleanup_inv arcs sub st" "?b st" for st
      using cleanup_step [of arcs sub "fst st" "snd st"] that by (simp add: case_prod_beta)
    show "cleanup_inv arcs sub (0, sub)" using inv by (simp add: cleanup_inv_def)
  qed
  moreover have "\<not> i < sub_image_count s" using while_option_stop [OF st] by simp
  ultimately have r: "sub_inv s" "sub_stream_id s = sub_stream_id sub"
      "\<forall>j < sub_image_count s. open_handle arcs (tracked s ! j)"
      "filter_mset (open_handle arcs) (mset (tracked s)) = filter_mset (open_handle arcs) (mset (tracked sub))"
    by (auto simp: cleanup_inv_def)
  have all: "\<forall>h \<in> set (tracked s). open_handle arcs h"
    using r(3) tracked_length [OF r(1)] by (metis in_set_conv_nth)
  then have "filter_mset (open_handle arcs) (mset (tracked s)) = mset (tracked s)"
    by (simp add: filter_mset_eq_conv)
  then show ?thesis using st r all by (simp add: remove_closed_images_def)
qed

section \<open>Fragment counts\<close>

definition counted :: "int \<Rightarrow> int \<Rightarrow> 'a list \<times> int \<times> nat \<Rightarrow> bool" where
  "counted n limit r \<longleftrightarrow> fst (snd r) = n + int (length (fst r)) \<and> (n \<le> limit \<longrightarrow> fst (snd r) \<le> limit)"

lemma counted_intros:
  "counted n limit ([], n, bytes)"
  "counted (n + 1) limit r \<Longrightarrow> n < limit \<Longrightarrow> counted n limit (x # fst r, snd r)"
  "(c \<Longrightarrow> counted n limit r) \<Longrightarrow> (\<not> c \<Longrightarrow> counted n limit r') \<Longrightarrow> counted n limit (if c then r else r')"
  by (auto simp: counted_def)

lemma poll_loop_count: "counted n limit (poll_loop inner start base limit pos n bytes)"
proof (induction inner start base limit pos n bytes rule: poll_loop.induct)
  case (1 inner start base limit pos n bytes)
  show ?case
    unfolding poll_loop.simps [of inner start base limit pos n bytes] Let_def
    apply (intro counted_intros)
         apply (rule 1(1) [OF _ _ refl refl _ _ refl]; assumption)
        apply (rule 1(2) [OF _ _ refl refl _ _ refl]; assumption)
       apply (rule 1(3) [OF _ _ refl refl _ _ refl]; assumption)
      apply simp
    done
qed

definition loop_of :: "image_inner \<Rightarrow> subscriber_image \<Rightarrow> int \<Rightarrow> byte list list \<times> int \<times> nat" where
  "loop_of inner si limit =
     (let start = si_subscriber_position_local si
      in poll_loop inner start
           (partition_index (ii_initial_term_id inner
              + ucast (signed_drop_bit (ii_position_bits_to_shift inner) start)) (ii_initial_term_id inner)
            * ii_term_length inner)
           limit (unat (ucast (start AND of_nat (ii_term_length_mask inner)) :: 32 word)) 0 0)"

lemma poll_fragments_loop:
  assumes "0 < sint limit"
  shows "fst (poll_fragments inner si limit) =
      map (\<lambda>p. (p, ii_session_id inner, ii_stream_id inner)) (fst (loop_of inner si (sint limit)))"
    and "fst (snd (poll_fragments inner si limit)) = fst (snd (loop_of inner si (sint limit)))"
  using assms unfolding poll_fragments_def loop_of_def Let_def by auto

lemma poll_fragments_count:
  "fst (snd (poll_fragments inner si limit)) = int (length (fst (poll_fragments inner si limit)))"
  "0 \<le> sint limit \<Longrightarrow> fst (snd (poll_fragments inner si limit)) \<le> sint limit"
proof -
  have c: "counted 0 (sint limit) (loop_of inner si (sint limit))"
    unfolding loop_of_def Let_def by (rule poll_loop_count)
  show "fst (snd (poll_fragments inner si limit)) = int (length (fst (poll_fragments inner si limit)))"
    "0 \<le> sint limit \<Longrightarrow> fst (snd (poll_fragments inner si limit)) \<le> sint limit"
    using c by (cases "0 < sint limit"; simp add: counted_def poll_fragments_loop; simp add: poll_fragments_def)+
qed

text \<open>A larger limit only adds calls behind those of a smaller one.\<close>

lemma prefix_intros:
  "prefix [] ys"
  "prefix (fst r) (fst r') \<Longrightarrow> prefix (fst (x # fst r, snd r)) (fst (x # fst r', snd r'))"
  "(c \<Longrightarrow> prefix (fst r) (fst s)) \<Longrightarrow> (\<not> c \<Longrightarrow> prefix (fst r') (fst s')) \<Longrightarrow>
   prefix (fst (if c then r else r')) (fst (if c then s else s'))"
  "prefix (fst ([], y)) ys"
  by auto

lemma poll_loop_prefix:
  "limit \<le> limit' \<Longrightarrow>
   prefix (fst (poll_loop inner start base limit pos n bytes)) (fst (poll_loop inner start base limit' pos n bytes))"
proof (induction inner start base limit pos n bytes rule: poll_loop.induct)
  case (1 inner start base limit pos n bytes)
  show ?case
  proof (cases "pos < ii_term_length inner \<and> n < limit")
    case False
    then show ?thesis by (subst poll_loop.simps) simp
  next
    case True
    then have t': "pos < ii_term_length inner \<and> n < limit'" using 1(4) by simp
    show ?thesis
      unfolding poll_loop.simps [of inner start base limit pos n bytes]
        poll_loop.simps [of inner start base limit' pos n bytes] Let_def if_P [OF True] if_P [OF t']
      apply (intro prefix_intros)
        apply (rule 1(1) [OF True _ refl refl _ _ refl 1(4)]; assumption)
       apply (rule 1(2) [OF True _ refl refl _ _ refl _ _ 1(4)]; assumption)
      apply (rule 1(3) [OF True _ refl refl _ _ refl _ _ 1(4)]; assumption)
      done
  qed
qed

lemma poll_fragments_prefix:
  assumes "sint limit \<le> sint limit'"
  shows "prefix (fst (poll_fragments inner si limit)) (fst (poll_fragments inner si limit'))"
proof (cases "sint limit \<le> 0")
  case True
  then show ?thesis by (simp add: poll_fragments_def)
next
  case False
  then have l: "0 < sint limit" "0 < sint limit'" using assms by simp_all
  have "prefix (fst (loop_of inner si (sint limit))) (fst (loop_of inner si (sint limit')))"
    unfolding loop_of_def Let_def by (rule poll_loop_prefix [OF assms])
  then show ?thesis by (simp add: poll_fragments_loop l map_mono_prefix)
qed

section \<open>The loop over the images\<close>

definition share :: "int \<Rightarrow> nat \<Rightarrow> nat \<Rightarrow> int" where
  "share remaining n i =
     max (if remaining < int (n - i) then 1 else remaining div int (n - i)) 1"

lemma share_bounds:
  assumes "0 < remaining"
  shows "1 \<le> share remaining n i" "share remaining n i \<le> remaining"
    and "i < n \<Longrightarrow> int (n - i) \<le> remaining \<Longrightarrow>
      int (n - Suc i) \<le> remaining - share remaining n i"
proof -
  show "1 \<le> share remaining n i" by (simp add: share_def)
  obtain r where r: "remaining = int r" using assms by (metis zero_less_imp_eq_int)
  have "int (r div (n - i)) \<le> int r" by (simp only: of_nat_le_iff div_le_dividend)
  then have "remaining div int (n - i) \<le> remaining" unfolding r by (simp only: zdiv_int)
  then show "share remaining n i \<le> remaining" using assms by (simp add: share_def)
next
  assume i: "i < n" "int (n - i) \<le> remaining"
  let ?k = "int (n - i)"
  have k: "0 < ?k" using i by simp
  have q: "1 \<le> remaining div ?k" using i(2) pos_imp_zdiv_pos_iff [OF k, of remaining] by linarith
  have "remaining div ?k * ?k \<le> remaining" using k by (simp add: minus_mod_eq_div_mult [symmetric])
  then have "(remaining div ?k - 1) * (?k - 1) + remaining div ?k + ?k - 1 \<le> remaining" by (simp add: algebra_simps)
  moreover have "0 \<le> (remaining div ?k - 1) * (?k - 1)" using q k by simp
  ultimately have "remaining div ?k + ?k - 1 \<le> remaining" by linarith
  moreover have "share remaining n i = remaining div ?k" using q i(2) by (simp add: share_def)
  moreover have "int (n - Suc i) = ?k - 1" using i(1) by simp
  ultimately show "int (n - Suc i) \<le> remaining - share remaining n i" by linarith
qed

lemma poll_images_Cons:
  fixes arcs "is"
  assumes "sub_images sub ! i = Some h" "0 < remaining"
  defines "r \<equiv> poll_fragments (arcs ! sh_arc h) (sh_image h) (of_int (share remaining (sub_image_count sub) i))"
  defines "rest \<equiv> poll_images (arcs[sh_arc h := fst (snd (snd r))])
      (sub\<lparr>sub_images := (sub_images sub)[i := Some (h\<lparr>sh_image := snd (snd (snd r))\<rparr>)]\<rparr>)
      (remaining - fst (snd r)) is"
  shows "poll_images arcs sub remaining (i # is) =
    (fst r @ fst rest, fst (snd r) + fst (snd rest), snd (snd rest))"
  using assms by (simp add: share_def case_prod_beta Let_def)

lemma share_limit:
  assumes "0 < remaining" "remaining < 2 ^ 31"
  shows "sint (of_int (share remaining n i) :: i32) = share remaining n i"
  using share_bounds(1,2) [OF assms(1), of n i] assms(2) by (intro sint_of_int) simp_all

lemma poll_images_bounded:
  assumes "0 \<le> remaining" "remaining < 2 ^ 31"
  shows "fst (snd (poll_images arcs sub remaining is)) = int (length (fst (poll_images arcs sub remaining is))) \<and>
    fst (snd (poll_images arcs sub remaining is)) \<le> remaining"
  using assms
proof (induction "is" arbitrary: arcs sub remaining)
  case (Cons i "is")
  show ?case
  proof (cases "sub_images sub ! i")
    case None
    then show ?thesis using Cons.IH [OF Cons.prems, of arcs sub] Cons.prems by auto
  next
    case (Some h)
    let ?l = "of_int (share remaining (sub_image_count sub) i) :: i32"
    let ?r = "poll_fragments (arcs ! sh_arc h) (sh_image h) ?l"
    show ?thesis
    proof (cases "0 < remaining")
      case True
      have "fst (snd ?r) \<le> share remaining (sub_image_count sub) i"
        using poll_fragments_count(2) [of ?l "arcs ! sh_arc h" "sh_image h"] share_limit [OF True Cons.prems(2)]
          share_bounds(1) [OF True] by (metis dual_order.trans zero_le_one)
      then have rem: "fst (snd ?r) \<le> remaining" using share_bounds(2) [OF True] by (rule order_trans)
      moreover have "0 \<le> fst (snd ?r)" by (simp add: poll_fragments_count(1))
      ultimately have r: "0 \<le> remaining - fst (snd ?r)" "remaining - fst (snd ?r) < 2 ^ 31"
        using Cons.prems(2) by simp_all
      show ?thesis
        unfolding poll_images_Cons [OF Some True] fst_conv snd_conv length_append of_nat_add
        using Cons.IH [OF r, of "arcs[sh_arc h := fst (snd (snd ?r))]"
            "sub\<lparr>sub_images := (sub_images sub)[i := Some (h\<lparr>sh_image := snd (snd (snd ?r))\<rparr>)]\<rparr>"]
          poll_fragments_count(1) [of "arcs ! sh_arc h" "sh_image h" ?l] by linarith
    qed (use Cons.prems in simp)
  qed
qed simp

text \<open>While the limit covers the images that are left, each of them is polled with a limit of at least one.\<close>

lemma poll_images_fair:
  assumes inv: "sub_inv sub" "distinct (map sh_arc (tracked sub))"
    and i: "i \<le> sub_image_count sub" and lim: "int (sub_image_count sub - i) \<le> remaining" "remaining < 2 ^ 31"
    and j: "i \<le> j" "j < sub_image_count sub"
  shows "set (fst (poll_fragments (arcs ! sh_arc (tracked sub ! j)) (sh_image (tracked sub ! j)) 1))
    \<subseteq> set (fst (poll_images arcs sub remaining [i..<sub_image_count sub]))"
  using assms
proof (induction "sub_image_count sub - i" arbitrary: arcs sub i remaining)
  case (Suc k)
  let ?n = "sub_image_count sub" let ?h = "tracked sub ! i"
  have i: "i < ?n" using Suc.hyps(2) by simp
  have pos: "0 < remaining" using Suc.prems(4) i by simp
  let ?l = "of_int (share remaining ?n i) :: i32"
  let ?r = "poll_fragments (arcs ! sh_arc ?h) (sh_image ?h) ?l"
  let ?h' = "?h\<lparr>sh_image := snd (snd (snd ?r))\<rparr>"
  let ?sub = "sub\<lparr>sub_images := (sub_images sub)[i := Some ?h']\<rparr>"
  let ?arcs = "arcs[sh_arc ?h := fst (snd (snd ?r))]"
  have l: "sint ?l = share remaining ?n i" by (rule share_limit [OF pos Suc.prems(5)])
  have step: "fst (poll_images arcs sub remaining [i..<?n]) =
      fst ?r @ fst (poll_images ?arcs ?sub (remaining - fst (snd ?r)) [Suc i..<?n])"
    unfolding upt_conv_Cons [OF i] poll_images_Cons [OF tracked_nth [OF Suc.prems(1) i] pos] by simp
  show ?case
  proof (cases "j = i")
    case True
    have "sint (1 :: i32) \<le> sint ?l" using share_bounds(1) [OF pos, of ?n i] l by simp
    from set_mono_prefix [OF poll_fragments_prefix [OF this]] show ?thesis
      unfolding step True by auto
  next
    case False
    have t: "tracked ?sub = (tracked sub)[i := ?h']"
      using i by (simp add: tracked_def take_update_swap map_update)
    have inv': "sub_inv ?sub" using Suc.prems(1) i by (auto simp: sub_inv_def nth_list_update)
    have "map sh_arc (tracked ?sub) = map sh_arc (tracked sub)"
      unfolding t using i tracked_length [OF Suc.prems(1)] by (simp add: map_update list_update_same_conv)
    then have d': "distinct (map sh_arc (tracked ?sub))" using Suc.prems(2) by simp
    have "fst (snd ?r) \<le> share remaining ?n i"
      using poll_fragments_count(2) [of ?l "arcs ! sh_arc ?h" "sh_image ?h"] l share_bounds(1) [OF pos, of ?n i]
      by simp
    moreover have "0 \<le> fst (snd ?r)" by (simp add: poll_fragments_count(1))
    ultimately have rem: "int (?n - Suc i) \<le> remaining - fst (snd ?r)" "remaining - fst (snd ?r) < 2 ^ 31"
      using share_bounds(3) [OF pos i Suc.prems(4)] Suc.prems(5) by linarith+
    have "sh_arc ?h \<noteq> sh_arc (tracked sub ! j)"
      using Suc.prems(2,7) i False tracked_length [OF Suc.prems(1)] by (simp add: distinct_conv_nth)
    then have "arcs ! sh_arc (tracked ?sub ! j) = ?arcs ! sh_arc (tracked ?sub ! j)"
      "tracked ?sub ! j = tracked sub ! j"
      unfolding t using False by simp_all
    moreover have "set (fst (poll_fragments (?arcs ! sh_arc (tracked ?sub ! j)) (sh_image (tracked ?sub ! j)) 1))
        \<subseteq> set (fst (poll_images ?arcs ?sub (remaining - fst (snd ?r)) [Suc i..<sub_image_count ?sub]))"
    proof (rule Suc.hyps(1) [OF _ inv' d'])
      show "k = sub_image_count ?sub - Suc i" using Suc.hyps(2) by simp
      show "Suc i \<le> j" "j < sub_image_count ?sub" "Suc i \<le> sub_image_count ?sub"
        using Suc.prems(6,7) False i by simp_all
      show "int (sub_image_count ?sub - Suc i) \<le> remaining - fst (snd ?r)" using rem(1) by simp
    qed (rule rem(2))
    ultimately show ?thesis unfolding step by (simp add: le_supI2)
  qed
qed simp

section \<open>Properties of polling\<close>

lemma poll_images_inv:
  "sub_inv sub \<Longrightarrow> \<forall>i \<in> set is. i < sub_image_count sub \<Longrightarrow>
   sub_inv (snd (snd (snd (poll_images arcs sub remaining is))))"
proof (induction "is" arbitrary: arcs sub remaining)
  case (Cons i "is")
  show ?case
  proof (cases "0 < remaining")
    case True
    have i: "i < sub_image_count sub" using Cons.prems by simp
    show ?thesis
      unfolding poll_images_Cons [OF tracked_nth [OF Cons.prems(1) i] True] snd_conv
      by (rule Cons.IH) (use Cons.prems i in \<open>auto simp: sub_inv_def nth_list_update\<close>)
  qed (use Cons.prems in simp)
qed simp

lemma drain_slots_inv:
  "sub_inv sub \<Longrightarrow> sub_inv (fst (drain_slots sub bridge is)) \<and>
   sub_stream_id (fst (drain_slots sub bridge is)) = sub_stream_id sub \<and>
   prefix (tracked sub) (tracked (fst (drain_slots sub bridge is)))"
proof (induction "is" arbitrary: sub bridge)
  case (Cons i "is")
  let ?n = "sub_image_count sub"
  have step: "sub_inv (sub\<lparr>sub_images := (sub_images sub)[?n := Some h], sub_image_count := Suc ?n\<rparr>)"
    "tracked (sub\<lparr>sub_images := (sub_images sub)[?n := Some h], sub_image_count := Suc ?n\<rparr>) = tracked sub @ [h]"
    if "?n < MAX_SUB_IMAGES" for h
    using Cons.prems that by (auto simp: sub_inv_def tracked_def nth_list_update take_Suc_conv_app_nth)
  show ?case
  proof (cases "MAX_SUB_IMAGES \<le> ?n")
    case False
    then have n: "?n < MAX_SUB_IMAGES" by simp
    show ?thesis
      using Cons.IH [OF Cons.prems] Cons.IH [OF step(1) [OF n]] False
      by (simp add: step(2) [OF n] split: option.split prod.split) (meson append_prefixD)
  qed (use Cons.prems in simp)
qed simp

text \<open>
  C24: the loop of \<open>remove_closed_images\<close> ends on every subscription, and leaves exactly the images
  whose receiver side is still open; it keeps the array packed.
\<close>

theorem remove_closed_terminates:
  assumes "sub_inv sub"
  shows "\<exists>sub'. remove_closed_images arcs sub = Some sub' \<and> sub_inv sub' \<and>
    mset (tracked sub') = filter_mset (\<lambda>h. \<not> is_closed (arcs ! sh_arc h)) (mset (tracked sub))"
  using remove_closed_result [OF assms] by blast

theorem remove_closed_terminates_witness:
  "\<exists>sub'. remove_closed_images [] (subscription_new 1 10 []) = Some sub' \<and> sub_inv sub' \<and>
    mset (tracked sub') = filter_mset (\<lambda>h. \<not> is_closed ([] ! sh_arc h)) (mset (tracked (subscription_new 1 10 [])))"
  by (rule remove_closed_terminates [OF sub_inv_new(1)])

text \<open>
  a poll always returns; it calls the handler exactly as often as the number it returns, at most
  \<open>limit\<close> times, and not at all for a limit that is not positive; the subscription's array of images
  stays packed and within its capacity.
\<close>

theorem poll_within_limit:
  assumes inv: "sub_inv sub"
  shows "\<exists>calls arcs' bridge' sub'.
    subscription_poll arcs bridge sub limit = Some (calls, int (length calls), arcs', bridge', sub') \<and>
    int (length calls) \<le> max 0 (sint limit) \<and> sub_inv sub'"
proof (cases "0 < sint limit")
  case True
  let ?d = "drain_bridge sub bridge"
  have d: "sub_inv (fst ?d)" using drain_slots_inv [OF inv] by (simp add: drain_bridge_def)
  then obtain sub2 where r: "remove_closed_images arcs (fst ?d) = Some sub2" "sub_inv sub2"
    using remove_closed_result by blast
  let ?p = "poll_images arcs sub2 (sint limit) [0..<sub_image_count sub2]"
  have lim: "sint limit < 2 ^ 31" using sint_lt [of limit] by simp
  have p: "fst (snd ?p) = int (length (fst ?p))" "int (length (fst ?p)) \<le> sint limit"
    using poll_images_bounded [OF less_imp_le [OF True] lim, of arcs sub2 "[0..<sub_image_count sub2]"] by simp_all
  have "sub_inv (snd (snd (snd ?p)))" using r(2) by (intro poll_images_inv) simp_all
  then show ?thesis
    using True r p by (cases "sub_image_count sub2 = 0") (simp_all add: subscription_poll_def case_prod_beta Let_def)
qed (use inv in \<open>simp add: subscription_poll_def\<close>)

theorem poll_within_limit_witness:
  "\<exists>calls arcs' bridge' sub'.
    subscription_poll [] subscription_bridge_new (subscription_new 1 10 []) 5 =
      Some (calls, int (length calls), arcs', bridge', sub') \<and>
    int (length calls) \<le> max 0 5 \<and> sub_inv sub'"
  using poll_within_limit [OF sub_inv_new(1), of "[]" subscription_bridge_new 1 10 "[]" 5] by simp

text \<open>
  C23: polling is fair: with a limit that is not below the number of images, the poll delivers from
  every image at least the fragment that a poll of that image alone would deliver first, however
  many fragments wait in the images before it.
\<close>

theorem poll_serves_every_image:
  assumes inv: "sub_inv sub" and drained: "drain_bridge sub bridge = (sub1, bridge')"
    and cleaned: "remove_closed_images arcs sub1 = Some sub2"
    and images: "distinct (map sh_arc (tracked sub2))" "h \<in> set (tracked sub2)"
    and limit: "int (length (tracked sub2)) \<le> sint limit"
  shows "\<exists>calls r. subscription_poll arcs bridge sub limit = Some (calls, r) \<and>
    set (fst (poll_fragments (arcs ! sh_arc h) (sh_image h) 1)) \<subseteq> set calls"
proof -
  have "sub_inv sub1" using drain_slots_inv [OF inv] drained by (metis drain_bridge_def fst_conv)
  then have inv2: "sub_inv sub2" using remove_closed_result [of sub1 arcs] cleaned by simp
  obtain j where j: "j < length (tracked sub2)" "h = tracked sub2 ! j" using images(2) by (metis in_set_conv_nth)
  have pos: "0 < sint limit" "sub_image_count sub2 \<noteq> 0" using limit j(1) tracked_length [OF inv2] by simp_all
  let ?p = "poll_images arcs sub2 (sint limit) [0..<sub_image_count sub2]"
  have "set (fst (poll_fragments (arcs ! sh_arc h) (sh_image h) 1)) \<subseteq> set (fst ?p)"
    unfolding j(2) using sint_lt [of limit] j(1) limit tracked_length [OF inv2]
    by (intro poll_images_fair [OF inv2 images(1)]) simp_all
  moreover have "subscription_poll arcs bridge sub limit =
      Some (fst ?p, fst (snd ?p), fst (snd (snd ?p)), bridge', snd (snd (snd ?p)))"
    using drained cleaned pos by (simp add: subscription_poll_def case_prod_beta Let_def)
  ultimately show ?thesis by blast
qed

definition one_image_subscription :: subscription where
  "one_image_subscription = (subscription_new 1 10 [])
     \<lparr>sub_images := (replicate MAX_SUB_IMAGES None)
        [0 := Some \<lparr>sh_arc = 0, sh_image = \<lparr>si_subscriber_position_local = 0\<rparr>\<rparr>], sub_image_count := 1\<rparr>"

lemma one_image_subscription:
  "sub_inv one_image_subscription"
  "tracked one_image_subscription = [\<lparr>sh_arc = 0, sh_image = \<lparr>si_subscriber_position_local = 0\<rparr>\<rparr>]"
  by (auto simp: sub_inv_def tracked_def one_image_subscription_def MAX_SUB_IMAGES_def nth_list_update
      take_Suc_conv_app_nth)

lemma drain_empty: "drain_slots sub (bridge_new n) is = (sub, bridge_new n)"
  by (induction "is" arbitrary: sub)
    (auto simp: peek_stream_id_def bridge_peek_def bridge_new_def SLOT_EMPTY_def SLOT_FILLED_def)

theorem poll_serves_every_image_witness:
  "\<exists>calls r. subscription_poll [small_image] subscription_bridge_new one_image_subscription 3 = Some (calls, r) \<and>
    set (fst (poll_fragments small_image \<lparr>si_subscriber_position_local = 0\<rparr> 1)) \<subseteq> set calls"
proof -
  have d: "drain_bridge one_image_subscription subscription_bridge_new = (one_image_subscription, subscription_bridge_new)"
    by (simp add: drain_bridge_def subscription_bridge_new_def drain_empty)
  obtain sub2 where c: "remove_closed_images [small_image] one_image_subscription = Some sub2"
      "mset (tracked sub2) = {#\<lparr>sh_arc = 0, sh_image = \<lparr>si_subscriber_position_local = 0\<rparr>\<rparr>#}"
    using remove_closed_result [OF one_image_subscription(1), of "[small_image]"]
    by (auto simp: one_image_subscription(2) is_closed_def small_image_def new_shared_image_def
        shared_log_buffer_new_def term_constants is_power_of_two.simps Let_def)
  then have "tracked sub2 = [\<lparr>sh_arc = 0, sh_image = \<lparr>si_subscriber_position_local = 0\<rparr>\<rparr>]" by simp
  then show ?thesis
    using poll_serves_every_image [OF one_image_subscription(1) d c(1),
        of "\<lparr>sh_arc = 0, sh_image = \<lparr>si_subscriber_position_local = 0\<rparr>\<rparr>" 3] by simp
qed

end
