(* ===== verification/Subscription_Delivery.thy ===== *)
theory Subscription_Delivery
  imports Subscription
begin

text \<open>
  The way of a stream through all parts of the receiving side: the setup frame creates an image and
  puts it on the bridge, data frames fill it, and the poll of a subscription takes the image from the
  bridge and hands the payloads to the application.
\<close>

section \<open>The image a setup frame creates\<close>

lemma fresh_slots:
  assumes "32 * (k + m) = tlen" "idx < 4"
  shows "bslice (idx * tlen) tlen (replicate (tlen * PARTITION_COUNT) 0) = enc_slots (replicate k None @ replicate m None)"
proof -
  have "idx * tlen + tlen \<le> tlen * 4" using mult_le_mono1 [of "Suc idx" 4 tlen] assms(2) by simp
  then have "bslice (idx * tlen) tlen (replicate (tlen * PARTITION_COUNT) 0) = replicate tlen (0 :: byte)"
    unfolding bslice_def PARTITION_COUNT_def drop_replicate take_replicate by (simp only: min_absorb1 add_le_imp_le_diff add.commute)
  also have "\<dots> = replicate (32 * k) 0 @ replicate (32 * m) 0"
    using assms(1) by (simp add: replicate_add [symmetric] distrib_left)
  finally show ?thesis by (simp add: enc_slots_holes)
qed

definition setup_handle :: "receiver_agent \<Rightarrow> i64 \<Rightarrow> receiver_handle" where
  "setup_handle ra pos = \<lparr>rh_arc = length (ra_arcs ra), rh_image = \<lparr>ri_receiver_position_local = pos\<rparr>\<rparr>"

lemma setup_creates_image:
  assumes inv: "receiver_inv ra" and acc: "setup_accepted ra su"
    and active: "su_active_term_id su = su_initial_term_id su + of_nat n" "n < 2 ^ 31"
    and off: "su_term_offset su = of_nat (32 * k)" "32 * (k + m) = unat (su_term_length su)"
    and room: "(n + 2) * unat (su_term_length su) < 2 ^ 62"
  defines "pos \<equiv> of_nat (n * unat (su_term_length su) + 32 * k)"
  shows "\<exists>ra'. on_setup ra su source = Some ra' \<and>
    image_at ra' (ra_image_count ra) (setup_handle ra pos) n (replicate k None) m \<and>
    image_key (ra_images ra' ! ra_image_count ra) = (su_session_id su, su_stream_id su) \<and>
    ie_active_term_id (ra_images ra' ! ra_image_count ra) = su_active_term_id su \<and>
    ii_term_length (ra_arcs ra' ! length (ra_arcs ra)) = unat (su_term_length su) \<and>
    \<not> ii_closed (ra_arcs ra' ! length (ra_arcs ra)) \<and> ra_endpoints ra' = ra_endpoints ra \<and>
    ra_sub_bridge ra' = map_option (\<lambda>b. fst (bridge_deposit b
      \<lparr>pi_image = \<lparr>sh_arc = length (ra_arcs ra), sh_image = \<lparr>si_subscriber_position_local = pos\<rparr>\<rparr>,
       pi_session_id = su_session_id su, pi_stream_id = su_stream_id su, pi_correlation_id = 0\<rparr>)) (ra_sub_bridge ra)"
proof -
  let ?t = "unat (su_term_length su)" let ?c = "ra_image_count ra" let ?a = "length (ra_arcs ra)"
  let ?img = "setup_image (ra_receiver_window_override ra) su source"
  have acc': "?c < ra_max_images ra" "32 \<le> sint (su_term_length su)" "is_power_of_two ?t"
      "(su_session_id su, su_stream_id su) \<notin> image_keys ra"
    using acc by (auto simp: setup_accepted_def)
  have t: "sint (su_term_length su) = int ?t" "?t < 2 ^ 31"
    using sint_nonneg [of "su_term_length su"] acc'(2) by simp_all
  have t32: "32 \<le> ?t" using acc'(2) t(1) by linarith
  have k: "32 * k < 2 ^ 31" using off(2) t(2) by simp
  have "sint (su_term_offset su) = int (32 * k)" unfolding off(1) using k by (intro sint_of_nat) simp
  then have sc: "(scast (su_term_offset su) :: i64) = of_nat (32 * k)" by (metis of_int_of_nat_eq of_int_sint)
  have "compute_position (su_initial_term_id su) ?t (su_active_term_id su) (32 * k) = pos"
    unfolding active(1) pos_def by (rule compute_position_of_nat [OF active(2)])
  then have pos: "scast (su_active_term_id su - su_initial_term_id su) * of_nat ?t + scast (su_term_offset su) = pos"
    unfolding compute_position_def sc .
  define inner where "inner = \<lparr>ii_log = \<lparr>slb_buffer = replicate (?t * PARTITION_COUNT) 0, slb_term_length = ?t\<rparr>,
      ii_receiver_position = pos, ii_subscriber_position = pos, ii_closed = False,
      ii_session_id = su_session_id su, ii_stream_id = su_stream_id su,
      ii_initial_term_id = su_initial_term_id su, ii_term_length = ?t,
      ii_term_length_mask = ?t - 1, ii_position_bits_to_shift = trailing_zeros ?t\<rparr>"
  have new: "new_shared_image (su_session_id su) (su_stream_id su) (su_initial_term_id su) (su_active_term_id su) ?t
      (su_term_offset su) = Some (inner, \<lparr>ri_receiver_position_local = pos\<rparr>, \<lparr>si_subscriber_position_local = pos\<rparr>)"
    using acc'(3) t32 pos
    by (simp add: new_shared_image_def shared_log_buffer_new_def term_constants inner_def Let_def)
  obtain ra' where r: "on_setup ra su source = Some ra'" "receiver_inv ra'" "ra_endpoints ra' = ra_endpoints ra"
    using on_setup_inv [OF inv, of su source] by blast
  have find: "find_image_in_index (ra_images ra) (ra_image_index ra) (su_session_id su) (su_stream_id su) = Some None"
    using find_image [OF inv, of "su_session_id su" "su_stream_id su"] acc'(4) by (force simp: image_keys_def)
  have len: "?c < length (ra_images ra)" "?c < length (ra_image_handles ra)"
    using receiver_invD(1-4) [OF inv] acc'(1) by simp_all
  have f: "ra_images ra' ! ?c = ?img" "ra_arcs ra' ! ?a = inner" "ra_image_count ra' = Suc ?c"
    "ra_image_handles ra' ! ?c = Some (setup_handle ra pos)"
    "ra_sub_bridge ra' = map_option (\<lambda>b. fst (bridge_deposit b
      \<lparr>pi_image = \<lparr>sh_arc = ?a, sh_image = \<lparr>si_subscriber_position_local = pos\<rparr>\<rparr>,
       pi_session_id = su_session_id su, pi_stream_id = su_stream_id su, pi_correlation_id = 0\<rparr>)) (ra_sub_bridge ra)"
    using r(1) find acc'(1-3) new len by (auto simp: on_setup_def Let_def setup_handle_def)
  have "slot_part inner (n mod 4 * ?t) (replicate k None @ replicate m None)"
    using fresh_slots [OF off(2), of "n mod 4"] off(2)
    by (simp add: slot_part_def inner_def slots_len_def enc_slots_holes valid_slots_def)
  then have "image_at ra' ?c (setup_handle ra pos) n (replicate k None) m"
    using r(2) f active room
    by (simp add: image_at_def setup_handle_def setup_image_def off(1) slots_len_def enc_slots_holes inner_def pos_def)
  then show ?thesis using r f by (simp add: image_key_def setup_image_def inner_def)
qed

section \<open>The subscription that takes it\<close>

lemma drain_unfilled:
  "\<forall>i \<in> set is. i < length b \<longrightarrow> bs_state (b ! i) \<noteq> SLOT_FILLED \<Longrightarrow> drain_slots sub b is = (sub, b)"
  by (induction "is") (auto simp: peek_stream_id_def bridge_peek_def)

lemma drain_single:
  assumes "pi_stream_id p = sub_stream_id sub" "sub_image_count sub < MAX_SUB_IMAGES"
  shows "fst (drain_bridge sub (fst (bridge_deposit subscription_bridge_new p))) =
    sub\<lparr>sub_images := (sub_images sub)[sub_image_count sub := Some (pi_image p)],
        sub_image_count := sub_image_count sub + 1\<rparr>"
proof -
  let ?e = "\<lparr>bs_state = SLOT_EMPTY, bs_data = None :: pending_image option\<rparr>"
  have b: "fst (bridge_deposit subscription_bridge_new p) =
      \<lparr>bs_state = SLOT_FILLED, bs_data = Some p\<rparr> # replicate 31 ?e"
    by (simp add: subscription_bridge_new_def bridge_new_def SUB_BRIDGE_CAPACITY_def numeral_eq_Suc)
  have "[0..<SUB_BRIDGE_CAPACITY] = 0 # [1..<SUB_BRIDGE_CAPACITY]"
    by (simp add: SUB_BRIDGE_CAPACITY_def upt_conv_Cons)
  then have "drain_bridge sub (fst (bridge_deposit subscription_bridge_new p)) =
      drain_slots (sub\<lparr>sub_images := (sub_images sub)[sub_image_count sub := Some (pi_image p)],
        sub_image_count := sub_image_count sub + 1\<rparr>)
        (\<lparr>bs_state = SLOT_EMPTY, bs_data = None\<rparr> # replicate 31 ?e) [1..<SUB_BRIDGE_CAPACITY]"
    using assms unfolding drain_bridge_def b by (simp add: peek_stream_id_def bridge_peek_def bridge_try_take_def)
  also have "\<dots> = (sub\<lparr>sub_images := (sub_images sub)[sub_image_count sub := Some (pi_image p)],
        sub_image_count := sub_image_count sub + 1\<rparr>, \<lparr>bs_state = SLOT_EMPTY, bs_data = None\<rparr> # replicate 31 ?e)"
    by (rule drain_unfilled) (auto simp: nth_Cons' SLOT_EMPTY_def SLOT_FILLED_def)
  finally show ?thesis by simp
qed

lemma poll_first_image:
  assumes p: "pi_stream_id p = stream" and op: "\<not> ii_closed (arcs ! sh_arc (pi_image p))" and lim: "0 < sint limit"
    and poll: "poll_fragments (arcs ! sh_arc (pi_image p)) (sh_image (pi_image p)) limit = (calls, r, inner, si)"
  shows "\<exists>arcs' bridge' sub'. subscription_poll arcs (fst (bridge_deposit subscription_bridge_new p))
      (subscription_new rid stream channel) limit = Some (calls, r, arcs', bridge', sub')"
proof -
  let ?new = "subscription_new rid stream channel" let ?h = "pi_image p"
  let ?b = "fst (bridge_deposit subscription_bridge_new p)"
  define sub1 where "sub1 = ?new\<lparr>sub_images := (sub_images ?new)[0 := Some ?h], sub_image_count := 1\<rparr>"
  have d: "fst (drain_bridge ?new ?b) = sub1"
    using drain_single [of p ?new] p by (simp add: sub1_def subscription_new_def Let_def MAX_SUB_IMAGES_def)
  have inv1: "sub_inv sub1" using drain_slots_inv [OF sub_inv_new(1), of rid stream channel ?b "[0..<SUB_BRIDGE_CAPACITY]"] d
    by (simp add: drain_bridge_def)
  have t1: "tracked sub1 = [?h]"
    by (simp add: tracked_def sub1_def subscription_new_def Let_def MAX_SUB_IMAGES_def take_Suc_conv_app_nth)
  obtain sub2 where r: "remove_closed_images arcs sub1 = Some sub2" "sub_inv sub2" "mset (tracked sub2) = {#?h#}"
    using remove_closed_result [OF inv1, of arcs] op by (auto simp: t1 is_closed_def)
  then have t2: "tracked sub2 = [?h]" by simp
  then have n: "sub_image_count sub2 = 1" using tracked_length [OF r(2)] by simp
  have "sub_images sub2 ! 0 = Some ?h" using tracked_nth [OF r(2), of 0] t2 n by simp
  then show ?thesis
    using d r(1) n lim poll by (simp add: subscription_poll_def case_prod_beta Let_def)
qed

section \<open>Setup, data, poll\<close>



end
