(* ===== verification/Concurrent_Steps.thy ===== *)
theory Concurrent_Steps
  imports Concurrent_Publication
begin

text \<open>
  The publisher thread and the sender thread of a concurrent publication, interleaved at the level
  of their memory accesses.  Each rule of \<open>cstep\<close> is one access (or the local computation before
  it) of \<open>offer\<close> or \<open>sender_scan\<close> in \<^verbatim>\<open>src/src/media/concurrent_publication.rs\<close>.  The sender's limit
  is any number of bytes up to the published position it has read, as \<open>do_send\<close> computes it.
\<close>

section \<open>The interleaved system\<close>

datatype pub_pc =
  PIdle | PHeader "byte list" | PPayload "byte list" | PCommit "byte list" | PPublish "byte list"
  | PPad | PPadCommit | PRotate

datatype scan_pc = SIdle | SScan nat nat nat nat

record conc_sys =
  cs_inner :: publication_inner
  cs_pub :: concurrent_publication
  cs_pc :: pub_pc
  cs_snd :: sender_publication
  cs_scan :: scan_pc
  cs_accepted :: "byte list list"
  cs_emitted :: "frame list"

definition conc_start ::
  "publication_inner \<times> concurrent_publication \<times> sender_publication \<Rightarrow> conc_sys" where
  "conc_start handles =
     (case handles of (inner, cp, sp) \<Rightarrow>
       \<lparr>cs_inner = inner, cs_pub = cp, cs_pc = PIdle, cs_snd = sp, cs_scan = SIdle,
        cs_accepted = [], cs_emitted = []\<rparr>)"

text \<open>
  Rotations are restricted as in \<open>rotation_safe\<close>, and to fewer than \<open>2 ^ 31\<close> terms.
\<close>

definition conc_rotation_safe :: "publication_inner \<Rightarrow> concurrent_publication \<Rightarrow> bool" where
  "conc_rotation_safe inner cp \<longleftrightarrow>
     (cp_term_offset cp = pi_term_length inner \<or>
      sint (cp_pub_position_local cp - pi_sender_position inner) \<le> 2 * int (pi_term_length inner)) \<and>
     unat (cp_active_term_id cp - pi_initial_term_id inner) < 2 ^ 31 - 1"

inductive cstep :: "conc_sys \<Rightarrow> conc_sys \<Rightarrow> bool" where
  check_fits:
    "cs_pc cs = PIdle \<Longrightarrow> length payload \<le> pi_max_payload_length (cs_inner cs) \<Longrightarrow>
     \<not> conc_back_pressured (cs_inner cs) (cs_pub cs) \<Longrightarrow>
     new_term_offset (cs_pub cs) payload \<le> pi_term_length (cs_inner cs) \<Longrightarrow>
     cstep cs (cs\<lparr>cs_pc := PHeader payload\<rparr>)"
| check_full:
    "cs_pc cs = PIdle \<Longrightarrow> length payload \<le> pi_max_payload_length (cs_inner cs) \<Longrightarrow>
     \<not> conc_back_pressured (cs_inner cs) (cs_pub cs) \<Longrightarrow>
     pi_term_length (cs_inner cs) < new_term_offset (cs_pub cs) payload \<Longrightarrow>
     conc_rotation_safe (cs_inner cs) (cs_pub cs) \<Longrightarrow>
     cstep cs (cs\<lparr>cs_pc := PPad\<rparr>)"
| header:
    "cs_pc cs = PHeader payload \<Longrightarrow> write_header (cs_inner cs) (cs_pub cs) = Some inner \<Longrightarrow>
     cstep cs (cs\<lparr>cs_inner := inner, cs_pc := PPayload payload\<rparr>)"
| payload:
    "cs_pc cs = PPayload payload \<Longrightarrow> write_payload (cs_inner cs) (cs_pub cs) payload = Some inner \<Longrightarrow>
     cstep cs (cs\<lparr>cs_inner := inner, cs_pc := PCommit payload\<rparr>)"
| commit:
    "cs_pc cs = PCommit payload \<Longrightarrow> commit_frame (cs_inner cs) (cs_pub cs) payload = Some inner \<Longrightarrow>
     cstep cs (cs\<lparr>cs_inner := inner, cs_pc := PPublish payload\<rparr>)"
| publish:
    "cs_pc cs = PPublish payload \<Longrightarrow> publish_frame (cs_inner cs) (cs_pub cs) payload = (inner, cp) \<Longrightarrow>
     cstep cs (cs\<lparr>cs_inner := inner, cs_pub := cp, cs_pc := PIdle,
       cs_accepted := cs_accepted cs @ [payload]\<rparr>)"
| pad:
    "cs_pc cs = PPad \<Longrightarrow> write_pad (cs_inner cs) (cs_pub cs) = Some inner \<Longrightarrow>
     cstep cs (cs\<lparr>cs_inner := inner, cs_pc := PPadCommit\<rparr>)"
| pad_commit:
    "cs_pc cs = PPadCommit \<Longrightarrow> commit_pad (cs_inner cs) (cs_pub cs) = Some inner \<Longrightarrow>
     cstep cs (cs\<lparr>cs_inner := inner, cs_pc := PRotate\<rparr>)"
| rotate:
    "cs_pc cs = PRotate \<Longrightarrow> conc_rotate_term (cs_inner cs) (cs_pub cs) = (inner, cp) \<Longrightarrow>
     cstep cs (cs\<lparr>cs_inner := inner, cs_pub := cp, cs_pc := PIdle\<rparr>)"
| scan_begin:
    "cs_scan cs = SIdle \<Longrightarrow> inner = cs_inner cs \<Longrightarrow>
     s = sp_sender_position_local (cs_snd cs) \<Longrightarrow>
     int limit \<le> max 0 (sint (pi_pub_position inner - s)) \<Longrightarrow>
     part_base = partition_index (pi_initial_term_id inner
         + ucast (signed_drop_bit (pi_position_bits_to_shift inner) s)) (pi_initial_term_id inner)
       * pi_term_length inner \<Longrightarrow>
     term_offset = unat (ucast (s AND of_nat (pi_term_length_mask inner)) :: 32 word) \<Longrightarrow>
     cstep cs (cs\<lparr>cs_scan :=
       SScan part_base (min limit (pi_term_length inner - term_offset)) term_offset 0\<rparr>)"
| scan_frame:
    "cs_scan cs = SScan part_base limit pos scanned \<Longrightarrow> inner = cs_inner cs \<Longrightarrow>
     pos < pi_term_length inner \<Longrightarrow> scanned < limit \<Longrightarrow>
     scan_frame_at (pi_term_length inner) (slb_buffer (pi_log inner)) part_base pos = Some (len, al) \<Longrightarrow>
     cstep cs (cs\<lparr>cs_scan := SScan part_base limit (pos + al) (scanned + al),
       cs_emitted := cs_emitted cs @ [bslice (part_base + pos) len (slb_buffer (pi_log inner))]\<rparr>)"
| scan_end:
    "cs_scan cs = SScan part_base limit pos scanned \<Longrightarrow> inner = cs_inner cs \<Longrightarrow>
     \<not> (pos < pi_term_length inner \<and> scanned < limit) \<or>
       scan_frame_at (pi_term_length inner) (slb_buffer (pi_log inner)) part_base pos = None \<Longrightarrow>
     s = sp_sender_position_local (cs_snd cs) + of_nat scanned \<Longrightarrow>
     cstep cs (cs\<lparr>cs_inner := (if 0 < scanned then inner\<lparr>pi_sender_position := s\<rparr> else inner),
       cs_snd := \<lparr>sp_sender_position_local = s\<rparr>, cs_scan := SIdle\<rparr>)"

text \<open>The states that a new publication reaches.\<close>

inductive creach :: "conc_sys \<Rightarrow> conc_sys \<Rightarrow> bool" where
  creach_refl: "creach cs cs"
| creach_step: "creach cs cs1 \<Longrightarrow> cstep cs1 cs2 \<Longrightarrow> creach cs cs2"

section \<open>What the sender can see\<close>

text \<open>
  A partition shows the frames of a term when it starts with their layout, whatever the publisher
  has written behind it so far.
\<close>

definition log_shows :: "nat \<Rightarrow> byte list \<Rightarrow> frame list list \<Rightarrow> bool" where
  "log_shows tlen buf hist \<longleftrightarrow>
     (\<forall>t < length hist. length hist \<le> t + 4 \<longrightarrow>
        (\<exists>rest. part_of buf tlen (t mod 4) = enc_frames (hist ! t) @ rest))"

lemma log_rel_shows: "log_rel tlen buf hist \<Longrightarrow> log_shows tlen buf hist"
  unfolding log_shows_def using log_relD(8) by blast

text \<open>Writing behind the frames of the active term leaves what is shown.\<close>

lemma log_shows_pending:
  assumes rel: "log_rel tlen buf (hs @ [fs])" and room: "enc_len fs + d + length xs \<le> tlen"
  shows "log_shows tlen (overwrite buf (length hs mod 4 * tlen + enc_len fs + d) xs) (hs @ [fs])"
proof -
  have len: "length buf = 4 * tlen" using log_relD(1) [OF rel] .
  let ?buf = "overwrite buf (length hs mod 4 * tlen + (enc_len fs + d)) xs"
  have "\<exists>rest. part_of ?buf tlen (t mod 4) = enc_frames ((hs @ [fs]) ! t) @ rest"
    if t: "t < length (hs @ [fs])" "length (hs @ [fs]) \<le> t + 4" for t
  proof (cases "t = length hs")
    case True
    have "part_of ?buf tlen (t mod 4) = overwrite (part_of buf tlen (t mod 4)) (enc_len fs + d) xs"
      unfolding True using len room by (intro part_of_overwrite) simp_all
    also have "\<dots> = overwrite (enc_frames fs @ replicate (tlen - enc_len fs) 0) (enc_len fs + d) xs"
      using log_relD(8) [OF rel, of "length hs"] True by simp
    finally show ?thesis using True by (simp add: overwrite_def)
  next
    case False
    with t have "t mod 4 \<noteq> length hs mod 4" by (intro mod4_neq) auto
    then have "part_of ?buf tlen (t mod 4) = part_of buf tlen (t mod 4)"
      using len room by (intro part_of_overwrite_other) auto
    with log_relD(8) [OF rel t] show ?thesis by simp
  qed
  then show ?thesis by (simp add: log_shows_def add.assoc)
qed

lemma scan_frame_shown:
  assumes shown: "log_shows tlen buf hist" and rel: "log_rel tlen buf0 hist"
    and t: "t < length hist" "length hist \<le> t + 4" and j: "j < length (hist ! t)"
    and pos: "pos = enc_len (take j (hist ! t))"
  shows "scan_frame_at tlen buf (t mod 4 * tlen) pos =
      Some (length (hist ! t ! j), align_frame_length (length (hist ! t ! j))) \<and>
    bslice (t mod 4 * tlen + pos) (length (hist ! t ! j)) buf = hist ! t ! j"
proof -
  let ?f = "hist ! t ! j" and ?part = "part_of buf tlen (t mod 4)"
  obtain rest where "?part = enc_frames (hist ! t) @ rest"
    using shown t by (auto simp: log_shows_def)
  moreover have h: "hist ! t = take j (hist ! t) @ ?f # drop (Suc j) (hist ! t)"
    using j by (rule id_take_nth_drop)
  ultimately have p: "?part = enc_frames (take j (hist ! t)) @ ?f @
      (replicate (align_frame_length (length ?f) - length ?f) 0 @ enc_frames (drop (Suc j) (hist ! t)) @ rest)"
    by (metis append.assoc enc_def enc_simps(2,3))
  have v: "valid_frame ?f" using log_relD(5) [OF rel t(1)] j by (simp add: list_all_length)
  have fits: "pos + align_frame_length (length ?f) \<le> tlen"
  proof -
    have "enc_len (take (Suc j) (hist ! t)) \<le> enc_len (hist ! t)"
      by (metis append_take_drop_id enc_simps(6) le_add1)
    with log_relD(6) [OF rel t(1)] j pos show ?thesis by (simp add: take_Suc_conv_app_nth)
  qed
  have l: "length ?f \<le> align_frame_length (length ?f)" by (rule align_ge)
  have r: "read_i32 ?part pos = read_i32 ?f 0"
    using valid_frame_length(3) [OF v] pos by (simp add: p read_skip read_i32_append)
  have s: "bslice pos (length ?f) ?part = ?f"
    using pos by (simp add: p bslice_def)
  have "scan_frame_at tlen ?part 0 pos = Some (length ?f, align_frame_length (length ?f))"
    using fits l valid_frame_length [OF v] r
    by (auto simp: scan_frame_at_def atomic_frame_length_load_def Let_def term_constants)
  then show ?thesis
    using s fits l unfolding part_of_def scan_frame_at_part [of tlen buf "t mod 4 * tlen"]
    by (simp add: slice_slice)
qed

section \<open>The invariant\<close>

definition inner_static :: "publication_inner \<Rightarrow> bool" where
  "inner_static inner \<longleftrightarrow>
     is_power_of_two (pi_term_length inner) \<and> 32 \<le> pi_term_length inner \<and>
     pi_term_length inner \<le> 2 ^ 30 \<and> pi_term_length_mask inner = pi_term_length inner - 1 \<and>
     pi_position_bits_to_shift inner = trailing_zeros (pi_term_length inner) \<and>
     slb_term_length (pi_log inner) = pi_term_length inner \<and> 32 \<le> pi_mtu inner \<and>
     pi_mtu inner \<le> pi_term_length inner \<and> pi_max_payload_length inner = pi_mtu inner - 32"

definition published_ok :: "frame list list \<Rightarrow> nat \<Rightarrow> bool" where
  "published_ok hist q \<longleftrightarrow> q = length (concat hist) \<or>
     last hist = [] \<and> Suc q = length (concat hist) \<and> \<not> is_data_frame (last (concat hist))"

text \<open>
  \<open>pub_inv tlen buf base off hdr0 f hist q win pc\<close>: what the buffer holds at each point of \<open>offer\<close>.
  \<open>win\<close> is the number of terms the sender still lets the publisher have.
\<close>

fun pub_inv :: "publication_inner \<Rightarrow> concurrent_publication \<Rightarrow> frame list list \<Rightarrow> nat \<Rightarrow> nat \<Rightarrow> pub_pc \<Rightarrow> bool" where
  "pub_inv inner cp hist q win PIdle \<longleftrightarrow>
     log_rel (pi_term_length inner) (slb_buffer (pi_log inner)) hist \<and>
     cp_term_offset cp = enc_len (last hist) \<and> published_ok hist q"
| "pub_inv inner cp hist q win (PHeader pl) \<longleftrightarrow>
     log_rel (pi_term_length inner) (slb_buffer (pi_log inner)) hist \<and>
     cp_term_offset cp = enc_len (last hist) \<and> published_ok hist q \<and>
     enc_len (last hist) + align_frame_length (32 + length pl) \<le> pi_term_length inner"
| "pub_inv inner cp hist q win (PPayload pl) \<longleftrightarrow>
     (\<exists>buf. log_rel (pi_term_length inner) buf hist \<and>
       slb_buffer (pi_log inner) = overwrite buf (offer_base inner cp)
         (data_header_bytes (offer_header (pi_session_id inner) (pi_stream_id inner)
            (cp_active_term_id cp) (cp_term_offset cp) 0))) \<and>
     cp_term_offset cp = enc_len (last hist) \<and> published_ok hist q \<and>
     enc_len (last hist) + align_frame_length (32 + length pl) \<le> pi_term_length inner"
| "pub_inv inner cp hist q win (PCommit pl) \<longleftrightarrow>
     (\<exists>buf. log_rel (pi_term_length inner) buf hist \<and>
       slb_buffer (pi_log inner) = overwrite buf (offer_base inner cp)
         (data_header_bytes (offer_header (pi_session_id inner) (pi_stream_id inner)
            (cp_active_term_id cp) (cp_term_offset cp) 0) @ pl)) \<and>
     cp_term_offset cp = enc_len (last hist) \<and> published_ok hist q \<and>
     enc_len (last hist) + align_frame_length (32 + length pl) \<le> pi_term_length inner"
| "pub_inv inner cp hist q win (PPublish pl) \<longleftrightarrow>
     log_rel (pi_term_length inner) (slb_buffer (pi_log inner)) hist \<and>
     (\<exists>hs fs f. hist = hs @ [fs @ [f]] \<and> cp_term_offset cp = enc_len fs \<and>
       published_ok (hs @ [fs]) q \<and> is_data_frame f \<and> drop DATA_HEADER_LENGTH f = pl \<and>
       length f = DATA_HEADER_LENGTH + length pl)"
| "pub_inv inner cp hist q win PPad \<longleftrightarrow>
     log_rel (pi_term_length inner) (slb_buffer (pi_log inner)) hist \<and>
     cp_term_offset cp = enc_len (last hist) \<and> q = length (concat hist) \<and>
     length hist < win \<and> length hist < 2 ^ 31"
| "pub_inv inner cp hist q win PPadCommit \<longleftrightarrow>
     (\<exists>buf. log_rel (pi_term_length inner) buf hist \<and>
       slb_buffer (pi_log inner) =
         (if cp_term_offset cp < pi_term_length inner
          then overwrite buf (offer_base inner cp + 4)
            (drop 4 (data_header_bytes (pad_header (pi_term_length inner - cp_term_offset cp)
               (cp_term_offset cp))))
          else buf)) \<and>
     cp_term_offset cp = enc_len (last hist) \<and> q = length (concat hist) \<and>
     length hist < win \<and> length hist < 2 ^ 31"
| "pub_inv inner cp hist q win PRotate \<longleftrightarrow>
     log_rel (pi_term_length inner) (slb_buffer (pi_log inner)) hist \<and>
     enc_len (last hist) = pi_term_length inner \<and>
     (q = length (concat hist) \<or>
       Suc q = length (concat hist) \<and> \<not> is_data_frame (last (concat hist))) \<and>
     length hist < win \<and> length hist < 2 ^ 31"

fun scan_inv :: "nat \<Rightarrow> frame list \<Rightarrow> nat \<Rightarrow> nat \<Rightarrow> nat \<Rightarrow> scan_pc \<Rightarrow> bool" where
  "scan_inv tlen fs q i k SIdle \<longleftrightarrow> k = 0"
| "scan_inv tlen fs q i k (SScan base limit pos scanned) \<longleftrightarrow>
     base = enc_len (take i fs) div tlen mod 4 * tlen \<and>
     enc_len (take (i + k) fs) = enc_len (take i fs) + scanned \<and>
     pos = enc_len (take i fs) mod tlen + scanned \<and>
     enc_len (take i fs) + limit \<le> enc_len (take q fs)"

text \<open>\<open>hist\<close> is the history, \<open>q\<close> frames are published, \<open>i\<close> scanned before and \<open>k\<close> in this pass.\<close>

definition cs_inv :: "conc_sys \<Rightarrow> frame list list \<Rightarrow> nat \<Rightarrow> nat \<Rightarrow> nat \<Rightarrow> bool" where
  "cs_inv cs hist q i k \<longleftrightarrow>
     inner_static (cs_inner cs) \<and>
     pub_inv (cs_inner cs) (cs_pub cs) hist q
       (enc_len (take i (concat hist)) div pi_term_length (cs_inner cs) + 4) (cs_pc cs) \<and>
     scan_inv (pi_term_length (cs_inner cs)) (concat hist) q i k (cs_scan cs) \<and>
     i + k \<le> q \<and> q \<le> length (concat hist) \<and> length hist \<le> 2 ^ 31 \<and>
     length hist \<le> enc_len (take i (concat hist)) div pi_term_length (cs_inner cs) + 4 \<and>
     cp_active_term_id (cs_pub cs) = pi_initial_term_id (cs_inner cs) + of_nat (length hist - 1) \<and>
     pi_pub_position (cs_inner cs) = of_nat (enc_len (take q (concat hist))) \<and>
     cp_pub_position_local (cs_pub cs) = of_nat (enc_len (take q (concat hist))) \<and>
     pi_sender_position (cs_inner cs) = of_nat (enc_len (take i (concat hist))) \<and>
     sp_sender_position_local (cs_snd cs) = of_nat (enc_len (take i (concat hist))) \<and>
     cs_emitted cs = take (i + k) (concat hist) \<and>
     cs_accepted cs = payloads (take q (concat hist))"

lemma published_ok_bound: "published_ok hist q \<Longrightarrow> q \<le> length (concat hist)"
  by (auto simp: published_ok_def)

lemma pub_inv_shows:
  assumes "pub_inv inner cp hist q win pc"
    and "cp_active_term_id cp = pi_initial_term_id inner + of_nat (length hist - 1)"
  shows "\<exists>buf. log_rel (pi_term_length inner) buf hist \<and>
    log_shows (pi_term_length inner) (slb_buffer (pi_log inner)) hist"
proof -
  let ?tlen = "pi_term_length inner"
  have base: "offer_base inner cp = length hs mod 4 * ?tlen + enc_len fs"
    if "hist = hs @ [fs]" "cp_term_offset cp = enc_len fs" for hs fs
    using that assms(2) partition_index_of_nat by (simp add: offer_base_def)
  have pend: "log_shows ?tlen (overwrite buf (offer_base inner cp + d) xs) hist"
    if rel: "log_rel ?tlen buf hist" and off: "cp_term_offset cp = enc_len (last hist)"
      and room: "enc_len (last hist) + d + length xs \<le> ?tlen" for buf d xs
  proof -
    obtain hs fs where h: "hist = hs @ [fs]" using log_relD(2) [OF rel] by (metis rev_exhaust)
    with base off log_shows_pending [of ?tlen buf hs fs d xs] rel room show ?thesis by simp
  qed
  show ?thesis
  proof (cases pc)
    case (PPayload pl)
    with assms(1) obtain buf where b: "log_rel ?tlen buf hist" "slb_buffer (pi_log inner) =
        overwrite buf (offer_base inner cp) (data_header_bytes (offer_header (pi_session_id inner)
          (pi_stream_id inner) (cp_active_term_id cp) (cp_term_offset cp) 0))"
      "cp_term_offset cp = enc_len (last hist)"
      "enc_len (last hist) + align_frame_length (32 + length pl) \<le> ?tlen"
      by auto
    with pend [OF b(1,3), of 0] align_ge [of "32 + length pl"] show ?thesis
      by (auto simp: dh.length_bytes)
  next
    case (PCommit pl)
    with assms(1) obtain buf where b: "log_rel ?tlen buf hist" "slb_buffer (pi_log inner) =
        overwrite buf (offer_base inner cp) (data_header_bytes (offer_header (pi_session_id inner)
          (pi_stream_id inner) (cp_active_term_id cp) (cp_term_offset cp) 0) @ pl)"
      "cp_term_offset cp = enc_len (last hist)"
      "enc_len (last hist) + align_frame_length (32 + length pl) \<le> ?tlen"
      by auto
    with pend [OF b(1,3), of 0] align_ge [of "32 + length pl"] show ?thesis
      by (auto simp: dh.length_bytes)
  next
    case PPadCommit
    with assms(1) obtain buf where b: "log_rel ?tlen buf hist" "slb_buffer (pi_log inner) =
        (if cp_term_offset cp < ?tlen then overwrite buf (offer_base inner cp + 4)
            (drop 4 (data_header_bytes (pad_header (?tlen - cp_term_offset cp) (cp_term_offset cp))))
          else buf)"
      "cp_term_offset cp = enc_len (last hist)"
      by auto
    have "enc_len (last hist) + 4 + 28 \<le> ?tlen" if "enc_len (last hist) < ?tlen"
    proof -
      have "32 dvd ?tlen - enc_len (last hist)"
        using log_relD(3) [OF b(1)] enc_len_dvd by simp
      then have "32 \<le> ?tlen - enc_len (last hist)" using that by (intro dvd_imp_le) simp_all
      with that show ?thesis by linarith
    qed
    with pend [OF b(1,3), of 4] b log_rel_shows show ?thesis
      by (auto simp: dh.length_bytes)
  qed (use assms(1) log_rel_shows in auto)
qed

section \<open>Steps of the publisher\<close>

lemma scan_inv_extend:
  assumes "scan_inv tlen fs q i k sc" "i + k \<le> q" "q \<le> length fs" "q \<le> q'"
  shows "scan_inv tlen (fs @ xs) q' i k sc"
proof (cases sc)
  case (SScan base limit pos scanned)
  have "enc_len (take q fs) \<le> enc_len (take q' (fs @ xs))"
    using enc_len_take_mono [of q q' "fs @ xs"] assms(3,4) by simp
  with assms SScan show ?thesis by auto
qed (use assms in simp)

lemma cs_inv_extend:
  assumes inv: "cs_inv cs hist q i k" and h: "concat hist' = concat hist @ xs"
    and pc: "pub_inv inner cp hist' q' (enc_len (take i (concat hist')) div pi_term_length inner + 4) pc"
    and st: "inner_static inner" "pi_term_length inner = pi_term_length (cs_inner cs)"
    and pos: "cp_active_term_id cp = pi_initial_term_id inner + of_nat (length hist' - 1)"
      "pi_pub_position inner = of_nat (enc_len (take q' (concat hist')))"
      "cp_pub_position_local cp = of_nat (enc_len (take q' (concat hist')))"
      "pi_sender_position inner = pi_sender_position (cs_inner cs)"
    and b: "q \<le> q'" "q' \<le> length (concat hist')" "length hist' \<le> 2 ^ 31"
      "length hist' \<le> enc_len (take i (concat hist)) div pi_term_length inner + 4"
    and acc: "acc = payloads (take q' (concat hist'))"
  shows "cs_inv (cs\<lparr>cs_inner := inner, cs_pub := cp, cs_pc := pc, cs_accepted := acc\<rparr>) hist' q' i k"
proof -
  have i: "i + k \<le> q" "q \<le> length (concat hist)" using inv by (simp_all add: cs_inv_def)
  then have t: "take i (concat hist') = take i (concat hist)"
    "take (i + k) (concat hist') = take (i + k) (concat hist)" by (simp_all add: h)
  have "scan_inv (pi_term_length inner) (concat hist') q' i k (cs_scan cs)"
    unfolding h using inv i b(1) st(2) by (intro scan_inv_extend) (simp_all add: cs_inv_def)
  then show ?thesis
    using inv pc st pos b acc i by (simp add: cs_inv_def t)
qed

lemma cs_inv_np:
  assumes inv: "cs_inv cs hist q i k" and idle: "cs_pc cs = PIdle"
  shows "np_inv (to_np (cs_inner cs) (cs_pub cs)) hist q i"
proof -
  have "np_mtu (to_np (cs_inner cs) (cs_pub cs)) = pi_mtu (cs_inner cs)" by (simp add: to_np_def)
  with inv idle show ?thesis
    by (auto simp: cs_inv_def np_inv_def inner_static_def published_ok_def)
qed

lemma cs_inv_last:
  assumes "cs_inv cs hist q i k"
  obtains hs fs where "hist = hs @ [fs]"
    "cp_active_term_id (cs_pub cs) = pi_initial_term_id (cs_inner cs) + of_nat (length hs)"
proof -
  obtain buf where "log_rel (pi_term_length (cs_inner cs)) buf hist"
    using pub_inv_shows [of "cs_inner cs" "cs_pub cs" hist q] assms by (auto simp: cs_inv_def)
  then obtain hs fs where "hist = hs @ [fs]" using log_relD(2) by (metis rev_exhaust)
  with assms that show ?thesis by (simp add: cs_inv_def)
qed

lemma new_term_offset_eq:
  assumes inv: "cs_inv cs hist q i k" and idle: "cs_pc cs = PIdle"
    and pl: "length payload \<le> pi_max_payload_length (cs_inner cs)"
  shows "new_term_offset (cs_pub cs) payload = enc_len (last hist) + align_frame_length (32 + length payload)"
    "align_frame_length (32 + length payload) \<le> pi_term_length (cs_inner cs)"
proof -
  have st: "inner_static (cs_inner cs)" and off: "cp_term_offset (cs_pub cs) = enc_len (last hist)"
    and rel: "log_rel (pi_term_length (cs_inner cs)) (slb_buffer (pi_log (cs_inner cs))) hist"
    using inv idle by (auto simp: cs_inv_def)
  show a: "align_frame_length (32 + length payload) \<le> pi_term_length (cs_inner cs)"
    using pl st log_relD(3) [OF rel] by (intro align_least) (auto simp: inner_static_def)
  have "enc_len (last hist) \<le> pi_term_length (cs_inner cs)"
    using log_relD(2) [OF rel] log_relD(6) [OF rel, of "length hist - 1"] by (simp add: last_conv_nth)
  with a st off show "new_term_offset (cs_pub cs) payload =
      enc_len (last hist) + align_frame_length (32 + length payload)"
    by (simp add: new_term_offset_def term_constants inner_static_def)
qed

lemma check_fits_inv:
  assumes inv: "cs_inv cs hist q i k" and idle: "cs_pc cs = PIdle"
    and pl: "length payload \<le> pi_max_payload_length (cs_inner cs)"
    and fits: "new_term_offset (cs_pub cs) payload \<le> pi_term_length (cs_inner cs)"
  shows "cs_inv (cs\<lparr>cs_pc := PHeader payload\<rparr>) hist q i k"
  using inv idle fits new_term_offset_eq(1) [OF inv idle pl] by (simp add: cs_inv_def)

lemma check_full_inv:
  assumes inv: "cs_inv cs hist q i k" and idle: "cs_pc cs = PIdle"
    and pl: "length payload \<le> pi_max_payload_length (cs_inner cs)"
    and bp: "\<not> conc_back_pressured (cs_inner cs) (cs_pub cs)"
    and full: "pi_term_length (cs_inner cs) < new_term_offset (cs_pub cs) payload"
    and safe: "conc_rotation_safe (cs_inner cs) (cs_pub cs)"
  shows "cs_inv (cs\<lparr>cs_pc := PPad\<rparr>) hist q i k"
proof -
  let ?np = "to_np (cs_inner cs) (cs_pub cs)" and ?tlen = "pi_term_length (cs_inner cs)"
  obtain hs fs where h: "hist = hs @ [fs]"
    "cp_active_term_id (cs_pub cs) = pi_initial_term_id (cs_inner cs) + of_nat (length hs)"
    using cs_inv_last [OF inv] .
  have np: "np_inv ?np (hs @ [fs]) q i" using cs_inv_np [OF inv idle] by (simp add: h)
  have "fs \<noteq> []" using full new_term_offset_eq [OF inv idle pl] h by auto
  then have q: "q = length (concat (hs @ [fs]))"
    using inv idle h by (auto simp: cs_inv_def published_ok_def)
  have "enc_len (take q (concat (hs @ [fs]))) < enc_len (take i (concat (hs @ [fs]))) + 3 * ?tlen"
    using bp np_back_pressure [OF np] by (simp add: conc_back_pressured_def del: concat_append)
  moreover have "rotation_safe ?np" using safe by (simp add: conc_rotation_safe_def rotation_safe_def)
  ultimately have w: "Suc (length hist) \<le> enc_len (take i (concat hist)) div ?tlen + 4"
    using window_after_rotate [OF np q] h by simp
  have "length hs < 2 ^ 31" using inv h by (simp add: cs_inv_def)
  then have "unat (of_nat (length hs) :: i32) = length hs" by (intro unat_of_nat_lt) simp
  with safe h have "length hist < 2 ^ 31" by (simp add: conc_rotation_safe_def)
  with inv idle w q h show ?thesis by (simp add: cs_inv_def)
qed

text \<open>Room for the frame behind the active term's frames.\<close>

lemma offer_base_last:
  assumes "cp_active_term_id cp = pi_initial_term_id inner + of_nat (length hs)"
    "cp_term_offset cp = enc_len fs"
  shows "offer_base inner cp = length hs mod 4 * pi_term_length inner + enc_len fs"
  using assms partition_index_of_nat by (simp add: offer_base_def)

lemma offer_room:
  assumes rel: "log_rel tlen buf (hs @ [fs])" and n: "enc_len fs + n \<le> tlen"
  shows "length hs mod 4 * tlen + enc_len fs + n \<le> length buf"
  using part_in_range [of "length hs mod 4" "enc_len fs + n" tlen] n log_relD(1) [OF rel]
  by (simp add: add.assoc)

lemma set_buffer_same: "slb_buffer (pi_log inner) = buf \<Longrightarrow> set_buffer inner buf = inner"
  by (auto simp: set_buffer_def)

lemma inner_static_set_buffer [simp]: "inner_static (set_buffer inner buf) = inner_static inner"
  by (simp add: inner_static_def)

lemma header_inv:
  assumes inv: "cs_inv cs hist q i k" and pc: "cs_pc cs = PHeader pl"
  shows "\<exists>inner. write_header (cs_inner cs) (cs_pub cs) = Some inner \<and>
    cs_inv (cs\<lparr>cs_inner := inner, cs_pc := PPayload pl\<rparr>) hist q i k"
proof -
  let ?inner = "cs_inner cs" and ?cp = "cs_pub cs"
  obtain hs fs where h: "hist = hs @ [fs]"
    "cp_active_term_id ?cp = pi_initial_term_id ?inner + of_nat (length hs)"
    using cs_inv_last [OF inv] .
  have p: "log_rel (pi_term_length ?inner) (slb_buffer (pi_log ?inner)) (hs @ [fs])"
    "cp_term_offset ?cp = enc_len fs"
    "enc_len fs + align_frame_length (32 + length pl) \<le> pi_term_length ?inner"
    using inv pc h by (auto simp: cs_inv_def)
  have "offer_base ?inner ?cp + (32 + length pl) \<le> length (slb_buffer (pi_log ?inner))"
    unfolding offer_base_last [OF h(2) p(2)] using p(3) align_ge [of "32 + length pl"]
    by (intro offer_room [OF p(1)]) linarith
  from write_steps(1) [OF refl refl this refl] p inv pc h show ?thesis
    by (auto simp: cs_inv_def)
qed

lemma payload_inv:
  assumes inv: "cs_inv cs hist q i k" and pc: "cs_pc cs = PPayload pl"
  shows "\<exists>inner. write_payload (cs_inner cs) (cs_pub cs) pl = Some inner \<and>
    cs_inv (cs\<lparr>cs_inner := inner, cs_pc := PCommit pl\<rparr>) hist q i k"
proof -
  let ?inner = "cs_inner cs" and ?cp = "cs_pub cs"
  obtain hs fs where h: "hist = hs @ [fs]"
    "cp_active_term_id ?cp = pi_initial_term_id ?inner + of_nat (length hs)"
    using cs_inv_last [OF inv] .
  obtain buf where p: "log_rel (pi_term_length ?inner) buf (hs @ [fs])"
    "cp_term_offset ?cp = enc_len fs"
    "enc_len fs + align_frame_length (32 + length pl) \<le> pi_term_length ?inner"
    and b: "slb_buffer (pi_log ?inner) = overwrite buf (offer_base ?inner ?cp)
         (data_header_bytes (offer_header (pi_session_id ?inner) (pi_stream_id ?inner)
            (cp_active_term_id ?cp) (cp_term_offset ?cp) 0))"
    using inv pc h by (auto simp: cs_inv_def)
  have room: "offer_base ?inner ?cp + (32 + length pl) \<le> length buf"
    unfolding offer_base_last [OF h(2) p(2)] using p(3) align_ge [of "32 + length pl"]
    by (intro offer_room [OF p(1)]) linarith
  note w = write_steps(2) [of buf "set_buffer ?inner buf" "offer_base ?inner ?cp" ?cp pl, OF _ _ room refl]
  have "write_payload ?inner ?cp pl = Some (set_buffer ?inner (overwrite buf (offer_base ?inner ?cp)
         (data_header_bytes (offer_header (pi_session_id ?inner) (pi_stream_id ?inner)
            (cp_active_term_id ?cp) (cp_term_offset ?cp) 0) @ pl)))"
    using w by (simp add: set_buffer_same [OF b])
  with p inv pc h show ?thesis by (auto simp: cs_inv_def)
qed

lemma commit_inv:
  assumes inv: "cs_inv cs hist q i k" and pc: "cs_pc cs = PCommit pl"
  shows "\<exists>inner hist'. commit_frame (cs_inner cs) (cs_pub cs) pl = Some inner \<and>
    cs_inv (cs\<lparr>cs_inner := inner, cs_pc := PPublish pl\<rparr>) hist' q i k"
proof -
  let ?inner = "cs_inner cs" and ?cp = "cs_pub cs" and ?tlen = "pi_term_length (cs_inner cs)"
  obtain hs fs where h: "hist = hs @ [fs]"
    "cp_active_term_id ?cp = pi_initial_term_id ?inner + of_nat (length hs)"
    using cs_inv_last [OF inv] .
  obtain buf where p: "log_rel ?tlen buf (hs @ [fs])" "cp_term_offset ?cp = enc_len fs"
    "enc_len fs + align_frame_length (32 + length pl) \<le> ?tlen" "published_ok (hs @ [fs]) q"
    and b: "slb_buffer (pi_log ?inner) = overwrite buf (offer_base ?inner ?cp)
         (data_header_bytes (offer_header (pi_session_id ?inner) (pi_stream_id ?inner)
            (cp_active_term_id ?cp) (cp_term_offset ?cp) 0) @ pl)"
    using inv pc h by (auto simp: cs_inv_def)
  let ?f = "offer_frame (pi_session_id ?inner) (pi_stream_id ?inner) (cp_active_term_id ?cp)
      (cp_term_offset ?cp) pl"
  have room: "offer_base ?inner ?cp + (32 + length pl) \<le> length buf"
    unfolding offer_base_last [OF h(2) p(2)] using p(3) align_ge [of "32 + length pl"]
    by (intro offer_room [OF p(1)]) linarith
  have "commit_frame ?inner ?cp pl = Some (set_buffer ?inner (overwrite buf (offer_base ?inner ?cp) ?f))"
    using write_steps(3) [of buf "set_buffer ?inner buf" "offer_base ?inner ?cp" ?cp pl, OF _ _ room refl]
    by (simp add: set_buffer_same [OF b])
  moreover have st: "inner_static ?inner" using inv by (simp add: cs_inv_def)
  then have small: "DATA_HEADER_LENGTH + length pl < 2 ^ 31"
    using p(3) align_ge [of "32 + length pl"] by (simp add: term_constants inner_static_def)
  note v = offer_frame_valid [OF small, of "pi_session_id ?inner" "pi_stream_id ?inner"
      "cp_active_term_id ?cp" "cp_term_offset ?cp"]
  have rel': "log_rel ?tlen (overwrite buf (offer_base ?inner ?cp) ?f) (hs @ [fs @ [?f]])"
    unfolding offer_base_last [OF h(2) p(2)] using v(1,4) p(3)
    by (intro log_append [OF p(1), of _ _ 0]) (simp_all add: term_constants)
  have "cs_inv (cs\<lparr>cs_inner := set_buffer ?inner (overwrite buf (offer_base ?inner ?cp) ?f),
      cs_pub := ?cp, cs_pc := PPublish pl, cs_accepted := cs_accepted cs\<rparr>) (hs @ [fs @ [?f]]) q i k"
    using inv h st rel' p v published_ok_bound [OF p(4)]
    by (intro cs_inv_extend [OF inv, of _ "[?f]"]) (auto simp: cs_inv_def)
  ultimately show ?thesis by auto
qed

lemma publish_inv:
  assumes inv: "cs_inv cs hist q i k" and pc: "cs_pc cs = PPublish pl"
    and r: "publish_frame (cs_inner cs) (cs_pub cs) pl = (inner, cp)"
  shows "\<exists>q'. cs_inv (cs\<lparr>cs_inner := inner, cs_pub := cp, cs_pc := PIdle,
      cs_accepted := cs_accepted cs @ [pl]\<rparr>) hist q' i k"
proof -
  let ?inner = "cs_inner cs" and ?cp = "cs_pub cs" and ?tlen = "pi_term_length (cs_inner cs)"
  obtain hs fs f where h: "hist = hs @ [fs @ [f]]" "cp_term_offset ?cp = enc_len fs"
    "published_ok (hs @ [fs]) q" "is_data_frame f" "drop DATA_HEADER_LENGTH f = pl"
    "length f = 32 + length pl" and rel: "log_rel ?tlen (slb_buffer (pi_log ?inner)) hist"
    using inv pc by (auto simp: cs_inv_def term_constants)
  have st: "inner_static ?inner" and n: "length hs < 2 ^ 31"
    and act: "cp_active_term_id ?cp = pi_initial_term_id ?inner + of_nat (length hs)"
    using inv h(1) by (simp_all add: cs_inv_def)
  let ?a = "align_frame_length (32 + length pl)"
  have "enc_len fs + ?a \<le> ?tlen" using log_relD(6) [OF rel, of "length hs"] h(1,6) by simp
  then have off: "new_term_offset ?cp pl = enc_len fs + ?a"
    using st h(2) by (simp add: new_term_offset_def term_constants inner_static_def)
  have tot: "enc_len (concat hist) = length hs * ?tlen + (enc_len fs + ?a)"
    using log_rel_total [of ?tlen _ hs "fs @ [f]"] rel h(1,6) by simp
  have pos: "compute_position (pi_initial_term_id ?inner) ?tlen (cp_active_term_id ?cp) (enc_len fs + ?a)
      = of_nat (enc_len (concat hist))"
    unfolding act tot by (rule compute_position_of_nat [OF n])
  have acc: "cs_accepted cs @ [pl] = payloads (concat hist)"
  proof -
    have "payloads (take q (concat (hs @ [fs]))) = payloads (concat (hs @ [fs]))"
    proof (cases "q = length (concat (hs @ [fs]))")
      case False
      with h(3) have q: "Suc q = length (concat (hs @ [fs]))"
        "\<not> is_data_frame (last (concat (hs @ [fs])))" by (auto simp: published_ok_def)
      obtain gs g where "concat (hs @ [fs]) = gs @ [g]"
        using q(1) by (cases "concat (hs @ [fs])" rule: rev_cases) (simp_all only: list.size)
      with q show ?thesis by (simp del: concat_append)
    qed simp
    moreover have "cs_accepted cs = payloads (take q (concat (hs @ [fs])))"
      using inv h(1) published_ok_bound [OF h(3)] by (simp add: cs_inv_def)
    ultimately show ?thesis using h(4,5) by (simp add: h(1))
  qed
  have ip: "inner = ?inner\<lparr>pi_pub_position := of_nat (enc_len (concat hist))\<rparr>"
    "cp = ?cp\<lparr>cp_term_offset := enc_len fs + ?a, cp_pub_position_local := of_nat (enc_len (concat hist))\<rparr>"
    using r off pos by (simp_all add: publish_frame_def Let_def)
  have "cs_inv (cs\<lparr>cs_inner := inner, cs_pub := cp, cs_pc := PIdle,
      cs_accepted := cs_accepted cs @ [pl]\<rparr>) hist (length (concat hist)) i k"
    using inv st rel acc h(1,6)
    by (intro cs_inv_extend [OF inv, of _ "[]"])
      (auto simp: cs_inv_def ip published_ok_def inner_static_def)
  then show ?thesis by blast
qed

lemma pad_room:
  assumes rel: "log_rel tlen buf (hs @ [fs])" and lt: "enc_len fs < tlen"
  shows "32 \<le> tlen - enc_len fs" "32 dvd tlen - enc_len fs"
    "length hs mod 4 * tlen + enc_len fs + 32 \<le> length buf"
proof -
  show d: "32 dvd tlen - enc_len fs" using log_relD(3) [OF rel] enc_len_dvd by simp
  then show r: "32 \<le> tlen - enc_len fs" using lt by (intro dvd_imp_le) simp_all
  show "length hs mod 4 * tlen + enc_len fs + 32 \<le> length buf"
    using r lt by (intro offer_room [OF rel]) linarith
qed

lemma no_pad:
  assumes "\<not> cp_term_offset cp < pi_term_length inner"
  shows "write_pad inner cp = Some inner" "commit_pad inner cp = Some inner"
  using assms by (simp_all add: write_pad_def commit_pad_def Let_def term_constants)

lemma pad_inv:
  assumes inv: "cs_inv cs hist q i k" and pc: "cs_pc cs = PPad"
  shows "\<exists>inner. write_pad (cs_inner cs) (cs_pub cs) = Some inner \<and>
    cs_inv (cs\<lparr>cs_inner := inner, cs_pc := PPadCommit\<rparr>) hist q i k"
proof (cases "cp_term_offset (cs_pub cs) < pi_term_length (cs_inner cs)")
  case False
  with no_pad [OF False] inv pc show ?thesis by (auto simp: cs_inv_def)
next
  case True
  let ?inner = "cs_inner cs" and ?cp = "cs_pub cs" and ?tlen = "pi_term_length (cs_inner cs)"
  obtain hs fs where h: "hist = hs @ [fs]"
    "cp_active_term_id ?cp = pi_initial_term_id ?inner + of_nat (length hs)"
    using cs_inv_last [OF inv] .
  have p: "log_rel ?tlen (slb_buffer (pi_log ?inner)) (hs @ [fs])" "cp_term_offset ?cp = enc_len fs"
    using inv pc h by (auto simp: cs_inv_def)
  note room = pad_room [OF p(1) True [unfolded p(2)]]
  have "write_pad ?inner ?cp = Some (set_buffer ?inner (overwrite (slb_buffer (pi_log ?inner))
      (offer_base ?inner ?cp + 4) (drop 4 (data_header_bytes
        (pad_header (?tlen - cp_term_offset ?cp) (cp_term_offset ?cp))))))"
    using room p(2) offer_base_last [OF h(2) p(2)] by (intro pad_steps(1)) simp_all
  with True p inv pc h show ?thesis by (auto simp: cs_inv_def)
qed

lemma pad_commit_inv:
  assumes inv: "cs_inv cs hist q i k" and pc: "cs_pc cs = PPadCommit"
  shows "\<exists>inner hist'. commit_pad (cs_inner cs) (cs_pub cs) = Some inner \<and>
    cs_inv (cs\<lparr>cs_inner := inner, cs_pc := PRotate\<rparr>) hist' q i k"
proof -
  let ?inner = "cs_inner cs" and ?cp = "cs_pub cs" and ?tlen = "pi_term_length (cs_inner cs)"
  obtain hs fs where h: "hist = hs @ [fs]"
    "cp_active_term_id ?cp = pi_initial_term_id ?inner + of_nat (length hs)"
    using cs_inv_last [OF inv] .
  let ?hdr = "data_header_bytes (pad_header (?tlen - cp_term_offset ?cp) (cp_term_offset ?cp))"
  obtain buf where p: "log_rel ?tlen buf (hs @ [fs])" "cp_term_offset ?cp = enc_len fs"
    "q = length (concat (hs @ [fs]))"
    "length (hs @ [fs]) < enc_len (take i (concat (hs @ [fs]))) div ?tlen + 4" "length (hs @ [fs]) < 2 ^ 31"
    and b: "slb_buffer (pi_log ?inner) = (if cp_term_offset ?cp < ?tlen
        then overwrite buf (offer_base ?inner ?cp + 4) (drop 4 ?hdr) else buf)"
    using inv pc h by (auto simp: cs_inv_def)
  have st: "inner_static ?inner" and iq: "i \<le> q" using inv by (simp_all add: cs_inv_def)
  show ?thesis
  proof (cases "cp_term_offset ?cp < ?tlen")
    case False
    then have full: "enc_len fs = ?tlen" using p(2) log_relD(6) [OF p(1), of "length hs"] by simp
    have "cs_inv (cs\<lparr>cs_pc := PRotate\<rparr>) hist q i k"
      using inv p b False full h by (simp add: cs_inv_def)
    with no_pad(2) [OF False] show ?thesis by auto
  next
    case True
    note room = pad_room [OF p(1) True [unfolded p(2)]]
    let ?f = "pad_frame (?tlen - enc_len fs) (enc_len fs)"
    have "?tlen - enc_len fs < 2 ^ 31" using st by (auto simp: inner_static_def)
    then have v: "valid_frame ?f" "length ?f = ?tlen - enc_len fs"
      using pad_frame_valid [of "?tlen - enc_len fs"] room(1) by (simp_all add: term_constants)
    have "set_buffer ?inner (overwrite buf (offer_base ?inner ?cp + 4) (drop 4 ?hdr)) = ?inner"
      using b True by (intro set_buffer_same) simp
    then have "commit_pad ?inner ?cp = Some (set_buffer ?inner (overwrite buf (offer_base ?inner ?cp) ?hdr))"
      using pad_steps(2) [of buf "set_buffer ?inner buf" "offer_base ?inner ?cp" ?cp, OF _ _ refl _ _ refl]
        room p(2) offer_base_last [OF h(2) p(2)] by simp
    moreover have rel': "log_rel ?tlen (overwrite buf (offer_base ?inner ?cp) ?hdr) (hs @ [fs @ [?f]])"
      unfolding offer_base_last [OF h(2) p(2)] p(2) using v room(2) True p(2)
      by (intro log_append [OF p(1) v(1) pad_frame_def]) (simp add: align_id)
    have "enc_len (fs @ [?f]) = ?tlen" using v(2) room(2) align_id True p(2) by simp
    then have "cs_inv (cs\<lparr>cs_inner := set_buffer ?inner (overwrite buf (offer_base ?inner ?cp) ?hdr),
        cs_pub := ?cp, cs_pc := PRotate, cs_accepted := cs_accepted cs\<rparr>) (hs @ [fs @ [?f]]) q i k"
      using inv h st rel' p iq
      by (intro cs_inv_extend [OF inv, of _ "[?f]"]) (auto simp: cs_inv_def)
    ultimately show ?thesis by auto
  qed
qed

lemma rotate_inv:
  assumes inv: "cs_inv cs hist q i k" and pc: "cs_pc cs = PRotate"
    and r: "conc_rotate_term (cs_inner cs) (cs_pub cs) = (inner, cp)"
  shows "cs_inv (cs\<lparr>cs_inner := inner, cs_pub := cp, cs_pc := PIdle\<rparr>) (hist @ [[]]) q i k"
proof -
  let ?inner = "cs_inner cs" and ?cp = "cs_pub cs" and ?tlen = "pi_term_length (cs_inner cs)"
  have p: "log_rel ?tlen (slb_buffer (pi_log ?inner)) hist" "enc_len (last hist) = ?tlen"
    "length hist < enc_len (take i (concat hist)) div ?tlen + 4" "length hist < 2 ^ 31"
    "q = length (concat hist) \<or> Suc q = length (concat hist) \<and> \<not> is_data_frame (last (concat hist))"
    and st: "inner_static ?inner"
    using inv pc by (auto simp: cs_inv_def)
  have ne: "hist \<noteq> []" using log_relD(2) [OF p(1)] .
  have act: "cp_active_term_id ?cp + 1 = pi_initial_term_id ?inner + of_nat (length hist)"
    using inv ne by (simp add: cs_inv_def Suc_le_eq)
  have part: "partition_index (cp_active_term_id ?cp + 1) (pi_initial_term_id ?inner) = length hist mod 4"
    unfolding act by (rule partition_index_of_nat)
  let ?buf = "overwrite (slb_buffer (pi_log ?inner)) (length hist mod 4 * ?tlen) (replicate ?tlen 0)"
  have tl: "slb_term_length (pi_log ?inner) = ?tlen" using st by (simp add: inner_static_def)
  have i: "inner = set_buffer ?inner ?buf" "cp = ?cp\<lparr>cp_active_term_id := cp_active_term_id ?cp + 1,
      cp_term_offset := 0\<rparr>"
    using r part tl
    by (simp_all add: conc_rotate_term_def Let_def shared_log_clean_partition_def PARTITION_COUNT_def
        set_buffer_def)
  have "log_rel ?tlen ?buf (hist @ [[]])" by (rule log_rotate [OF p(1,2)])
  then have "cs_inv (cs\<lparr>cs_inner := inner, cs_pub := cp, cs_pc := PIdle, cs_accepted := cs_accepted cs\<rparr>)
      (hist @ [[]]) q i k"
    using inv st p act
    by (intro cs_inv_extend [OF inv, of _ "[]"]) (auto simp: cs_inv_def i published_ok_def)
  then show ?thesis by simp
qed

section \<open>Steps of the sender\<close>

lemma cs_inv_bound:
  assumes "cs_inv cs hist q i k"
  shows "enc_len (take m (concat hist)) < 2 ^ 62"
proof -
  let ?tlen = "pi_term_length (cs_inner cs)"
  obtain buf where "log_rel ?tlen buf hist"
    using pub_inv_shows [of "cs_inner cs" "cs_pub cs" hist q] assms by (auto simp: cs_inv_def)
  then have "enc_len (take m (concat hist)) \<le> length hist * ?tlen" by (rule log_rel_bound)
  also have "\<dots> \<le> 2 ^ 31 * 2 ^ 30"
    using assms by (intro mult_le_mono) (simp_all add: cs_inv_def inner_static_def)
  also have "(2 ^ 31 * 2 ^ 30 :: nat) < 2 ^ 62" by simp
  finally show ?thesis .
qed

lemma scan_begin_inv:
  assumes inv: "cs_inv cs hist q i k" and idle: "cs_scan cs = SIdle"
    and s: "s = sp_sender_position_local (cs_snd cs)"
    and lim: "int limit \<le> max 0 (sint (pi_pub_position (cs_inner cs) - s))"
    and base: "part_base = partition_index (pi_initial_term_id (cs_inner cs)
         + ucast (signed_drop_bit (pi_position_bits_to_shift (cs_inner cs)) s))
         (pi_initial_term_id (cs_inner cs)) * pi_term_length (cs_inner cs)"
    and off: "off = unat (ucast (s AND of_nat (pi_term_length_mask (cs_inner cs))) :: 32 word)"
  shows "cs_inv (cs\<lparr>cs_scan := SScan part_base (min limit (pi_term_length (cs_inner cs) - off)) off 0\<rparr>)
    hist q i k"
proof -
  let ?tlen = "pi_term_length (cs_inner cs)" and ?s = "enc_len (take i (concat hist))"
    and ?p = "enc_len (take q (concat hist))"
  have st: "inner_static (cs_inner cs)" and s': "s = of_nat ?s" and k: "k = 0" "i \<le> q"
    and p: "pi_pub_position (cs_inner cs) = of_nat ?p"
    using inv idle s by (auto simp: cs_inv_def)
  obtain e where e: "?tlen = 2 ^ e" using st by (auto simp: inner_static_def is_power_of_two_iff)
  have mono: "?s \<le> ?p" using k(2) by (rule enc_len_take_mono)
  have "sint (pi_pub_position (cs_inner cs) - s) = int ?p - int ?s"
    unfolding p s' by (intro position_diff mono cs_inv_bound [OF inv])
  then have "?s + limit \<le> ?p" using lim mono by linarith
  moreover have "off = ?s mod ?tlen"
    using position_term_offset [OF e, of ?s] st unfolding off s' by (simp add: inner_static_def)
  moreover have "part_base = ?s div ?tlen mod 4 * ?tlen"
    using position_term_id [OF e cs_inv_bound [OF inv, of i]] st e partition_index_of_nat
    unfolding base s' by (simp add: inner_static_def)
  ultimately show ?thesis using inv k idle by (simp add: cs_inv_def min_le_iff_disj)
qed

lemma scan_frame_inv:
  assumes inv: "cs_inv cs hist q i k" and sc: "cs_scan cs = SScan part_base limit pos scanned"
    and go: "pos < pi_term_length (cs_inner cs)" "scanned < limit"
    and fr: "scan_frame_at (pi_term_length (cs_inner cs)) (slb_buffer (pi_log (cs_inner cs))) part_base pos
      = Some (len, al)"
  shows "cs_inv (cs\<lparr>cs_scan := SScan part_base limit (pos + al) (scanned + al),
      cs_emitted := cs_emitted cs @
        [bslice (part_base + pos) len (slb_buffer (pi_log (cs_inner cs)))]\<rparr>) hist q i (Suc k)"
proof -
  let ?tlen = "pi_term_length (cs_inner cs)" and ?fs = "concat hist"
  let ?s = "enc_len (take i ?fs)" and ?buf = "slb_buffer (pi_log (cs_inner cs))"
  have si: "part_base = ?s div ?tlen mod 4 * ?tlen" "enc_len (take (i + k) ?fs) = ?s + scanned"
    "pos = ?s mod ?tlen + scanned" "?s + limit \<le> enc_len (take q ?fs)"
    and q: "q \<le> length ?fs" and win: "length hist \<le> ?s div ?tlen + 4"
    using inv sc by (simp_all add: cs_inv_def)
  have "enc_len (take (i + k) ?fs) < enc_len (take q ?fs)" using si(2,4) go(2) by linarith
  then have lt: "i + k < q" by (rule enc_len_take_less)
  obtain buf0 where rel: "log_rel ?tlen buf0 hist" and shown: "log_shows ?tlen ?buf hist"
    using pub_inv_shows [of "cs_inner cs" "cs_pub cs" hist q] inv by (auto simp: cs_inv_def)
  obtain t j where t: "t < length hist" "j < length (hist ! t)" "(?s + scanned) div ?tlen = t"
    "(?s + scanned) mod ?tlen = enc_len (take j (hist ! t))"
    "drop (i + k) ?fs = drop j (hist ! t) @ concat (drop (Suc t) hist)"
    by (rule log_locate [OF rel less_le_trans [OF lt q] si(2) [symmetric]])
  have "?s + scanned = ?s div ?tlen * ?tlen + pos" using si(3) by simp
  then have dm: "(?s + scanned) div ?tlen = ?s div ?tlen" "(?s + scanned) mod ?tlen = pos"
    using go(1) by simp_all
  let ?f = "hist ! t ! j"
  have "scan_frame_at ?tlen ?buf (t mod 4 * ?tlen) pos = Some (length ?f, align_frame_length (length ?f)) \<and>
      bslice (t mod 4 * ?tlen + pos) (length ?f) ?buf = ?f"
    using win t(3,4) dm by (intro scan_frame_shown [OF shown rel t(1) _ t(2)]) simp_all
  then have f: "len = length ?f" "al = align_frame_length (length ?f)"
    "bslice (part_base + pos) len ?buf = ?f"
    using fr si(1) t(3) dm(1) by auto
  have "?fs ! (i + k) = hd (drop (i + k) ?fs)" using lt q by (simp add: hd_drop_conv_nth)
  also have "\<dots> = ?f" using t(2) by (simp add: t(5) hd_append hd_drop_conv_nth)
  finally have "?fs ! (i + k) = ?f" .
  then have tk: "take (Suc (i + k)) ?fs = take (i + k) ?fs @ [?f]"
    using lt q by (simp add: take_Suc_conv_app_nth)
  show ?thesis
    using inv sc lt si f tk by (simp add: cs_inv_def)
qed

lemma pub_inv_sender:
  "pub_inv inner cp hist q win pc \<Longrightarrow> win \<le> win' \<Longrightarrow>
     pub_inv (inner\<lparr>pi_sender_position := x\<rparr>) cp hist q win' pc"
  by (cases pc) (auto simp: offer_base_def)

lemma pub_inv_mono: "pub_inv inner cp hist q win pc \<Longrightarrow> win \<le> win' \<Longrightarrow> pub_inv inner cp hist q win' pc"
  by (cases pc) auto

lemma scan_end_inv:
  assumes inv: "cs_inv cs hist q i k" and sc: "cs_scan cs = SScan part_base limit pos scanned"
    and s: "s = sp_sender_position_local (cs_snd cs) + of_nat scanned"
  shows "cs_inv (cs\<lparr>cs_inner := (if 0 < scanned then (cs_inner cs)\<lparr>pi_sender_position := s\<rparr> else cs_inner cs),
       cs_snd := \<lparr>sp_sender_position_local = s\<rparr>, cs_scan := SIdle\<rparr>) hist q (i + k) 0"
proof -
  let ?tlen = "pi_term_length (cs_inner cs)" and ?fs = "concat hist"
  have e: "enc_len (take (i + k) ?fs) = enc_len (take i ?fs) + scanned"
    using inv sc by (simp add: cs_inv_def)
  have s': "s = of_nat (enc_len (take (i + k) ?fs))" using inv by (simp add: s e cs_inv_def)
  have w: "enc_len (take i ?fs) div ?tlen + 4 \<le> enc_len (take (i + k) ?fs) div ?tlen + 4"
    using e by (simp add: div_le_mono)
  have pi: "pub_inv (cs_inner cs) (cs_pub cs) hist q (enc_len (take i ?fs) div ?tlen + 4) (cs_pc cs)"
    using inv by (simp add: cs_inv_def)
  show ?thesis
  proof (cases "0 < scanned")
    case True
    with inv s' w pub_inv_sender [OF pi w] show ?thesis
      by (simp add: cs_inv_def inner_static_def)
  next
    case False
    with inv s' e w pub_inv_mono [OF pi w] show ?thesis by (simp add: cs_inv_def)
  qed
qed

section \<open>All reachable states\<close>

lemma cstep_inv:
  assumes "cstep cs cs'" "cs_inv cs hist q i k"
  shows "\<exists>hist' q' i' k'. cs_inv cs' hist' q' i' k'"
  using assms
proof (induction rule: cstep.induct)
  case (check_fits cs payload)
  then show ?case using check_fits_inv by blast
next
  case (check_full cs payload)
  then show ?case using check_full_inv by blast
next
  case (header cs payload inner)
  then show ?case using header_inv by (metis option.inject)
next
  case (payload cs payload inner)
  then show ?case using payload_inv by (metis option.inject)
next
  case (commit cs payload inner)
  then show ?case using commit_inv by (metis option.inject)
next
  case (publish cs payload inner cp)
  then show ?case using publish_inv by blast
next
  case (pad cs inner)
  then show ?case using pad_inv by (metis option.inject)
next
  case (pad_commit cs inner)
  then show ?case using pad_commit_inv by (metis option.inject)
next
  case (rotate cs inner cp)
  then show ?case using rotate_inv by blast
next
  case (scan_begin cs inner s limit part_base term_offset)
  then show ?case using scan_begin_inv by blast
next
  case (scan_frame cs part_base limit pos scanned inner len al)
  then show ?case using scan_frame_inv by blast
next
  case (scan_end cs part_base limit pos scanned inner s)
  then show ?case using scan_end_inv by blast
qed

lemma creach_inv:
  assumes "creach cs cs'" "cs_inv cs hist q i k"
  shows "\<exists>hist' q' i' k'. cs_inv cs' hist' q' i' k'"
  using assms by (induction rule: creach.induct) (blast intro: cstep_inv)+

lemma conc_start_inv:
  assumes new: "new_concurrent sid stid t0 tlen mtu = Some handles" and b: "tlen \<le> 2 ^ 30" "mtu \<le> tlen"
  shows "cs_inv (conc_start handles) [[]] 0 0 0"
proof -
  have t: "32 \<le> tlen" "is_power_of_two tlen" "32 \<le> mtu"
    using new by (auto simp: new_concurrent_def shared_log_buffer_new_def term_constants split: if_splits)
  then have "log_rel tlen (replicate (tlen * 4) 0) [[]]"
    using log_rel_new [of tlen] power_of_two_dvd by (simp add: mult.commute)
  with new b t show ?thesis
    by (auto simp: new_concurrent_def shared_log_buffer_new_def conc_start_def cs_inv_def
        inner_static_def published_ok_def term_constants)
qed

lemma cs_inv_emitted:
  assumes "cs_inv cs hist q i k"
  shows "prefix (payloads (cs_emitted cs)) (cs_accepted cs)" "list_all valid_frame (cs_emitted cs)"
proof -
  have "take q (concat hist) = take (i + k) (concat hist) @ take (q - (i + k)) (drop (i + k) (concat hist))"
    using assms by (metis cs_inv_def le_add_diff_inverse take_add)
  then show "prefix (payloads (cs_emitted cs)) (cs_accepted cs)"
    using assms by (simp add: cs_inv_def prefix_def)
  obtain buf where "log_rel (pi_term_length (cs_inner cs)) buf hist"
    using pub_inv_shows [of "cs_inner cs" "cs_pub cs" hist q] assms by (auto simp: cs_inv_def)
  from log_rel_frames [OF this] show "list_all valid_frame (cs_emitted cs)"
    using assms unfolding cs_inv_def list_all_iff by (metis in_set_takeD)
qed

text \<open>The pending memory access of the publisher stays inside the shared buffer.\<close>

fun offer_access_ok :: "publication_inner \<Rightarrow> concurrent_publication \<Rightarrow> pub_pc \<Rightarrow> bool" where
  "offer_access_ok inner cp (PHeader pl) = (write_header inner cp \<noteq> None)"
| "offer_access_ok inner cp (PPayload pl) = (write_payload inner cp pl \<noteq> None)"
| "offer_access_ok inner cp (PCommit pl) = (commit_frame inner cp pl \<noteq> None)"
| "offer_access_ok inner cp PPad = (write_pad inner cp \<noteq> None)"
| "offer_access_ok inner cp PPadCommit = (commit_pad inner cp \<noteq> None)"
| "offer_access_ok inner cp pc = True"

lemma cs_inv_access: "cs_inv cs hist q i k \<Longrightarrow> offer_access_ok (cs_inner cs) (cs_pub cs) (cs_pc cs)"
  using header_inv payload_inv commit_inv pad_inv pad_commit_inv by (cases "cs_pc cs") fastforce+

lemma creach_trans:
  assumes "creach b c" "creach a b"
  shows "creach a c"
  using assms by (induction rule: creach.induct) (auto intro: creach.intros)

lemma creach_cons: "cstep a b \<Longrightarrow> creach b c \<Longrightarrow> creach a c"
  by (rule creach_trans) (auto intro: creach.intros)

lemma offer_ok_steps:
  assumes idle: "cs_pc cs = PIdle"
    and r: "conc_offer (cs_inner cs) (cs_pub cs) payload = (Ok p, inner, cp)"
  shows "creach cs (cs\<lparr>cs_inner := inner, cs_pub := cp, cs_pc := PIdle,
      cs_accepted := cs_accepted cs @ [payload]\<rparr>)"
proof -
  obtain inner1 inner2 inner3 where w: "write_header (cs_inner cs) (cs_pub cs) = Some inner1"
    "write_payload inner1 (cs_pub cs) payload = Some inner2"
    "commit_frame inner2 (cs_pub cs) payload = Some inner3"
    "publish_frame inner3 (cs_pub cs) payload = (inner, cp)"
    and g: "length payload \<le> pi_max_payload_length (cs_inner cs)"
      "\<not> conc_back_pressured (cs_inner cs) (cs_pub cs)"
      "new_term_offset (cs_pub cs) payload \<le> pi_term_length (cs_inner cs)"
    using r by (auto simp: conc_offer_def Let_def not_less split: if_splits option.splits)
  have "cstep cs (cs\<lparr>cs_pc := PHeader payload\<rparr>)" using idle g by (rule cstep.check_fits)
  moreover have "cstep (cs\<lparr>cs_pc := PHeader payload\<rparr>) (cs\<lparr>cs_inner := inner1, cs_pc := PPayload payload\<rparr>)"
    using cstep.header [of "cs\<lparr>cs_pc := PHeader payload\<rparr>"] w by simp
  moreover have "cstep (cs\<lparr>cs_inner := inner1, cs_pc := PPayload payload\<rparr>)
      (cs\<lparr>cs_inner := inner2, cs_pc := PCommit payload\<rparr>)"
    using cstep.payload [of "cs\<lparr>cs_inner := inner1, cs_pc := PPayload payload\<rparr>"] w by simp
  moreover have "cstep (cs\<lparr>cs_inner := inner2, cs_pc := PCommit payload\<rparr>)
      (cs\<lparr>cs_inner := inner3, cs_pc := PPublish payload\<rparr>)"
    using cstep.commit [of "cs\<lparr>cs_inner := inner2, cs_pc := PCommit payload\<rparr>"] w by simp
  moreover have "cstep (cs\<lparr>cs_inner := inner3, cs_pc := PPublish payload\<rparr>)
      (cs\<lparr>cs_inner := inner, cs_pub := cp, cs_pc := PIdle,
      cs_accepted := cs_accepted cs @ [payload]\<rparr>)"
    using cstep.publish [of "cs\<lparr>cs_inner := inner3, cs_pc := PPublish payload\<rparr>"] w idle by simp
  ultimately show ?thesis by (meson creach_cons creach_refl)
qed

lemma offer_rotate_steps:
  assumes idle: "cs_pc cs = PIdle" and safe: "conc_rotation_safe (cs_inner cs) (cs_pub cs)"
    and r: "conc_offer (cs_inner cs) (cs_pub cs) payload = (Err AdminAction, inner, cp)"
  shows "creach cs (cs\<lparr>cs_inner := inner, cs_pub := cp, cs_pc := PIdle\<rparr>)"
proof -
  obtain inner1 inner2 where w: "write_pad (cs_inner cs) (cs_pub cs) = Some inner1"
    "commit_pad inner1 (cs_pub cs) = Some inner2" "conc_rotate_term inner2 (cs_pub cs) = (inner, cp)"
    and g: "length payload \<le> pi_max_payload_length (cs_inner cs)"
      "\<not> conc_back_pressured (cs_inner cs) (cs_pub cs)"
      "pi_term_length (cs_inner cs) < new_term_offset (cs_pub cs) payload"
    using r by (auto simp: conc_offer_def Let_def not_less split: if_splits option.splits)
  have "cstep cs (cs\<lparr>cs_pc := PPad\<rparr>)" using idle g safe by (rule cstep.check_full)
  moreover have "cstep (cs\<lparr>cs_pc := PPad\<rparr>) (cs\<lparr>cs_inner := inner1, cs_pc := PPadCommit\<rparr>)"
    using cstep.pad [of "cs\<lparr>cs_pc := PPad\<rparr>"] w by simp
  moreover have "cstep (cs\<lparr>cs_inner := inner1, cs_pc := PPadCommit\<rparr>) (cs\<lparr>cs_inner := inner2, cs_pc := PRotate\<rparr>)"
    using cstep.pad_commit [of "cs\<lparr>cs_inner := inner1, cs_pc := PPadCommit\<rparr>"] w by simp
  moreover have "cstep (cs\<lparr>cs_inner := inner2, cs_pc := PRotate\<rparr>) (cs\<lparr>cs_inner := inner, cs_pub := cp, cs_pc := PIdle\<rparr>)"
    using cstep.rotate [of "cs\<lparr>cs_inner := inner2, cs_pc := PRotate\<rparr>"] w idle by simp
  ultimately show ?thesis by (meson creach_cons creach_refl)
qed

section \<open>Properties\<close>


definition small_handles :: "publication_inner \<times> concurrent_publication \<times> sender_publication" where
  "small_handles = the (new_concurrent 7 10 100 32 32)"

lemma small_handles_new: "new_concurrent 7 10 100 32 32 = Some small_handles"
  by (simp add: small_handles_def new_concurrent_def shared_log_buffer_new_def term_constants
      is_power_of_two.simps)

lemma small_offer:
  "\<exists>p inner cp. conc_offer (cs_inner (conc_start small_handles)) (cs_pub (conc_start small_handles)) []
     = (Ok p, inner, cp)"
proof -
  let ?r = "conc_offer (cs_inner (conc_start small_handles)) (cs_pub (conc_start small_handles)) []"
  have "case ?r of (Ok _, _) \<Rightarrow> True | _ \<Rightarrow> False" by code_simp
  then show ?thesis by (cases ?r) (auto split: outcome.splits)
qed


text \<open>
  The interleaved steps are the steps of \<open>offer\<close>: whenever a call of \<open>offer\<close> on an idle publisher
  succeeds, or rotates the term safely, the interleaved system can go through exactly its accesses
  to the state the call leaves, in which the payload has been accepted (or nothing has).
\<close>

theorem offer_is_its_steps:
  assumes "cs_pc cs = PIdle"
  shows "(conc_offer (cs_inner cs) (cs_pub cs) payload = (Ok p, inner, cp) \<longrightarrow>
       creach cs (cs\<lparr>cs_inner := inner, cs_pub := cp, cs_pc := PIdle,
      cs_accepted := cs_accepted cs @ [payload]\<rparr>)) \<and>
    (conc_offer (cs_inner cs) (cs_pub cs) payload = (Err AdminAction, inner, cp) \<and>
       conc_rotation_safe (cs_inner cs) (cs_pub cs) \<longrightarrow>
       creach cs (cs\<lparr>cs_inner := inner, cs_pub := cp, cs_pc := PIdle\<rparr>))"
  using offer_ok_steps [OF assms] offer_rotate_steps [OF assms] by blast

theorem offer_is_its_steps_witness:
  "\<exists>cs. creach (conc_start small_handles) cs \<and> cs_accepted cs = [[]]"
proof -
  obtain p inner cp where
    o: "conc_offer (cs_inner (conc_start small_handles)) (cs_pub (conc_start small_handles)) [] = (Ok p, inner, cp)"
    using small_offer by blast
  have "cs_pc (conc_start small_handles) = PIdle" "cs_accepted (conc_start small_handles) = []"
    by (simp_all add: conc_start_def split: prod.splits)
  with offer_is_its_steps [of "conc_start small_handles" "[]" p inner cp] o show ?thesis
    by (intro exI [of _ "(conc_start small_handles)\<lparr>cs_inner := inner, cs_pub := cp,
      cs_pc := PIdle, cs_accepted := [[]]\<rparr>"]) simp
qed

text \<open>
  C21: The concurrent publication does what the single-threaded one does.  On a well-formed pair of
  handles \<open>offer\<close> returns the same result and leaves the same log, cursor and positions as the offer
  of the network publication, and \<open>sender_scan\<close> emits the same frames and moves the sender position
  in the same way.
\<close>

theorem concurrent_equals_network:
  assumes "conc_wf inner cp" "pi_sender_position inner = sp_sender_position_local sp"
    and "conc_offer inner cp payload = (r, inner1, cp1)"
    and "conc_sender_scan inner sp limit = (scan, inner2, sp2)"
  shows "np_offer (to_np inner cp) payload = (r, to_np inner1 cp1) \<and>
    np_sender_scan (to_np inner cp) limit = (scan, to_np inner2 cp) \<and>
    pi_sender_position inner2 = sp_sender_position_local sp2"
  using conc_offer_np [OF assms(1,3)] conc_scan_np [OF assms(1,2,4)] by blast

theorem concurrent_equals_network_witness:
  "\<exists>inner cp sp inner1 cp1. small_handles = (inner, cp, sp) \<and>
     np_offer (to_np inner cp) [] = (fst (conc_offer inner cp []), to_np inner1 cp1)"
proof -
  obtain inner cp sp where h: "small_handles = (inner, cp, sp)" by (cases small_handles)
  have "conc_wf inner cp" "pi_sender_position inner = sp_sender_position_local sp"
    using small_handles_new [unfolded h]
    by (auto simp: new_concurrent_def shared_log_buffer_new_def conc_wf_def term_constants
        split: if_splits)
  moreover obtain r inner1 cp1 where o: "conc_offer inner cp [] = (r, inner1, cp1)"
    by (cases "conc_offer inner cp []")
  moreover obtain scan inner2 sp2 where "conc_sender_scan inner sp 32 = (scan, inner2, sp2)"
    by (cases "conc_sender_scan inner sp 32")
  ultimately have "np_offer (to_np inner cp) [] = (r, to_np inner1 cp1)"
    using concurrent_equals_network by blast
  with h o show ?thesis
    by (intro exI [of _ inner] exI [of _ cp] exI [of _ sp] exI [of _ inner1] exI [of _ cp1]) simp
qed

end
