(* ===== verification/Retransmit.thy ===== *)
theory Retransmit
  imports Frame
begin

text \<open>
  The NAK-driven retransmit scheduler of \<^verbatim>\<open>src/src/media/retransmit_handler.rs\<close>: a table of 64
  actions, each inactive, delayed or lingering.  \<open>process_timeouts\<close> returns the calls of its
  callback as a list, because the callback has no access to the table.
\<close>

section \<open>Model\<close>

definition MAX_RETRANSMIT_ACTIONS :: nat where "MAX_RETRANSMIT_ACTIONS = 64"

datatype retransmit_state = Inactive | Delay i64 | Linger i64

record retransmit_action =
  ract_session_id :: i32
  ract_stream_id :: i32
  ract_term_id :: i32
  ract_term_offset :: i32
  ract_length :: i32
  ract_state :: retransmit_state

definition action_inactive :: retransmit_action where
  "action_inactive = \<lparr>ract_session_id = 0, ract_stream_id = 0, ract_term_id = 0,
     ract_term_offset = 0, ract_length = 0, ract_state = Inactive\<rparr>"

definition action_matches :: "retransmit_action \<Rightarrow> i32 \<Rightarrow> i32 \<Rightarrow> i32 \<Rightarrow> i32 \<Rightarrow> bool" where
  "action_matches a session_id stream_id term_id term_offset \<longleftrightarrow>
     ract_session_id a = session_id \<and> ract_stream_id a = stream_id \<and>
     ract_term_id a = term_id \<and> ract_term_offset a = term_offset"

record retransmit_handler =
  rt_actions :: "retransmit_action list"
  rt_delay_ns :: i64
  rt_linger_ns :: i64

definition retransmit_handler_new :: "i64 \<Rightarrow> i64 \<Rightarrow> retransmit_handler" where
  "retransmit_handler_new delay_ns linger_ns =
     \<lparr>rt_actions = replicate MAX_RETRANSMIT_ACTIONS action_inactive,
      rt_delay_ns = delay_ns, rt_linger_ns = linger_ns\<rparr>"

text \<open>The single pass of \<open>on_nak\<close>: \<open>None\<close> for a duplicate, otherwise the first free slot, if any.\<close>

fun nak_scan :: "nak_header \<Rightarrow> retransmit_action list \<Rightarrow> nat \<Rightarrow> nat option \<Rightarrow> nat option option" where
  "nak_scan nak [] i free_idx = Some free_idx"
| "nak_scan nak (action # actions) i free_idx =
     (if ract_state action = Inactive
      then nak_scan nak actions (Suc i) (if free_idx = None then Some i else free_idx)
      else if action_matches action (nak_session_id nak) (nak_stream_id nak)
                (nak_active_term_id nak) (nak_term_offset nak)
      then None
      else nak_scan nak actions (Suc i) free_idx)"

definition nak_action :: "nak_header \<Rightarrow> i64 \<Rightarrow> retransmit_action" where
  "nak_action nak expiry_ns =
     \<lparr>ract_session_id = nak_session_id nak, ract_stream_id = nak_stream_id nak,
      ract_term_id = nak_active_term_id nak, ract_term_offset = nak_term_offset nak,
      ract_length = nak_length nak, ract_state = Delay expiry_ns\<rparr>"

definition on_nak :: "retransmit_handler \<Rightarrow> nak_header \<Rightarrow> i64 \<Rightarrow> retransmit_handler \<times> bool" where
  "on_nak rh nak now_ns =
     (case nak_scan nak (rt_actions rh) 0 None of
        None \<Rightarrow> (rh, False)
      | Some None \<Rightarrow> (rh, False)
      | Some (Some idx) \<Rightarrow>
          (rh\<lparr>rt_actions := (rt_actions rh)[idx := nak_action nak (now_ns + rt_delay_ns rh)]\<rparr>, True))"

definition time_expired :: "i64 \<Rightarrow> i64 \<Rightarrow> bool" where
  "time_expired now_ns expiry_ns \<longleftrightarrow>
     0 \<le> sint (now_ns - expiry_ns) \<and> sint (now_ns - expiry_ns) < (2 ^ 63 - 1) div 2"

record retransmit_call =
  rc_session_id :: i32
  rc_stream_id :: i32
  rc_term_id :: i32
  rc_term_offset :: i32
  rc_length :: i32

definition action_call :: "retransmit_action \<Rightarrow> retransmit_call" where
  "action_call a = \<lparr>rc_session_id = ract_session_id a, rc_stream_id = ract_stream_id a,
     rc_term_id = ract_term_id a, rc_term_offset = ract_term_offset a, rc_length = ract_length a\<rparr>"

definition timeout_action ::
  "i64 \<Rightarrow> i64 \<Rightarrow> retransmit_action \<Rightarrow> retransmit_action \<times> retransmit_call list" where
  "timeout_action linger_ns now_ns a =
     (case ract_state a of
        Delay expiry_ns \<Rightarrow>
          if time_expired now_ns expiry_ns
          then (a\<lparr>ract_state := Linger (now_ns + linger_ns)\<rparr>, [action_call a])
          else (a, [])
      | Linger expiry_ns \<Rightarrow>
          if time_expired now_ns expiry_ns then (a\<lparr>ract_state := Inactive\<rparr>, []) else (a, [])
      | Inactive \<Rightarrow> (a, []))"

fun timeout_actions ::
  "i64 \<Rightarrow> i64 \<Rightarrow> retransmit_action list \<Rightarrow> retransmit_action list \<times> retransmit_call list" where
  "timeout_actions linger_ns now_ns [] = ([], [])"
| "timeout_actions linger_ns now_ns (a # as) =
     (let (a', calls) = timeout_action linger_ns now_ns a;
          (as', calls') = timeout_actions linger_ns now_ns as
      in (a' # as', calls @ calls'))"

definition process_timeouts ::
  "retransmit_handler \<Rightarrow> i64 \<Rightarrow> retransmit_handler \<times> retransmit_call list" where
  "process_timeouts rh now_ns =
     (let (actions, calls) = timeout_actions (rt_linger_ns rh) now_ns (rt_actions rh)
      in (rh\<lparr>rt_actions := actions\<rparr>, calls))"

definition active_count :: "retransmit_handler \<Rightarrow> nat" where
  "active_count rh = length (filter (\<lambda>a. ract_state a \<noteq> Inactive) (rt_actions rh))"

section \<open>The table as a finite map\<close>

type_synonym retransmit_key = "i32 \<times> i32 \<times> i32 \<times> i32"

definition action_key :: "retransmit_action \<Rightarrow> retransmit_key" where
  "action_key a = (ract_session_id a, ract_stream_id a, ract_term_id a, ract_term_offset a)"

definition nak_key :: "nak_header \<Rightarrow> retransmit_key" where
  "nak_key n = (nak_session_id n, nak_stream_id n, nak_active_term_id n, nak_term_offset n)"

definition call_key :: "retransmit_call \<Rightarrow> retransmit_key" where
  "call_key c = (rc_session_id c, rc_stream_id c, rc_term_id c, rc_term_offset c)"

abbreviation active_actions :: "retransmit_action list \<Rightarrow> retransmit_action list" where
  "active_actions as \<equiv> filter (\<lambda>a. ract_state a \<noteq> Inactive) as"

definition action_map :: "retransmit_action list \<Rightarrow> retransmit_key \<rightharpoonup> i32 \<times> retransmit_state" where
  "action_map as = map_of (map (\<lambda>a. (action_key a, ract_length a, ract_state a)) (active_actions as))"

definition retransmit_inv :: "retransmit_handler \<Rightarrow> bool" where
  "retransmit_inv rh \<longleftrightarrow> length (rt_actions rh) = MAX_RETRANSMIT_ACTIONS \<and>
     distinct (map action_key (active_actions (rt_actions rh)))"

lemma action_key_simps [simp]:
  "action_key (nak_action nak t) = nak_key nak"
  "action_key (a\<lparr>ract_state := s\<rparr>) = action_key a"
  "call_key (action_call a) = action_key a"
  "ract_state (nak_action nak t) = Delay t"
  "ract_length (nak_action nak t) = nak_length nak"
  by (simp_all add: action_key_def nak_key_def call_key_def nak_action_def action_call_def)

lemma action_matches_key:
  "action_matches a (nak_session_id n) (nak_stream_id n) (nak_active_term_id n) (nak_term_offset n) \<longleftrightarrow>
   action_key a = nak_key n"
  by (simp add: action_matches_def action_key_def nak_key_def)

lemma nak_scan_dup:
  "nak_scan nak as i free = None \<longleftrightarrow> nak_key nak \<in> action_key ` set (active_actions as)"
  by (induction nak as i free rule: nak_scan.induct) (auto simp: action_matches_key)

lemma nak_scan_free:
  assumes "nak_scan nak as i free = Some r"
  shows "r = (case free of Some j \<Rightarrow> Some j
              | None \<Rightarrow> if length (takeWhile (\<lambda>a. ract_state a \<noteq> Inactive) as) < length as
                       then Some (i + length (takeWhile (\<lambda>a. ract_state a \<noteq> Inactive) as)) else None)"
  using assms
  by (induction nak as i free rule: nak_scan.induct) (auto split: if_splits option.splits)

lemma first_inactive:
  fixes as :: "retransmit_action list"
  defines "k \<equiv> length (takeWhile (\<lambda>a. ract_state a \<noteq> Inactive) as)"
  shows "k < length as \<Longrightarrow> ract_state (as ! k) = Inactive"
    and "\<not> k < length as \<Longrightarrow> active_actions as = as"
  unfolding k_def using nth_length_takeWhile [of "\<lambda>a. ract_state a \<noteq> Inactive" as]
  by (simp, metis filter_True linorder_not_less set_takeWhileD take_all takeWhile_eq_take)

lemma active_update:
  assumes "k < length as" and "ract_state (as ! k) = Inactive"
  shows "active_actions (as[k := a]) =
    active_actions (take k as) @ active_actions [a] @ active_actions (drop (Suc k) as)"
    and "active_actions as = active_actions (take k as) @ active_actions (drop (Suc k) as)"
proof -
  show "active_actions (as[k := a]) =
    active_actions (take k as) @ active_actions [a] @ active_actions (drop (Suc k) as)"
    using assms(1) by (simp add: upd_conv_take_nth_drop)
  show "active_actions as = active_actions (take k as) @ active_actions (drop (Suc k) as)"
    using assms by (subst id_take_nth_drop [OF assms(1)]) simp
qed

lemma action_map_dom: "dom (action_map as) = action_key ` set (active_actions as)"
  by (auto simp: action_map_def dom_map_of_conv_image_fst image_image)

lemma active_count_card:
  assumes "retransmit_inv rh"
  shows "active_count rh = card (dom (action_map (rt_actions rh)))"
  using assms distinct_card [of "map action_key (active_actions (rt_actions rh))"]
  by (simp add: active_count_def action_map_dom retransmit_inv_def)

lemma action_map_iff:
  assumes "distinct (map action_key (active_actions as))"
  shows "action_map as k = Some v \<longleftrightarrow>
    (\<exists>a\<in>set as. ract_state a \<noteq> Inactive \<and> action_key a = k \<and> v = (ract_length a, ract_state a))"
proof -
  have "distinct (map fst (map (\<lambda>a. (action_key a, ract_length a, ract_state a)) (active_actions as)))"
    using assms by (simp add: comp_def)
  from map_of_eq_Some_iff [OF this, of k v] show ?thesis
    by (auto simp: action_map_def)
qed

lemma action_map_insert:
  assumes "k < length as" "ract_state (as ! k) = Inactive" "ract_state a \<noteq> Inactive"
    and "action_key a \<notin> action_key ` set (active_actions as)"
  shows "action_map (as[k := a]) = (action_map as)(action_key a \<mapsto> (ract_length a, ract_state a))"
proof -
  let ?m = "\<lambda>as. map_of (map (\<lambda>a. (action_key a, ract_length a, ract_state a)) (active_actions as))"
  have "action_key a \<notin> action_key ` set (active_actions (take k as))"
    using assms(4) active_update(2) [OF assms(1,2)] by auto
  then have none: "?m (take k as) (action_key a) = None"
    by (auto simp: map_of_eq_None_iff)
  have "action_map (as[k := a]) x = ((action_map as)(action_key a \<mapsto> (ract_length a, ract_state a))) x" for x
    unfolding action_map_def active_update(1) [OF assms(1,2)] active_update(2) [OF assms(1,2)]
    using none assms(3) by (auto simp: map_add_def simp del: filter_append split: option.splits)
  then show ?thesis ..
qed

text \<open>\<open>on_nak\<close> on the map: a known key and a full table leave it alone, anything else is entered.\<close>

lemma on_nak_cases:
  assumes "retransmit_inv rh"
  obtains "nak_key nak \<in> dom (action_map (rt_actions rh))" "on_nak rh nak now = (rh, False)"
  | "nak_key nak \<notin> dom (action_map (rt_actions rh))" "active_count rh = MAX_RETRANSMIT_ACTIONS"
    "on_nak rh nak now = (rh, False)"
  | k where "nak_key nak \<notin> dom (action_map (rt_actions rh))" "active_count rh < MAX_RETRANSMIT_ACTIONS"
    "k < length (rt_actions rh)" "ract_state (rt_actions rh ! k) = Inactive"
    "on_nak rh nak now =
      (rh\<lparr>rt_actions := (rt_actions rh)[k := nak_action nak (now + rt_delay_ns rh)]\<rparr>, True)"
proof (cases "nak_scan nak (rt_actions rh) 0 None")
  case None
  then show ?thesis
    using that(1) nak_scan_dup [of nak "rt_actions rh" 0 None] by (simp add: action_map_dom on_nak_def)
next
  case (Some r)
  let ?k = "length (takeWhile (\<lambda>a. ract_state a \<noteq> Inactive) (rt_actions rh))"
  have new: "nak_key nak \<notin> dom (action_map (rt_actions rh))"
    using Some nak_scan_dup [of nak "rt_actions rh" 0 None] by (simp add: action_map_dom)
  have r: "r = (if ?k < length (rt_actions rh) then Some ?k else None)"
    using nak_scan_free [OF Some] by simp
  show ?thesis
  proof (cases "?k < length (rt_actions rh)")
    case True
    have "rt_actions rh ! ?k \<in> set (rt_actions rh)" using True by (rule nth_mem)
    then have "active_count rh < MAX_RETRANSMIT_ACTIONS"
      using assms first_inactive(1) [OF True]
        length_filter_less [of "rt_actions rh ! ?k" "rt_actions rh" "\<lambda>a. ract_state a \<noteq> Inactive"]
      by (simp add: active_count_def retransmit_inv_def)
    moreover have "on_nak rh nak now =
        (rh\<lparr>rt_actions := (rt_actions rh)[?k := nak_action nak (now + rt_delay_ns rh)]\<rparr>, True)"
      using Some r True by (simp add: on_nak_def)
    ultimately show ?thesis
      using that(3) [OF new _ True first_inactive(1) [OF True]] by blast
  next
    case False
    then have "active_count rh = MAX_RETRANSMIT_ACTIONS"
      using assms first_inactive(2) [OF False] unfolding active_count_def retransmit_inv_def by simp
    moreover have "on_nak rh nak now = (rh, False)" using Some r False by (simp add: on_nak_def)
    ultimately show ?thesis using that(2) [OF new] by blast
  qed
qed

lemma on_nak_map:
  assumes "retransmit_inv rh"
  shows "retransmit_inv (fst (on_nak rh nak now))"
    and "snd (on_nak rh nak now) \<longleftrightarrow>
      nak_key nak \<notin> dom (action_map (rt_actions rh)) \<and> active_count rh < MAX_RETRANSMIT_ACTIONS"
    and "action_map (rt_actions (fst (on_nak rh nak now))) =
      (if snd (on_nak rh nak now)
       then (action_map (rt_actions rh))(nak_key nak \<mapsto> (nak_length nak, Delay (now + rt_delay_ns rh)))
       else action_map (rt_actions rh))"
proof -
  have d: "distinct (map action_key (active_actions (rt_actions rh)))" "length (rt_actions rh) = MAX_RETRANSMIT_ACTIONS"
    using assms by (simp_all add: retransmit_inv_def)
  have ins: "retransmit_inv (rh\<lparr>rt_actions := (rt_actions rh)[k := nak_action nak t]\<rparr>)"
    if "nak_key nak \<notin> dom (action_map (rt_actions rh))" "k < length (rt_actions rh)"
      "ract_state (rt_actions rh ! k) = Inactive" for k t
    using that(1) d unfolding retransmit_inv_def action_map_dom
    by (auto simp: active_update(1) [OF that(2,3)] active_update(2) [OF that(2,3)])
  show "retransmit_inv (fst (on_nak rh nak now))"
    by (rule on_nak_cases [OF assms, of nak now]) (use assms ins in simp_all)
  show "snd (on_nak rh nak now) \<longleftrightarrow>
      nak_key nak \<notin> dom (action_map (rt_actions rh)) \<and> active_count rh < MAX_RETRANSMIT_ACTIONS"
    by (rule on_nak_cases [OF assms, of nak now]) simp_all
  show "action_map (rt_actions (fst (on_nak rh nak now))) =
      (if snd (on_nak rh nak now)
       then (action_map (rt_actions rh))(nak_key nak \<mapsto> (nak_length nak, Delay (now + rt_delay_ns rh)))
       else action_map (rt_actions rh))"
    by (rule on_nak_cases [OF assms, of nak now])
      (simp_all add: action_map_insert action_map_dom)
qed

text \<open>\<open>process_timeouts\<close> on the map: each entry moves on by its own clock.\<close>

fun timeout_entry :: "i64 \<Rightarrow> i64 \<Rightarrow> i32 \<times> retransmit_state \<Rightarrow> (i32 \<times> retransmit_state) option" where
  "timeout_entry linger now (len, Delay e) =
     Some (len, if time_expired now e then Linger (now + linger) else Delay e)"
| "timeout_entry linger now (len, Linger e) = (if time_expired now e then None else Some (len, Linger e))"
| "timeout_entry linger now (len, Inactive) = None"

fun fires :: "i64 \<Rightarrow> retransmit_state \<Rightarrow> bool" where
  "fires now (Delay e) = time_expired now e"
| "fires now _ = False"

lemma timeout_actions_map:
  "timeout_actions linger now as =
   (map (fst \<circ> timeout_action linger now) as, map action_call (filter (fires now \<circ> ract_state) as))"
  by (induction as) (auto simp: timeout_action_def split: retransmit_state.splits)

lemma timeout_action_props:
  "action_key (fst (timeout_action linger now a)) = action_key a"
  "ract_length (fst (timeout_action linger now a)) = ract_length a"
  "ract_state a = Inactive \<Longrightarrow> ract_state (fst (timeout_action linger now a)) = Inactive"
  "ract_state a \<noteq> Inactive \<Longrightarrow>
     timeout_entry linger now (ract_length a, ract_state a) =
     (if ract_state (fst (timeout_action linger now a)) = Inactive then None
      else Some (ract_length a, ract_state (fst (timeout_action linger now a))))"
  by (auto simp: timeout_action_def split: retransmit_state.splits)

lemma active_timeout_keys:
  assumes "distinct (map action_key (active_actions as))"
  shows "distinct (map action_key (active_actions (map (fst \<circ> timeout_action linger now) as)))"
proof -
  let ?t = "fst \<circ> timeout_action linger now"
  have "map action_key (active_actions (map ?t as)) =
      map action_key (filter (\<lambda>a. ract_state (?t a) \<noteq> Inactive) as)"
    by (simp add: filter_map comp_def timeout_action_props)
  also have "filter (\<lambda>a. ract_state (?t a) \<noteq> Inactive) as =
      filter (\<lambda>a. ract_state (?t a) \<noteq> Inactive) (active_actions as)"
    using timeout_action_props(3) by (auto intro!: filter_cong)
  finally have "map action_key (active_actions (map ?t as)) =
      map action_key (filter (\<lambda>a. ract_state (?t a) \<noteq> Inactive) (active_actions as))" .
  then show ?thesis by (simp only: distinct_map_filter [OF assms])
qed

lemma option_eqI: "(\<And>v. x = Some v \<longleftrightarrow> y = Some v) \<Longrightarrow> x = y"
  by (cases x; cases y) auto

lemma eq_action_call: "c = action_call a \<longleftrightarrow> action_key a = call_key c \<and> rc_length c = ract_length a"
  by (cases c) (auto simp: action_call_def action_key_def call_key_def)

lemma fires_iff: "fires now s \<longleftrightarrow> (\<exists>e. s = Delay e \<and> time_expired now e)"
  by (cases s) auto

lemma filter_key_single:
  assumes "c \<in> set cs" "distinct (map f cs)"
  shows "filter (\<lambda>x. f x = f c) cs = [c]"
  using assms
proof (induction cs)
  case (Cons x cs)
  then show ?case by (cases "f x = f c") (auto simp: filter_empty_conv rev_image_eqI)
qed simp

lemma bex_image: "(\<exists>x\<in>f ` A. P x) \<longleftrightarrow> (\<exists>x\<in>A. P (f x))"
  by simp

lemma timeout_iff:
  "ract_state (fst (timeout_action linger now a)) \<noteq> Inactive \<and>
   action_key (fst (timeout_action linger now a)) = k \<and>
   v = (ract_length (fst (timeout_action linger now a)), ract_state (fst (timeout_action linger now a))) \<longleftrightarrow>
   ract_state a \<noteq> Inactive \<and> action_key a = k \<and>
   timeout_entry linger now (ract_length a, ract_state a) = Some v"
  using timeout_action_props(1,2) [of linger now a] timeout_action_props(3,4) [of a linger now]
  by (cases "ract_state a = Inactive") (auto split: if_splits)

lemma process_timeouts_map:
  fixes now :: i64
  assumes inv: "retransmit_inv rh"
  defines "rh' \<equiv> fst (process_timeouts rh now)" and "calls \<equiv> snd (process_timeouts rh now)"
  shows "retransmit_inv rh'"
    and "action_map (rt_actions rh') k =
      Option.bind (action_map (rt_actions rh) k) (timeout_entry (rt_linger_ns rh) now)"
    and "c \<in> set calls \<longleftrightarrow>
      (\<exists>e. action_map (rt_actions rh) (call_key c) = Some (rc_length c, Delay e) \<and> time_expired now e)"
    and "distinct (map call_key calls)"
proof -
  have d: "distinct (map action_key (active_actions (rt_actions rh)))"
    and len: "length (rt_actions rh) = MAX_RETRANSMIT_ACTIONS"
    using inv by (simp_all add: retransmit_inv_def)
  have as: "rt_actions rh' = map (fst \<circ> timeout_action (rt_linger_ns rh) now) (rt_actions rh)"
    and cs: "calls = map action_call (filter (fires now \<circ> ract_state) (rt_actions rh))"
    by (simp_all add: rh'_def calls_def process_timeouts_def timeout_actions_map)
  note d' = active_timeout_keys [OF d, of "rt_linger_ns rh" now]
  show "retransmit_inv rh'" using d' len by (simp add: retransmit_inv_def as)
  show "action_map (rt_actions rh') k =
      Option.bind (action_map (rt_actions rh) k) (timeout_entry (rt_linger_ns rh) now)"
  proof (rule option_eqI)
    fix v
    have "action_map (rt_actions rh') k = Some v \<longleftrightarrow>
      (\<exists>a\<in>set (rt_actions rh). ract_state a \<noteq> Inactive \<and> action_key a = k \<and>
         timeout_entry (rt_linger_ns rh) now (ract_length a, ract_state a) = Some v)"
      unfolding as action_map_iff [OF d'] set_map bex_image comp_apply timeout_iff by (rule refl)
    also have "\<dots> \<longleftrightarrow> (\<exists>w. action_map (rt_actions rh) k = Some w \<and>
         timeout_entry (rt_linger_ns rh) now w = Some v)"
      unfolding action_map_iff [OF d] by blast
    finally show "action_map (rt_actions rh') k = Some v \<longleftrightarrow>
      Option.bind (action_map (rt_actions rh) k) (timeout_entry (rt_linger_ns rh) now) = Some v"
      by (simp only: bind_eq_Some_conv)
  qed
  show "distinct (map call_key calls)"
  proof -
    have "filter (fires now \<circ> ract_state) (rt_actions rh) =
        filter (fires now \<circ> ract_state) (active_actions (rt_actions rh))"
      by (auto intro!: filter_cong)
    then have "map call_key calls =
        map action_key (filter (fires now \<circ> ract_state) (active_actions (rt_actions rh)))"
      by (simp add: cs comp_def)
    then show ?thesis by (simp only: distinct_map_filter [OF d])
  qed
  show "c \<in> set calls \<longleftrightarrow>
      (\<exists>e. action_map (rt_actions rh) (call_key c) = Some (rc_length c, Delay e) \<and> time_expired now e)"
  proof -
    have "c \<in> set calls \<longleftrightarrow> (\<exists>a\<in>set (rt_actions rh). fires now (ract_state a) \<and> c = action_call a)"
      by (auto simp: cs)
    also have "\<dots> \<longleftrightarrow> (\<exists>e. \<exists>a\<in>set (rt_actions rh). ract_state a = Delay e \<and> time_expired now e \<and>
        action_key a = call_key c \<and> rc_length c = ract_length a)"
      unfolding fires_iff eq_action_call by blast
    also have "\<dots> \<longleftrightarrow>
      (\<exists>e. action_map (rt_actions rh) (call_key c) = Some (rc_length c, Delay e) \<and> time_expired now e)"
      unfolding action_map_iff [OF d] prod.inject by (metis retransmit_state.distinct(1))
    finally show ?thesis .
  qed
qed

section \<open>Runs\<close>

text \<open>NAKs and timer passes in any order, each with the time the agent's clock shows.\<close>

datatype retransmit_event = NakArrives nak_header | TimeoutPass

fun retransmit_run ::
  "retransmit_handler \<Rightarrow> (nat \<times> retransmit_event) list \<Rightarrow> retransmit_handler \<times> (nat \<times> retransmit_call) list" where
  "retransmit_run rh [] = (rh, [])"
| "retransmit_run rh ((t, NakArrives nak) # es) = retransmit_run (fst (on_nak rh nak (of_nat t))) es"
| "retransmit_run rh ((t, TimeoutPass) # es) =
     (let pass = process_timeouts rh (of_nat t); rest = retransmit_run (fst pass) es
      in (fst rest, map (Pair t) (snd pass) @ snd rest))"

definition clock_max :: nat where "clock_max = 2 ^ 62 - 1"

lemma time_expired_nat:
  assumes "t < clock_max" "e < clock_max"
  shows "time_expired (of_nat t) (of_nat e) \<longleftrightarrow> e \<le> t"
proof -
  have "sint (word_of_int (int t - int e) :: i64) = int t - int e"
    using assms by (intro sint_of_int) (simp_all add: clock_max_def)
  then have "sint (of_nat t - of_nat e :: i64) = int t - int e"
    by (simp add: wi_hom_sub)
  then show ?thesis using assms by (simp add: time_expired_def clock_max_def)
qed

lemma on_nak_fields [simp]:
  "rt_delay_ns (fst (on_nak rh nak now)) = rt_delay_ns rh"
  "rt_linger_ns (fst (on_nak rh nak now)) = rt_linger_ns rh"
  by (simp_all add: on_nak_def split: option.split)

lemma process_timeouts_fields [simp]:
  "rt_delay_ns (fst (process_timeouts rh now)) = rt_delay_ns rh"
  "rt_linger_ns (fst (process_timeouts rh now)) = rt_linger_ns rh"
  by (simp_all add: process_timeouts_def split: prod.split)

lemma retransmit_run_append:
  "retransmit_run rh (es @ es') =
   (fst (retransmit_run (fst (retransmit_run rh es)) es'),
    snd (retransmit_run rh es) @ snd (retransmit_run (fst (retransmit_run rh es)) es'))"
  by (induction rh es rule: retransmit_run.induct) (simp_all add: Let_def)

lemma retransmit_run_linger [simp]: "rt_linger_ns (fst (retransmit_run rh es)) = rt_linger_ns rh"
  by (induction rh es rule: retransmit_run.induct) (simp_all add: Let_def)

lemma retransmit_run_inv: "retransmit_inv rh \<Longrightarrow> retransmit_inv (fst (retransmit_run rh es))"
  by (induction rh es rule: retransmit_run.induct)
    (simp_all add: Let_def on_nak_map(1) process_timeouts_map(1))

text \<open>An entry no event of the run moves on stays, and is not retransmitted.\<close>

definition keeps :: "i64 \<Rightarrow> i32 \<times> retransmit_state \<Rightarrow> nat \<Rightarrow> bool" where
  "keeps linger v t \<longleftrightarrow> timeout_entry linger (of_nat t) v = Some v \<and> \<not> fires (of_nat t) (snd v)"

lemma on_nak_keeps:
  assumes "retransmit_inv rh" "action_map (rt_actions rh) k = Some v"
  shows "action_map (rt_actions (fst (on_nak rh nak now))) k = Some v"
proof -
  have "k \<in> dom (action_map (rt_actions rh))" using assms(2) by (simp add: domIff)
  then show ?thesis using on_nak_map(2,3) [OF assms(1), of nak now] assms(2) by (cases "k = nak_key nak") simp_all
qed

lemma pass_keeps:
  assumes "retransmit_inv rh" "action_map (rt_actions rh) k = Some v" "keeps (rt_linger_ns rh) v t"
  shows "action_map (rt_actions (fst (process_timeouts rh (of_nat t)))) k = Some v"
    and "\<forall>c\<in>set (snd (process_timeouts rh (of_nat t))). call_key c \<noteq> k"
proof -
  show "action_map (rt_actions (fst (process_timeouts rh (of_nat t)))) k = Some v"
    using assms by (simp add: process_timeouts_map(2) keeps_def)
  show "\<forall>c\<in>set (snd (process_timeouts rh (of_nat t))). call_key c \<noteq> k"
    using assms(2,3) by (auto simp: process_timeouts_map(3) [OF assms(1)] keeps_def)
qed

lemma run_keeps:
  assumes "retransmit_inv rh" "action_map (rt_actions rh) k = Some v"
    and "\<forall>(t, e)\<in>set es. e = TimeoutPass \<longrightarrow> keeps (rt_linger_ns rh) v t"
  shows "action_map (rt_actions (fst (retransmit_run rh es))) k = Some v \<and>
    (\<forall>(t, c)\<in>set (snd (retransmit_run rh es)). call_key c \<noteq> k)"
  using assms
proof (induction rh es rule: retransmit_run.induct)
  case (2 rh t nak es)
  then show ?case using on_nak_map(1) [OF 2(2)] on_nak_keeps [OF 2(2,3)] by simp
next
  case (3 rh t es)
  have keep: "keeps (rt_linger_ns rh) v t" using 3(4) by simp
  note p = pass_keeps [OF 3(2,3) keep] process_timeouts_map(1) [OF 3(2)]
  show ?case
    using 3(1) [OF refl p(3,1)] 3(4) p(2) by (auto simp: Let_def)
qed simp

lemma keeps_nat:
  assumes "t < e" "e < clock_max"
  shows "keeps linger (len, Delay (of_nat e)) t" "keeps linger (len, Linger (of_nat e)) t"
  using time_expired_nat [of t e] assms by (simp_all add: keeps_def)

text \<open>The pass at or after the expiry fires the entry exactly once and lets it linger.\<close>

lemma pass_fires:
  assumes "retransmit_inv rh" "action_map (rt_actions rh) (call_key c) = Some (rc_length c, Delay (of_nat e))"
    and "e \<le> t" "t < clock_max"
  shows "filter (\<lambda>x. call_key x = call_key c) (snd (process_timeouts rh (of_nat t))) = [c]"
    and "action_map (rt_actions (fst (process_timeouts rh (of_nat t)))) (call_key c) =
      Some (rc_length c, Linger (of_nat t + rt_linger_ns rh))"
proof -
  have ex: "time_expired (of_nat t) (of_nat e)" using time_expired_nat [of t e] assms(3,4) by simp
  note m = process_timeouts_map [OF assms(1), where now = "of_nat t"]
  have mem: "c \<in> set (snd (process_timeouts rh (of_nat t)))" using ex assms(2) by (auto simp: m(3))
  show "filter (\<lambda>x. call_key x = call_key c) (snd (process_timeouts rh (of_nat t))) = [c]"
    using mem m(4) by (rule filter_key_single)
  show "action_map (rt_actions (fst (process_timeouts rh (of_nat t)))) (call_key c) =
      Some (rc_length c, Linger (of_nat t + rt_linger_ns rh))"
    using assms(2) ex by (simp add: m(2))
qed

definition nak_call :: "nak_header \<Rightarrow> retransmit_call" where
  "nak_call nak = \<lparr>rc_session_id = nak_session_id nak, rc_stream_id = nak_stream_id nak,
     rc_term_id = nak_active_term_id nak, rc_term_offset = nak_term_offset nak, rc_length = nak_length nak\<rparr>"

lemma nak_call_simps [simp]: "call_key (nak_call nak) = nak_key nak" "rc_length (nak_call nak) = nak_length nak"
  by (simp_all add: nak_call_def call_key_def nak_key_def)

text \<open>
  C16: the scheduler implements a finite map from ranges (session, stream, term, offset) to their
  length and timer: \<open>on_nak\<close> enters exactly the ranges that are not in it while there is room, and
  refuses the others without a change; \<open>process_timeouts\<close> moves every entry on by its own timer and
  calls back exactly for the delayed entries that expired, once each.  The number of active actions
  is the size of the map.
\<close>

theorem retransmit_table_refines:
  assumes inv: "retransmit_inv rh"
  shows "retransmit_inv (fst (on_nak rh nak now)) \<and>
    (snd (on_nak rh nak now) \<longleftrightarrow>
      nak_key nak \<notin> dom (action_map (rt_actions rh)) \<and>
      card (dom (action_map (rt_actions rh))) < MAX_RETRANSMIT_ACTIONS) \<and>
    action_map (rt_actions (fst (on_nak rh nak now))) =
      (if snd (on_nak rh nak now)
       then (action_map (rt_actions rh))(nak_key nak \<mapsto> (nak_length nak, Delay (now + rt_delay_ns rh)))
       else action_map (rt_actions rh)) \<and>
    retransmit_inv (fst (process_timeouts rh now)) \<and>
    action_map (rt_actions (fst (process_timeouts rh now))) k =
      Option.bind (action_map (rt_actions rh) k) (timeout_entry (rt_linger_ns rh) now) \<and>
    (c \<in> set (snd (process_timeouts rh now)) \<longleftrightarrow>
      (\<exists>e. action_map (rt_actions rh) (call_key c) = Some (rc_length c, Delay e) \<and> time_expired now e)) \<and>
    distinct (map call_key (snd (process_timeouts rh now))) \<and>
    active_count rh = card (dom (action_map (rt_actions rh)))"
  by (intro conjI)
    (simp_all only: on_nak_map [OF inv, of nak now] process_timeouts_map [OF inv, where now = now]
      active_count_card [OF inv])

definition sample_nak_header :: nak_header where
  "sample_nak_header = \<lparr>nak_frame_header = \<lparr>fh_frame_length = 28, fh_version = 0, fh_flags = 0,
       fh_frame_type = FRAME_TYPE_NAK\<rparr>,
     nak_session_id = 7, nak_stream_id = 1, nak_active_term_id = 3, nak_term_offset = 64, nak_length = 128\<rparr>"

lemma retransmit_inv_new: "retransmit_inv (retransmit_handler_new d l)"
  by (simp add: retransmit_inv_def retransmit_handler_new_def action_inactive_def)

lemma action_map_new: "action_map (rt_actions (retransmit_handler_new d l)) = Map.empty"
  by (simp add: action_map_def retransmit_handler_new_def action_inactive_def)

theorem retransmit_table_refines_witness:
  "snd (on_nak (retransmit_handler_new 5 10) sample_nak_header 0) \<and>
   action_map (rt_actions (fst (on_nak (retransmit_handler_new 5 10) sample_nak_header 0)))
     (7, 1, 3, 64) = Some (128, Delay 5)"
  using retransmit_table_refines [OF retransmit_inv_new, of 5 10 sample_nak_header 0]
  unfolding action_map_new
  by (simp add: MAX_RETRANSMIT_ACTIONS_def nak_key_def sample_nak_header_def retransmit_handler_new_def)

text \<open>
  C17: a NAK that \<open>on_nak\<close> accepts is retransmitted exactly once: not by a timer pass before its
  delay is over, by the first pass after it, and not again while the range lingers, whatever other
  NAKs, duplicates of it included, and timer passes the run contains.
\<close>

theorem nak_retransmitted_once:
  assumes inv: "retransmit_inv rh" and acc: "on_nak rh nak (of_nat t0) = (rh0, True)"
    and delay: "rt_delay_ns rh = of_nat d" "t0 + d < clock_max"
    and linger: "rt_linger_ns rh = of_nat l" "t1 + l < clock_max"
    and before: "\<forall>(t, e)\<in>set es1. t < t0 + d"
    and fire: "t0 + d \<le> t1"
    and after: "\<forall>(t, e)\<in>set es2. t < t1 + l"
  shows "filter (\<lambda>(t, c). call_key c = nak_key nak)
      (snd (retransmit_run rh0 (es1 @ (t1, TimeoutPass) # es2))) = [(t1, nak_call nak)]"
proof -
  note m = on_nak_map [OF inv, of nak "of_nat t0", unfolded acc, simplified]
  have f0: "rt_linger_ns rh0 = of_nat l" using on_nak_fields(2) [of rh nak "of_nat t0"] acc linger(1) by simp
  let ?r1 = "fst (retransmit_run rh0 es1)" and ?p = "process_timeouts (fst (retransmit_run rh0 es1)) (of_nat t1)"
  have "action_map (rt_actions rh0) (nak_key nak) = Some (nak_length nak, Delay (of_nat (t0 + d)))"
    using m(3) delay(1) by simp
  from run_keeps [OF m(1) this, of es1]
  have r1: "action_map (rt_actions ?r1) (nak_key nak) = Some (nak_length nak, Delay (of_nat (t0 + d)))"
    and c1: "\<forall>(t, c)\<in>set (snd (retransmit_run rh0 es1)). call_key c \<noteq> nak_key nak"
    using before keeps_nat(1) [OF _ delay(2)] by (fastforce simp del: of_nat_add)+
  have inv1: "retransmit_inv ?r1" using m(1) by (rule retransmit_run_inv)
  have "t1 < clock_max" using linger(2) by simp
  from pass_fires [OF inv1, of "nak_call nak", unfolded nak_call_simps, OF r1 fire this]
  have c2: "filter (\<lambda>x. call_key x = nak_key nak) (snd ?p) = [nak_call nak]"
    and r2: "action_map (rt_actions (fst ?p)) (nak_key nak) = Some (nak_length nak, Linger (of_nat (t1 + l)))"
    using f0 by simp_all
  from run_keeps [OF process_timeouts_map(1) [OF inv1] r2, of es2]
  have c3: "\<forall>(t, c)\<in>set (snd (retransmit_run (fst ?p) es2)). call_key c \<noteq> nak_key nak"
    using after keeps_nat(2) [OF _ linger(2)] by (fastforce simp del: of_nat_add)
  show ?thesis
    using c1 c2 c3
    by (simp add: retransmit_run_append Let_def filter_map comp_def case_prod_beta filter_empty_conv)
qed

theorem nak_retransmitted_once_witness:
  "filter (\<lambda>(t, c). call_key c = nak_key sample_nak_header)
     (snd (retransmit_run (fst (on_nak (retransmit_handler_new 5 10) sample_nak_header 0))
        [(3, TimeoutPass), (4, NakArrives sample_nak_header), (6, TimeoutPass), (7, NakArrives sample_nak_header),
         (15, TimeoutPass)])) = [(6, nak_call sample_nak_header)]"
proof -
  let ?rh = "retransmit_handler_new 5 10"
  have "snd (on_nak ?rh sample_nak_header 0)"
    using on_nak_map(2) [OF retransmit_inv_new] active_count_card [OF retransmit_inv_new]
    by (simp add: action_map_new MAX_RETRANSMIT_ACTIONS_def)
  then have acc: "on_nak ?rh sample_nak_header (of_nat 0) = (fst (on_nak ?rh sample_nak_header 0), True)"
    by (simp add: prod_eq_iff)
  show ?thesis
    using nak_retransmitted_once [OF retransmit_inv_new acc, of 5 10 6
        "[(3, TimeoutPass), (4, NakArrives sample_nak_header)]"
        "[(7, NakArrives sample_nak_header), (15, TimeoutPass)]"]
    by (simp add: retransmit_handler_new_def clock_max_def)
qed

end
