(* ===== verification/Sender.thy ===== *)
theory Sender
  imports Concurrent_Steps Retransmit Endpoints Bridge
begin

text \<open>
  The sender agent of \<^verbatim>\<open>src/src/agent/sender.rs\<close>: the publications it serves, flow control from
  status messages, round-trip times, the send pass over all publications, retransmission and the duty
  cycle.

  A cross-thread publication shares its memory with the application; the shared part is kept in the
  store \<open>sa_arcs\<close> and an entry names its position.  The poller is an argument of the operations.
  \<open>None\<close> is a panic.
\<close>

unbundle bit_operations_syntax

section \<open>Publication entries\<close>

datatype publication_kind =
  Local network_publication
| Concurrent nat sender_publication

record publication_entry =
  pe_kind :: publication_kind
  pe_endpoint_idx :: nat
  pe_dest_addr :: "sockaddr_storage option"
  pe_needs_setup :: bool
  pe_time_of_last_send_ns :: i64
  pe_time_of_last_setup_ns :: i64
  pe_sender_limit :: i64
  pe_time_of_last_rttm_ns :: i64
  pe_last_rtt_ns :: i64

type_synonym publication_store = "publication_inner list"

definition pe_session_id :: "publication_store \<Rightarrow> publication_entry \<Rightarrow> i32" where
  "pe_session_id arcs e =
     (case pe_kind e of Local np \<Rightarrow> np_session_id np | Concurrent a sp \<Rightarrow> pi_session_id (arcs ! a))"

definition pe_stream_id :: "publication_store \<Rightarrow> publication_entry \<Rightarrow> i32" where
  "pe_stream_id arcs e =
     (case pe_kind e of Local np \<Rightarrow> np_stream_id np | Concurrent a sp \<Rightarrow> pi_stream_id (arcs ! a))"

definition pe_initial_term_id :: "publication_store \<Rightarrow> publication_entry \<Rightarrow> i32" where
  "pe_initial_term_id arcs e =
     (case pe_kind e of Local np \<Rightarrow> np_initial_term_id np | Concurrent a sp \<Rightarrow> pi_initial_term_id (arcs ! a))"

definition pe_active_term_id :: "publication_store \<Rightarrow> publication_entry \<Rightarrow> i32" where
  "pe_active_term_id arcs e =
     (case pe_kind e of Local np \<Rightarrow> np_active_term_id np | Concurrent a sp \<Rightarrow> active_term_id_approx (arcs ! a))"

definition pe_term_offset :: "publication_store \<Rightarrow> publication_entry \<Rightarrow> nat" where
  "pe_term_offset arcs e =
     (case pe_kind e of Local np \<Rightarrow> np_term_offset np | Concurrent a sp \<Rightarrow> term_offset_approx (arcs ! a))"

definition pe_term_length :: "publication_store \<Rightarrow> publication_entry \<Rightarrow> nat" where
  "pe_term_length arcs e =
     (case pe_kind e of Local np \<Rightarrow> np_term_length np | Concurrent a sp \<Rightarrow> pi_term_length (arcs ! a))"

definition pe_mtu :: "publication_store \<Rightarrow> publication_entry \<Rightarrow> nat" where
  "pe_mtu arcs e = (case pe_kind e of Local np \<Rightarrow> np_mtu np | Concurrent a sp \<Rightarrow> pi_mtu (arcs ! a))"

definition pe_compute_position :: "publication_store \<Rightarrow> publication_entry \<Rightarrow> i32 \<Rightarrow> nat \<Rightarrow> i64" where
  "pe_compute_position arcs e term_id term_offset =
     (case pe_kind e of
        Local np \<Rightarrow> compute_position (np_initial_term_id np) (np_term_length np) term_id term_offset
      | Concurrent a sp \<Rightarrow>
          compute_position (pi_initial_term_id (arcs ! a)) (pi_term_length (arcs ! a)) term_id term_offset)"

definition pe_sender_position :: "publication_entry \<Rightarrow> i64" where
  "pe_sender_position e =
     (case pe_kind e of Local np \<Rightarrow> np_sender_position np | Concurrent a sp \<Rightarrow> sp_sender_position_local sp)"

definition pe_pub_position :: "publication_store \<Rightarrow> publication_entry \<Rightarrow> i64" where
  "pe_pub_position arcs e =
     (case pe_kind e of Local np \<Rightarrow> np_pub_position np | Concurrent a sp \<Rightarrow> pi_pub_position (arcs ! a))"

definition pe_sender_scan ::
  "publication_store \<Rightarrow> publication_entry \<Rightarrow> nat \<Rightarrow>
   ((nat \<times> byte list) list \<times> nat) \<times> publication_store \<times> publication_entry" where
  "pe_sender_scan arcs e limit =
     (case pe_kind e of
        Local np \<Rightarrow>
          let (scan, np') = np_sender_scan np limit in (scan, arcs, e\<lparr>pe_kind := Local np'\<rparr>)
      | Concurrent a sp \<Rightarrow>
          let (scan, inner, sp') = conc_sender_scan (arcs ! a) sp limit
          in (scan, arcs[a := inner], e\<lparr>pe_kind := Concurrent a sp'\<rparr>))"

definition pe_retransmit_scan ::
  "publication_store \<Rightarrow> publication_entry \<Rightarrow> i32 \<Rightarrow> nat \<Rightarrow> nat \<Rightarrow> (nat \<times> byte list) list \<times> nat" where
  "pe_retransmit_scan arcs e term_id off limit =
     (let part_idx = partition_index term_id (pe_initial_term_id arcs e)
      in case pe_kind e of
           Local np \<Rightarrow> raw_log_scan_frames (np_raw_log np) part_idx off limit
         | Concurrent a sp \<Rightarrow> scan_term_at (arcs ! a) part_idx off limit)"

text \<open>\<open>i64::MAX >> 1\<close>\<close>

definition half_range_i64 :: int where "half_range_i64 = (2 ^ 63 - 1) div 2"

definition update_sender_limit_from_sm ::
  "publication_store \<Rightarrow> publication_entry \<Rightarrow> i32 \<Rightarrow> i32 \<Rightarrow> i32 \<Rightarrow> publication_entry" where
  "update_sender_limit_from_sm arcs e consumption_term_id consumption_term_offset receiver_window =
     (let consumption_position =
            pe_compute_position arcs e consumption_term_id (unat consumption_term_offset);
          proposed = consumption_position + scast receiver_window;
          diff = sint (proposed - pe_sender_limit e)
      in if 0 < diff \<and> diff < half_range_i64 then e\<lparr>pe_sender_limit := proposed\<rparr> else e)"

definition update_rtt :: "publication_entry \<Rightarrow> i64 \<Rightarrow> publication_entry" where
  "update_rtt e sample_ns =
     (if sint sample_ns \<le> 0 \<or> half_range_i64 \<le> sint sample_ns then e
      else if pe_last_rtt_ns e = 0 then e\<lparr>pe_last_rtt_ns := sample_ns\<rparr>
      else e\<lparr>pe_last_rtt_ns :=
             (pe_last_rtt_ns e - signed_drop_bit 3 (pe_last_rtt_ns e)) + signed_drop_bit 3 sample_ns\<rparr>)"

section \<open>The agent\<close>

record pending_publication =
  pp_arc :: nat
  pp_sender_pub :: sender_publication
  pp_endpoint :: send_channel_endpoint
  pp_dest_addr :: sockaddr_storage

record sender_agent =
  sa_endpoints :: "send_channel_endpoint list"
  sa_publications :: "publication_entry list"
  sa_retransmit_handler :: retransmit_handler
  sa_duty_cycle_ratio :: nat
  sa_duty_cycle_counter :: nat
  sa_round_robin_index :: nat
  sa_heartbeat_interval_ns :: i64
  sa_rttm_interval_ns :: i64
  sa_pub_bridge :: "pending_publication bridge option"
  sa_arcs :: publication_store

definition sender_agent_new :: "i64 \<Rightarrow> i64 \<Rightarrow> nat \<Rightarrow> i64 \<Rightarrow> i64 \<Rightarrow> sender_agent" where
  "sender_agent_new retransmit_delay_ns retransmit_linger_ns send_duty_cycle_ratio
     heartbeat_interval_ns rttm_interval_ns =
     \<lparr>sa_endpoints = [], sa_publications = [],
      sa_retransmit_handler = retransmit_handler_new retransmit_delay_ns retransmit_linger_ns,
      sa_duty_cycle_ratio = send_duty_cycle_ratio, sa_duty_cycle_counter = 0, sa_round_robin_index = 0,
      sa_heartbeat_interval_ns = heartbeat_interval_ns, sa_rttm_interval_ns = rttm_interval_ns,
      sa_pub_bridge = None, sa_arcs = []\<rparr>"

definition set_publication_bridge :: "sender_agent \<Rightarrow> pending_publication bridge \<Rightarrow> sender_agent" where
  "set_publication_bridge sa bridge = sa\<lparr>sa_pub_bridge := Some bridge\<rparr>"

definition sender_add_endpoint ::
  "('p \<Rightarrow> 'p \<times> nat option) \<Rightarrow> 'p \<Rightarrow> sender_agent \<Rightarrow> send_channel_endpoint \<Rightarrow>
   'p \<times> sender_agent \<times> nat option" where
  "sender_add_endpoint add_transport poller sa endpoint =
     (let (poller', endpoint', ok) = sce_register add_transport poller endpoint
      in if ok then (poller', sa\<lparr>sa_endpoints := sa_endpoints sa @ [endpoint']\<rparr>,
                     Some (length (sa_endpoints sa)))
         else (poller', sa, None))"

definition new_entry :: "publication_kind \<Rightarrow> nat \<Rightarrow> sockaddr_storage option \<Rightarrow> nat \<Rightarrow> publication_entry" where
  "new_entry kind endpoint_idx dest_addr term_length =
     \<lparr>pe_kind = kind, pe_endpoint_idx = endpoint_idx, pe_dest_addr = dest_addr, pe_needs_setup = True,
      pe_time_of_last_send_ns = 0, pe_time_of_last_setup_ns = 0,
      pe_sender_limit = of_nat term_length, pe_time_of_last_rttm_ns = 0, pe_last_rtt_ns = 0\<rparr>"

definition add_publication ::
  "sender_agent \<Rightarrow> nat \<Rightarrow> i32 \<Rightarrow> i32 \<Rightarrow> i32 \<Rightarrow> nat \<Rightarrow> nat \<Rightarrow> sender_agent \<times> nat option" where
  "add_publication sa endpoint_idx session_id stream_id initial_term_id term_length mtu =
     (case network_publication_new session_id stream_id initial_term_id term_length mtu of
        None \<Rightarrow> (sa, None)
      | Some np \<Rightarrow>
          (sa\<lparr>sa_publications := sa_publications sa @ [new_entry (Local np) endpoint_idx None term_length]\<rparr>,
           Some (length (sa_publications sa))))"

definition add_concurrent_publication ::
  "sender_agent \<Rightarrow> nat \<Rightarrow> i32 \<Rightarrow> i32 \<Rightarrow> i32 \<Rightarrow> nat \<Rightarrow> nat \<Rightarrow>
   sender_agent \<times> (nat \<times> concurrent_publication) option" where
  "add_concurrent_publication sa endpoint_idx session_id stream_id initial_term_id term_length mtu =
     (case new_concurrent session_id stream_id initial_term_id term_length mtu of
        None \<Rightarrow> (sa, None)
      | Some (inner, cp, sp) \<Rightarrow>
          (sa\<lparr>sa_arcs := sa_arcs sa @ [inner],
              sa_publications := sa_publications sa @
                [new_entry (Concurrent (length (sa_arcs sa)) sp) endpoint_idx None term_length]\<rparr>,
           Some (length (sa_arcs sa), cp)))"

text \<open>\<open>offer\<close> on a local publication, through \<open>publication_mut\<close>.\<close>

definition publication_mut :: "sender_agent \<Rightarrow> nat \<Rightarrow> network_publication option" where
  "publication_mut sa idx =
     (if length (sa_publications sa) \<le> idx then None
      else case pe_kind (sa_publications sa ! idx) of Local np \<Rightarrow> Some np | Concurrent a sp \<Rightarrow> None)"

definition publication_sender_limit :: "sender_agent \<Rightarrow> nat \<Rightarrow> i64 option" where
  "publication_sender_limit sa idx =
     (if length (sa_publications sa) \<le> idx then None else Some (pe_sender_limit (sa_publications sa ! idx)))"

definition publication_needs_setup :: "sender_agent \<Rightarrow> nat \<Rightarrow> bool option" where
  "publication_needs_setup sa idx =
     (if length (sa_publications sa) \<le> idx then None else Some (pe_needs_setup (sa_publications sa ! idx)))"

definition publication_last_rtt_ns :: "sender_agent \<Rightarrow> nat \<Rightarrow> i64 option" where
  "publication_last_rtt_ns sa idx =
     (if length (sa_publications sa) \<le> idx then None else Some (pe_last_rtt_ns (sa_publications sa ! idx)))"

section \<open>The send pass\<close>

definition setup_phase ::
  "'p submit \<Rightarrow> i64 \<Rightarrow> i64 \<Rightarrow> publication_store \<Rightarrow> send_channel_endpoint \<Rightarrow> 'p \<Rightarrow> publication_entry \<Rightarrow>
   'p \<times> publication_entry" where
  "setup_phase submit now_ns heartbeat_interval_ns arcs ep poller e =
     (if pe_needs_setup e \<and> sint heartbeat_interval_ns < sint (now_ns - pe_time_of_last_setup_ns e)
      then (fst (send_setup submit poller ep (pe_session_id arcs e) (pe_stream_id arcs e)
              (pe_initial_term_id arcs e) (pe_active_term_id arcs e) (of_nat (pe_term_offset arcs e))
              (of_nat (pe_term_length arcs e)) (of_nat (pe_mtu arcs e)) 0 (pe_dest_addr e)),
            e\<lparr>pe_time_of_last_setup_ns := now_ns\<rparr>)
      else (poller, e))"

definition heartbeat_phase ::
  "'p submit \<Rightarrow> i64 \<Rightarrow> i64 \<Rightarrow> publication_store \<Rightarrow> send_channel_endpoint \<Rightarrow> 'p \<Rightarrow> publication_entry \<Rightarrow>
   'p \<times> publication_entry" where
  "heartbeat_phase submit now_ns heartbeat_interval_ns arcs ep poller e =
     (if sint heartbeat_interval_ns < sint (now_ns - pe_time_of_last_send_ns e)
      then (fst (send_heartbeat submit poller ep (pe_session_id arcs e) (pe_stream_id arcs e)
              (pe_active_term_id arcs e) (of_nat (pe_term_offset arcs e)) (pe_dest_addr e)),
            e\<lparr>pe_time_of_last_send_ns := now_ns\<rparr>)
      else (poller, e))"

definition rttm_phase ::
  "'p submit \<Rightarrow> i64 \<Rightarrow> i64 \<Rightarrow> publication_store \<Rightarrow> send_channel_endpoint \<Rightarrow> 'p \<Rightarrow> publication_entry \<Rightarrow>
   'p \<times> publication_entry" where
  "rttm_phase submit now_ns rttm_interval_ns arcs ep poller e =
     (if sint rttm_interval_ns < sint (now_ns - pe_time_of_last_rttm_ns e)
      then (fst (send_rttm submit poller ep (pe_session_id arcs e) (pe_stream_id arcs e) now_ns
              (pe_dest_addr e)),
            e\<lparr>pe_time_of_last_rttm_ns := now_ns\<rparr>)
      else (poller, e))"

text \<open>The closure of the scan: pad frames are skipped, the result of a submission is dropped.\<close>

definition emit_frames ::
  "'p submit \<Rightarrow> send_channel_endpoint \<Rightarrow> sockaddr_storage option \<Rightarrow> byte list list \<Rightarrow> 'p \<Rightarrow> 'p" where
  "emit_frames submit ep dest frames poller =
     foldl (\<lambda>p data. if skip_pad data then p else fst (send_data submit p ep data dest)) poller frames"

definition scan_phase ::
  "'p submit \<Rightarrow> ('p \<Rightarrow> nat) \<Rightarrow> i64 \<Rightarrow> publication_store \<Rightarrow> send_channel_endpoint \<Rightarrow> 'p \<Rightarrow> publication_entry \<Rightarrow>
   'p \<times> publication_store \<times> publication_entry \<times> nat" where
  "scan_phase submit send_available now_ns arcs ep poller e =
     (let limit = scan_limit (pe_sender_limit e) (pe_sender_position e) (pe_pub_position arcs e)
                    (send_available poller) (pe_mtu arcs e)
      in if 0 < limit then
           let (scan, arcs', e') = pe_sender_scan arcs e limit;
               poller' = emit_frames submit ep (pe_dest_addr e) (map snd (fst scan)) poller
           in (poller', arcs',
               (if 0 < snd scan then e'\<lparr>pe_time_of_last_send_ns := now_ns\<rparr> else e'), snd scan)
         else (poller, arcs, e, 0))"

definition serve_publication ::
  "'p submit \<Rightarrow> ('p \<Rightarrow> nat) \<Rightarrow> i64 \<Rightarrow> 'p \<Rightarrow> sender_agent \<Rightarrow> nat \<Rightarrow> ('p \<times> sender_agent \<times> nat) option" where
  "serve_publication submit send_available now_ns poller sa idx =
     (let e = sa_publications sa ! idx
      in if length (sa_endpoints sa) \<le> pe_endpoint_idx e then None
         else
           let ep = sa_endpoints sa ! pe_endpoint_idx e;
               (poller1, e1) = setup_phase submit now_ns (sa_heartbeat_interval_ns sa) (sa_arcs sa) ep poller e;
               (poller2, e2) = heartbeat_phase submit now_ns (sa_heartbeat_interval_ns sa) (sa_arcs sa) ep poller1 e1;
               (poller3, e3) = rttm_phase submit now_ns (sa_rttm_interval_ns sa) (sa_arcs sa) ep poller2 e2;
               (poller4, arcs, e4, scanned) =
                 scan_phase submit send_available now_ns (sa_arcs sa) ep poller3 e3
           in Some (poller4,
                sa\<lparr>sa_publications := (sa_publications sa)[idx := e4], sa_arcs := arcs\<rparr>, scanned))"

fun send_loop ::
  "'p submit \<Rightarrow> ('p \<Rightarrow> nat) \<Rightarrow> i64 \<Rightarrow> nat \<Rightarrow> nat \<Rightarrow> 'p \<Rightarrow> sender_agent \<Rightarrow> i32 \<Rightarrow>
   ('p \<times> sender_agent \<times> i32) option" where
  "send_loop submit send_available now_ns 0 idx poller sa total_bytes = Some (poller, sa, total_bytes)"
| "send_loop submit send_available now_ns (Suc n) idx poller sa total_bytes =
     (case serve_publication submit send_available now_ns poller sa idx of
        None \<Rightarrow> None
      | Some (poller', sa', scanned) \<Rightarrow>
          send_loop submit send_available now_ns n
            (if length (sa_publications sa) \<le> idx + 1 then 0 else idx + 1)
            poller' sa' (total_bytes + of_nat scanned))"

definition do_send ::
  "'p submit \<Rightarrow> ('p \<Rightarrow> nat) \<Rightarrow> ('p \<Rightarrow> 'p) \<Rightarrow> i64 \<Rightarrow> 'p \<Rightarrow> sender_agent \<Rightarrow> ('p \<times> sender_agent \<times> i32) option" where
  "do_send submit send_available flush now_ns poller sa =
     (if sa_publications sa = [] then Some (poller, sa, 0)
      else
        let len = length (sa_publications sa);
            start = (if len \<le> sa_round_robin_index sa then 0 else sa_round_robin_index sa)
        in map_option (\<lambda>(p, sa', total). (flush p, sa', total))
             (send_loop submit send_available now_ns len start poller
                (sa\<lparr>sa_round_robin_index := start + 1\<rparr>) 0))"

section \<open>Control messages\<close>

definition poll_control ::
  "('p \<Rightarrow> 'p \<times> recv_message list \<times> nat option) \<Rightarrow> 'p \<Rightarrow> sender_agent \<Rightarrow> 'p \<times> sender_agent \<times> i32" where
  "poll_control poll_recv poller sa =
     (let (poller', msgs, received) = poll_recv poller;
          endpoints = foldl (\<lambda>eps msg.
              if msg_transport_idx msg < length eps
              then eps[msg_transport_idx msg := sce_on_message (eps ! msg_transport_idx msg) (msg_data msg)]
              else eps) (sa_endpoints sa) msgs
      in (poller', sa\<lparr>sa_endpoints := endpoints\<rparr>, case received of Some n \<Rightarrow> of_nat n | None \<Rightarrow> 0))"

definition apply_sm :: "publication_store \<Rightarrow> status_message \<Rightarrow> publication_entry list \<Rightarrow> publication_entry list" where
  "apply_sm arcs sm publications =
     map (\<lambda>e. if pe_session_id arcs e = sm_session_id sm \<and> pe_stream_id arcs e = sm_stream_id sm
              then update_sender_limit_from_sm arcs (e\<lparr>pe_needs_setup := False\<rparr>)
                     (sm_consumption_term_id sm) (sm_consumption_term_offset sm) (sm_receiver_window sm)
              else e) publications"

definition apply_rttm ::
  "i64 \<Rightarrow> publication_store \<Rightarrow> rttm_header \<Rightarrow> publication_entry list \<Rightarrow> publication_entry list" where
  "apply_rttm now_ns arcs rttm publications =
     (let rtt_sample = now_ns - rttm_echo_timestamp rttm - rttm_reception_delta rttm
      in map (\<lambda>e. if pe_session_id arcs e = rttm_session_id rttm \<and> pe_stream_id arcs e = rttm_stream_id rttm
                  then update_rtt e rtt_sample else e) publications)"

definition process_endpoint :: "i64 \<Rightarrow> sender_agent \<Rightarrow> nat \<Rightarrow> sender_agent" where
  "process_endpoint now_ns sa i =
     (let (sms, ep1) = drain_sm (sa_endpoints sa ! i);
          (naks, ep2) = drain_naks ep1;
          (rttms, ep3) = drain_rttm_replies ep2;
          pubs1 = fold (apply_sm (sa_arcs sa)) sms (sa_publications sa);
          handler = fold (\<lambda>nak rh. fst (on_nak rh nak now_ns)) naks (sa_retransmit_handler sa);
          pubs2 = fold (apply_rttm now_ns (sa_arcs sa)) rttms pubs1
      in sa\<lparr>sa_endpoints := (sa_endpoints sa)[i := ep3], sa_publications := pubs2,
            sa_retransmit_handler := handler\<rparr>)"

definition process_sm_and_nak :: "i64 \<Rightarrow> sender_agent \<Rightarrow> sender_agent" where
  "process_sm_and_nak now_ns sa = foldl (process_endpoint now_ns) sa [0..<length (sa_endpoints sa)]"

section \<open>Retransmission\<close>

definition retransmit_limit :: "i32 \<Rightarrow> nat \<Rightarrow> nat" where
  "retransmit_limit len mtu = (if unat len < mtu then unat len else mtu)"

definition retransmit_in_buffer :: "publication_store \<Rightarrow> publication_entry \<Rightarrow> i32 \<Rightarrow> i32 \<Rightarrow> bool" where
  "retransmit_in_buffer arcs e term_id term_off =
     (let nak_position = pe_compute_position arcs e term_id (unat term_off);
          buffer_start = pe_sender_position e
            - (of_nat PARTITION_COUNT - 1) * of_nat (pe_term_length arcs e);
          from_start = sint (nak_position - buffer_start);
          range = sint (pe_pub_position arcs e - buffer_start)
      in \<not> (from_start < 0 \<or> range \<le> from_start))"

definition retransmit_frames :: "publication_store \<Rightarrow> publication_entry \<Rightarrow> retransmit_call \<Rightarrow> byte list list" where
  "retransmit_frames arcs e c =
     (if retransmit_in_buffer arcs e (rc_term_id c) (rc_term_offset c)
      then map snd (fst (pe_retransmit_scan arcs e (rc_term_id c) (unat (rc_term_offset c))
             (retransmit_limit (rc_length c) (pe_mtu arcs e))))
      else [])"

definition on_retransmit ::
  "'p submit \<Rightarrow> sender_agent \<Rightarrow> 'p \<times> nat \<Rightarrow> retransmit_call \<Rightarrow> 'p \<times> nat" where
  "on_retransmit submit sa acc c =
     (case find (\<lambda>e. pe_session_id (sa_arcs sa) e = rc_session_id c \<and>
                     pe_stream_id (sa_arcs sa) e = rc_stream_id c) (sa_publications sa) of
        None \<Rightarrow> acc
      | Some e \<Rightarrow>
          foldl (\<lambda>(p, work_count) data.
              if pe_endpoint_idx e < length (sa_endpoints sa)
              then (fst (send_data submit p (sa_endpoints sa ! pe_endpoint_idx e) data (pe_dest_addr e)),
                    work_count + 1)
              else (p, work_count))
            acc (retransmit_frames (sa_arcs sa) e c))"

definition do_retransmit ::
  "'p submit \<Rightarrow> ('p \<Rightarrow> 'p) \<Rightarrow> i64 \<Rightarrow> 'p \<Rightarrow> sender_agent \<Rightarrow> 'p \<times> sender_agent \<times> i32" where
  "do_retransmit submit flush now_ns poller sa =
     (let (handler, calls) = process_timeouts (sa_retransmit_handler sa) now_ns;
          (poller', work_count) = foldl (on_retransmit submit sa) (poller, 0) calls
      in ((if 0 < work_count then flush poller' else poller'),
          sa\<lparr>sa_retransmit_handler := handler\<rparr>, of_nat work_count))"

section \<open>The duty cycle\<close>

definition accept_pending ::
  "('p \<Rightarrow> 'p \<times> nat option) \<Rightarrow> 'p \<Rightarrow> sender_agent \<Rightarrow> pending_publication \<Rightarrow> 'p \<times> sender_agent \<times> nat" where
  "accept_pending add_transport poller sa pending =
     (let (poller', endpoint, ok) = sce_register add_transport poller (pp_endpoint pending)
      in if \<not> ok then (poller', sa, 0)
         else (poller',
           sa\<lparr>sa_endpoints := sa_endpoints sa @ [endpoint],
              sa_publications := sa_publications sa @
                [new_entry (Concurrent (pp_arc pending) (pp_sender_pub pending)) (length (sa_endpoints sa))
                   (Some (pp_dest_addr pending)) (pi_term_length (sa_arcs sa ! pp_arc pending))]\<rparr>, 1))"

fun poll_pub_slots ::
  "('p \<Rightarrow> 'p \<times> nat option) \<Rightarrow> 'p \<Rightarrow> sender_agent \<Rightarrow> pending_publication bridge \<Rightarrow> nat \<Rightarrow> nat list \<Rightarrow>
   'p \<times> sender_agent \<times> pending_publication bridge \<times> nat" where
  "poll_pub_slots add_transport poller sa bridge n [] = (poller, sa, bridge, n)"
| "poll_pub_slots add_transport poller sa bridge n (i # is) =
     (case bridge_try_take bridge i of
        (bridge', None) \<Rightarrow> poll_pub_slots add_transport poller sa bridge' n is
      | (bridge', Some pending) \<Rightarrow>
          let (poller', sa', k) = accept_pending add_transport poller sa pending
          in poll_pub_slots add_transport poller' sa' bridge' (n + k) is)"

definition poll_publication_bridge ::
  "('p \<Rightarrow> 'p \<times> nat option) \<Rightarrow> 'p \<Rightarrow> sender_agent \<Rightarrow> 'p \<times> sender_agent \<times> i32" where
  "poll_publication_bridge add_transport poller sa =
     (case sa_pub_bridge sa of
        None \<Rightarrow> (poller, sa, 0)
      | Some bridge \<Rightarrow>
          let (poller', sa', bridge', n) = poll_pub_slots add_transport poller sa bridge 0 [0..<length bridge]
          in (poller', sa'\<lparr>sa_pub_bridge := Some bridge'\<rparr>, of_nat n))"

record 'p sender_poller =
  po_submit :: "'p submit"
  po_send_available :: "'p \<Rightarrow> nat"
  po_flush :: "'p \<Rightarrow> 'p"
  po_poll_recv :: "'p \<Rightarrow> 'p \<times> recv_message list \<times> nat option"
  po_add_transport :: "'p \<Rightarrow> 'p \<times> nat option"

definition sender_do_work ::
  "'p sender_poller \<Rightarrow> i64 \<Rightarrow> 'p \<Rightarrow> sender_agent \<Rightarrow> ('p \<times> sender_agent \<times> i32) option" where
  "sender_do_work ops now_ns poller sa =
     (case do_send (po_submit ops) (po_send_available ops) (po_flush ops) now_ns poller sa of
        None \<Rightarrow> None
      | Some (p1, sa1, bytes_sent) \<Rightarrow>
          if bytes_sent = 0 \<or> sa_duty_cycle_ratio sa1 \<le> sa_duty_cycle_counter sa1 then
            let (p2, sa2, w1) = poll_control (po_poll_recv ops) p1 sa1;
                (p3, sa3, w2) = poll_publication_bridge (po_add_transport ops) p2 sa2;
                sa4 = process_sm_and_nak now_ns sa3;
                (p5, sa5, w3) = do_retransmit (po_submit ops) (po_flush ops) now_ns p3 sa4
            in Some (p5, sa5\<lparr>sa_duty_cycle_counter := 0\<rparr>, w1 + w2 + w3 + bytes_sent)
          else Some (p1, sa1\<lparr>sa_duty_cycle_counter := sa_duty_cycle_counter sa1 + 1\<rparr>, bytes_sent))"

end
