(* ===== verification/Sender_Control.thy ===== *)
theory Sender_Control
  imports Sender
begin

text \<open>
  What control messages do to the sender: status messages open the flow-control window, round-trip
  measurements smooth the estimate, NAKs bring the lost frames out again.
\<close>

unbundle bit_operations_syntax

section \<open>Status messages\<close>

definition announced :: "publication_store \<Rightarrow> publication_entry \<Rightarrow> status_message \<Rightarrow> i64" where
  "announced arcs e sm =
     pe_compute_position arcs e (sm_consumption_term_id sm) (unat (sm_consumption_term_offset sm))
     + scast (sm_receiver_window sm)"

definition sm_for :: "publication_store \<Rightarrow> publication_entry \<Rightarrow> status_message \<Rightarrow> bool" where
  "sm_for arcs e sm \<longleftrightarrow> pe_session_id arcs e = sm_session_id sm \<and> pe_stream_id arcs e = sm_stream_id sm"

definition sm_step :: "publication_store \<Rightarrow> status_message \<Rightarrow> publication_entry \<Rightarrow> publication_entry" where
  "sm_step arcs sm e =
     (if sm_for arcs e sm
      then update_sender_limit_from_sm arcs (e\<lparr>pe_needs_setup := False\<rparr>)
             (sm_consumption_term_id sm) (sm_consumption_term_offset sm) (sm_receiver_window sm)
      else e)"

lemma apply_sm_map: "apply_sm arcs = (\<lambda>sm. map (sm_step arcs sm))"
  by (intro ext) (simp add: apply_sm_def sm_step_def sm_for_def)

lemma fold_map: "fold (\<lambda>x. map (f x)) xs ys = map (\<lambda>y. fold f xs y) ys"
  by (induction xs arbitrary: ys) (simp_all add: comp_def)

lemma fold_apply_sm: "fold (apply_sm arcs) sms pubs = map (fold (sm_step arcs) sms) pubs"
  by (simp add: apply_sm_map fold_map)

lemma kind_dependent:
  assumes "pe_kind e = pe_kind e'"
  shows "announced arcs e = announced arcs e'" "sm_for arcs e = sm_for arcs e'"
  using assms
  by (auto simp: fun_eq_iff announced_def sm_for_def pe_compute_position_def pe_session_id_def pe_stream_id_def)

lemma sm_step_kind [simp]: "pe_kind (sm_step arcs sm e) = pe_kind e"
  by (simp add: sm_step_def update_sender_limit_from_sm_def Let_def)

lemma fold_sm_step_kind [simp]: "pe_kind (fold (sm_step arcs) sms e) = pe_kind e"
  by (induction sms arbitrary: e) simp_all

lemma sint_diff_small:
  fixes a b :: i64
  assumes "0 \<le> sint a" "sint a < 2 ^ 61" "0 \<le> sint b" "sint b < 2 ^ 61"
  shows "sint (a - b) = sint a - sint b"
proof -
  have "sint (of_int (sint a - sint b) :: i64) = sint a - sint b"
    using assms by (intro sint_of_int) simp_all
  then show ?thesis by simp
qed

text \<open>One message moves the limit to the announced position if that lies ahead, and never back.\<close>

definition small_position :: "i64 \<Rightarrow> bool" where
  "small_position p \<longleftrightarrow> 0 \<le> sint p \<and> sint p < 2 ^ 61"

lemma sm_step_limit:
  assumes "small_position (pe_sender_limit e)" "sm_for arcs e sm \<Longrightarrow> small_position (announced arcs e sm)"
  shows "pe_sender_limit (sm_step arcs sm e) =
    (if sm_for arcs e sm \<and> sint (pe_sender_limit e) < sint (announced arcs e sm)
     then announced arcs e sm else pe_sender_limit e)"
    and "pe_needs_setup (sm_step arcs sm e) \<longleftrightarrow> pe_needs_setup e \<and> \<not> sm_for arcs e sm"
proof -
  let ?p = "pe_compute_position arcs (e\<lparr>pe_needs_setup := False\<rparr>) (sm_consumption_term_id sm)
      (unat (sm_consumption_term_offset sm)) + scast (sm_receiver_window sm)"
  have a: "?p = announced arcs e sm" by (simp add: announced_def pe_compute_position_def)
  show "pe_sender_limit (sm_step arcs sm e) =
    (if sm_for arcs e sm \<and> sint (pe_sender_limit e) < sint (announced arcs e sm)
     then announced arcs e sm else pe_sender_limit e)"
  proof (cases "sm_for arcs e sm")
    case True
    have "sint (announced arcs e sm - pe_sender_limit e) = sint (announced arcs e sm) - sint (pe_sender_limit e)"
      using assms True by (intro sint_diff_small) (simp_all add: small_position_def)
    with True assms show ?thesis
      by (simp add: sm_step_def update_sender_limit_from_sm_def Let_def a half_range_i64_def small_position_def)
  qed (simp add: sm_step_def)
  show "pe_needs_setup (sm_step arcs sm e) \<longleftrightarrow> pe_needs_setup e \<and> \<not> sm_for arcs e sm"
    by (simp add: sm_step_def update_sender_limit_from_sm_def Let_def)
qed

definition window_of :: "publication_store \<Rightarrow> publication_entry \<Rightarrow> status_message list \<Rightarrow> int" where
  "window_of arcs e sms =
     fold max (map (\<lambda>sm. sint (announced arcs e sm)) (filter (sm_for arcs e) sms)) (sint (pe_sender_limit e))"

lemma window_of_greatest:
  "sint (pe_sender_limit e) \<le> window_of arcs e sms"
  "sm \<in> set sms \<Longrightarrow> sm_for arcs e sm \<Longrightarrow> sint (announced arcs e sm) \<le> window_of arcs e sms"
proof -
  have ge: "x \<le> fold max xs x \<and> (\<forall>y \<in> set xs. y \<le> fold max xs x)" for xs and x :: int
    by (induction xs arbitrary: x) (auto, (meson max.cobounded1 max.cobounded2 order_trans)+)
  show "sint (pe_sender_limit e) \<le> window_of arcs e sms"
    "sm \<in> set sms \<Longrightarrow> sm_for arcs e sm \<Longrightarrow> sint (announced arcs e sm) \<le> window_of arcs e sms"
    using ge by (auto simp: window_of_def)
qed

lemma fold_sm_step:
  assumes "small_position (pe_sender_limit e)"
    and "\<forall>sm \<in> set sms. sm_for arcs e sm \<longrightarrow> small_position (announced arcs e sm)"
  shows "sint (pe_sender_limit (fold (sm_step arcs) sms e)) = window_of arcs e sms \<and>
    small_position (pe_sender_limit (fold (sm_step arcs) sms e)) \<and>
    (pe_needs_setup (fold (sm_step arcs) sms e) \<longleftrightarrow> pe_needs_setup e \<and> (\<forall>sm \<in> set sms. \<not> sm_for arcs e sm))"
  using assms
proof (induction sms arbitrary: e)
  case (Cons sm sms)
  let ?e = "sm_step arcs sm e"
  note k = kind_dependent [of ?e e, OF sm_step_kind]
  have l: "pe_sender_limit ?e = (if sm_for arcs e sm \<and> sint (pe_sender_limit e) < sint (announced arcs e sm)
     then announced arcs e sm else pe_sender_limit e)"
    "pe_needs_setup ?e \<longleftrightarrow> pe_needs_setup e \<and> \<not> sm_for arcs e sm"
    using sm_step_limit [of e arcs sm] Cons.prems by simp_all
  then have small: "small_position (pe_sender_limit ?e)" using Cons.prems by simp
  have w: "window_of arcs ?e sms = window_of arcs e (sm # sms)"
    by (simp add: window_of_def k l(1) max_def)
  have "\<forall>sm \<in> set sms. sm_for arcs ?e sm \<longrightarrow> small_position (announced arcs ?e sm)"
    using Cons.prems by (simp add: k)
  from Cons.IH [OF small this] show ?case by (auto simp: w k l(2))
qed (simp add: window_of_def)

text \<open>The other two kinds of control messages do not touch the window.\<close>

definition flow :: "publication_entry \<Rightarrow> publication_kind \<times> i64 \<times> bool" where
  "flow e = (pe_kind e, pe_sender_limit e, pe_needs_setup e)"

lemma flow_update_rtt: "flow (update_rtt e sample) = flow e"
  by (simp add: flow_def update_rtt_def)

lemma flow_apply_rttm: "map flow (fold (apply_rttm now arcs) rttms pubs) = map flow pubs"
  by (induction rttms arbitrary: pubs) (auto simp: apply_rttm_def Let_def flow_update_rtt)

lemma process_endpoint_fields:
  "sa_arcs (process_endpoint now sa i) = sa_arcs sa"
  "length (sa_endpoints (process_endpoint now sa i)) = length (sa_endpoints sa)"
  "j \<noteq> i \<Longrightarrow> sa_endpoints (process_endpoint now sa i) ! j = sa_endpoints sa ! j"
  "map flow (sa_publications (process_endpoint now sa i)) =
     map (flow \<circ> fold (sm_step (sa_arcs sa)) (sce_recent_sm (sa_endpoints sa ! i))) (sa_publications sa)"
  by (simp_all add: process_endpoint_def drain_sm_def drain_naks_def drain_rttm_replies_def
      flow_apply_rttm fold_apply_sm)

lemma fold_sm_step_flow:
  "flow e = flow e' \<Longrightarrow> flow (fold (sm_step arcs) sms e) = flow (fold (sm_step arcs) sms e')"
proof (induction sms arbitrary: e e')
  case (Cons sm sms)
  have k: "pe_kind e = pe_kind e'" "pe_sender_limit e = pe_sender_limit e'" "pe_needs_setup e = pe_needs_setup e'"
    using Cons.prems by (simp_all add: flow_def)
  have "flow (sm_step arcs sm e) = flow (sm_step arcs sm e')"
    by (simp add: flow_def sm_step_def sm_for_def update_sender_limit_from_sm_def Let_def
        pe_compute_position_def pe_session_id_def pe_stream_id_def k)
  from Cons.IH [OF this] show ?case by simp
qed simp

lemma map_flow_fold:
  assumes "map flow pubs = map (flow \<circ> f) pubs0"
  shows "map (flow \<circ> fold (sm_step arcs) sms) pubs = map (flow \<circ> fold (sm_step arcs) sms \<circ> f) pubs0"
proof -
  have len: "length pubs = length pubs0" using arg_cong [OF assms, of length] by simp
  have "flow (pubs ! n) = flow (f (pubs0 ! n))" if "n < length pubs" for n
    using arg_cong [OF assms, of "\<lambda>xs. xs ! n"] that len by simp
  from fold_sm_step_flow [OF this] show ?thesis using len by (intro nth_equalityI) simp_all
qed

lemma process_all_flow:
  "k \<le> length (sa_endpoints sa) \<Longrightarrow>
   sa_arcs (foldl (process_endpoint now) sa [0..<k]) = sa_arcs sa \<and>
   length (sa_endpoints (foldl (process_endpoint now) sa [0..<k])) = length (sa_endpoints sa) \<and>
   (\<forall>j. k \<le> j \<longrightarrow> sa_endpoints (foldl (process_endpoint now) sa [0..<k]) ! j = sa_endpoints sa ! j) \<and>
   map flow (sa_publications (foldl (process_endpoint now) sa [0..<k])) =
     map (flow \<circ> fold (sm_step (sa_arcs sa)) (concat (map sce_recent_sm (take k (sa_endpoints sa)))))
       (sa_publications sa)"
proof (induction k)
  case (Suc k)
  let ?s = "foldl (process_endpoint now) sa [0..<k]"
  let ?old = "concat (map sce_recent_sm (take k (sa_endpoints sa)))"
  have IH: "sa_arcs ?s = sa_arcs sa" "length (sa_endpoints ?s) = length (sa_endpoints sa)"
      "\<forall>j. k \<le> j \<longrightarrow> sa_endpoints ?s ! j = sa_endpoints sa ! j"
      "map flow (sa_publications ?s) = map (flow \<circ> fold (sm_step (sa_arcs sa)) ?old) (sa_publications sa)"
    using Suc by simp_all
  have k: "k < length (sa_endpoints sa)" using Suc.prems by simp
  have step: "foldl (process_endpoint now) sa [0..<Suc k] = process_endpoint now ?s k" by simp
  have sms: "fold (sm_step (sa_arcs sa)) (concat (map sce_recent_sm (take (Suc k) (sa_endpoints sa)))) =
      fold (sm_step (sa_arcs sa)) (sce_recent_sm (sa_endpoints sa ! k)) \<circ> fold (sm_step (sa_arcs sa)) ?old"
    using k by (simp add: take_Suc_conv_app_nth)
  have ep: "sa_endpoints ?s ! k = sa_endpoints sa ! k" using IH(3) by simp
  show ?case
    unfolding step process_endpoint_fields(1,2,4) sms
    using IH(1-3) map_flow_fold [OF IH(4)] by (simp add: ep process_endpoint_fields(3) comp_assoc)
qed simp

lemma status_messages_processed:
  assumes i: "i < length (sa_publications sa)"
    and limit: "small_position (pe_sender_limit (sa_publications sa ! i))"
    and announced: "\<forall>sm \<in> set (concat (map sce_recent_sm (sa_endpoints sa))).
      sm_for (sa_arcs sa) (sa_publications sa ! i) sm \<longrightarrow>
      small_position (announced (sa_arcs sa) (sa_publications sa ! i) sm)"
  shows "sint (pe_sender_limit (sa_publications (process_sm_and_nak now sa) ! i)) =
      window_of (sa_arcs sa) (sa_publications sa ! i) (concat (map sce_recent_sm (sa_endpoints sa)))"
    and "pe_needs_setup (sa_publications (process_sm_and_nak now sa) ! i) \<longleftrightarrow>
      pe_needs_setup (sa_publications sa ! i) \<and>
      (\<forall>sm \<in> set (concat (map sce_recent_sm (sa_endpoints sa))).
         \<not> sm_for (sa_arcs sa) (sa_publications sa ! i) sm)"
    and "pe_kind (sa_publications (process_sm_and_nak now sa) ! i) = pe_kind (sa_publications sa ! i)"
proof -
  let ?sms = "concat (map sce_recent_sm (sa_endpoints sa))"
  have f: "map flow (sa_publications (process_sm_and_nak now sa)) =
      map (flow \<circ> fold (sm_step (sa_arcs sa)) ?sms) (sa_publications sa)"
    using process_all_flow [of "length (sa_endpoints sa)" sa now] by (simp add: process_sm_and_nak_def)
  have n: "i < length (sa_publications (process_sm_and_nak now sa))"
    using arg_cong [OF f, of length] i by simp
  have e: "flow (sa_publications (process_sm_and_nak now sa) ! i) =
      flow (fold (sm_step (sa_arcs sa)) ?sms (sa_publications sa ! i))"
    using arg_cong [OF f, of "\<lambda>xs. xs ! i"] i n by simp
  note r = fold_sm_step [OF limit announced]
  show "sint (pe_sender_limit (sa_publications (process_sm_and_nak now sa) ! i)) =
      window_of (sa_arcs sa) (sa_publications sa ! i) ?sms"
    "pe_needs_setup (sa_publications (process_sm_and_nak now sa) ! i) \<longleftrightarrow>
      pe_needs_setup (sa_publications sa ! i) \<and>
      (\<forall>sm \<in> set ?sms. \<not> sm_for (sa_arcs sa) (sa_publications sa ! i) sm)"
    "pe_kind (sa_publications (process_sm_and_nak now sa) ! i) = pe_kind (sa_publications sa ! i)"
    using e r by (simp_all add: flow_def)
qed

text \<open>
  C19: flow control follows the receivers.  After the sender has worked off the status messages queued
  at its endpoints, the limit of every publication is the largest of its previous limit and of the
  positions (consumption position plus window) that messages for its session and stream announced; it
  never retracts, messages for other streams do not move it, and the setup handshake is over exactly
  if a message for it was there.
\<close>

theorem window_follows_status_messages:
  assumes i: "i < length (sa_publications sa)"
    and limit: "small_position (pe_sender_limit (sa_publications sa ! i))"
    and announced: "\<forall>sm \<in> set (concat (map sce_recent_sm (sa_endpoints sa))).
      sm_for (sa_arcs sa) (sa_publications sa ! i) sm \<longrightarrow>
      small_position (announced (sa_arcs sa) (sa_publications sa ! i) sm)"
  shows "sint (pe_sender_limit (sa_publications (process_sm_and_nak now sa) ! i)) =
      window_of (sa_arcs sa) (sa_publications sa ! i) (concat (map sce_recent_sm (sa_endpoints sa))) \<and>
    (pe_needs_setup (sa_publications (process_sm_and_nak now sa) ! i) \<longleftrightarrow>
      pe_needs_setup (sa_publications sa ! i) \<and>
      (\<forall>sm \<in> set (concat (map sce_recent_sm (sa_endpoints sa))).
         \<not> sm_for (sa_arcs sa) (sa_publications sa ! i) sm)) \<and>
    pe_kind (sa_publications (process_sm_and_nak now sa) ! i) = pe_kind (sa_publications sa ! i)"
  using status_messages_processed [OF assms] by blast

definition sample_entry :: publication_entry where
  "sample_entry = new_entry (Local example_pub) 0 None 64"

definition sample_status :: status_message where
  "sample_status = sm_frame \<lparr>psm_dest_addr = [], psm_session_id = 7, psm_stream_id = 10,
     psm_consumption_term_id = 101, psm_consumption_term_offset = 32, psm_receiver_window = 64, psm_receiver_id = 5\<rparr>"

definition sample_sender :: sender_agent where
  "sample_sender = (sender_agent_new 0 0 4 100 100)
     \<lparr>sa_endpoints := [send_channel_endpoint_new\<lparr>sce_recent_sm := [sample_status]\<rparr>],
      sa_publications := [sample_entry]\<rparr>"

lemma example_pub_fields:
  "np_session_id example_pub = 7" "np_stream_id example_pub = 10" "np_initial_term_id example_pub = 100"
  "np_term_length example_pub = 64"
  using example_pub_refines(2) by (simp_all add: np_config_def)

lemma sample_announced:
  "announced [] sample_entry sample_status = 160" "sm_for [] sample_entry sample_status"
  by (simp_all add: announced_def sm_for_def sample_entry_def sample_status_def new_entry_def sm_frame_def
      pe_compute_position_def pe_session_id_def pe_stream_id_def example_pub_fields compute_position_def)

theorem window_follows_status_messages_witness:
  "sint (pe_sender_limit (sa_publications (process_sm_and_nak 0 sample_sender) ! 0)) = 160 \<and>
   \<not> pe_needs_setup (sa_publications (process_sm_and_nak 0 sample_sender) ! 0)"
proof -
  have f: "sa_publications sample_sender = [sample_entry]" "sa_arcs sample_sender = []"
    "concat (map sce_recent_sm (sa_endpoints sample_sender)) = [sample_status]"
    by (simp_all add: sample_sender_def sender_agent_new_def)
  have l: "pe_sender_limit sample_entry = 64" by (simp add: sample_entry_def new_entry_def)
  have w: "window_of [] sample_entry [sample_status] = 160"
    by (simp add: window_of_def sample_announced l)
  show ?thesis
    using window_follows_status_messages [of 0 sample_sender 0]
    by (simp add: f l sample_announced w small_position_def)
qed

section \<open>Round-trip times\<close>

lemma sint_shift3: "sint (signed_drop_bit 3 (a :: i64)) = sint a div 8"
  by (simp add: sint_signed_drop_bit_eq drop_bit_eq_div)

lemma shift3_of_int: "signed_drop_bit 3 (a :: i64) = of_int (sint a div 8)"
proof -
  have "signed_drop_bit 3 a = of_int (sint (signed_drop_bit 3 a))" by simp
  then show ?thesis by (simp only: sint_shift3)
qed

lemma update_rtt_step:
  assumes "0 < sint sample" "sint sample \<le> m" "m < half_range_i64"
    and "pe_last_rtt_ns e = 0 \<or> 0 < sint (pe_last_rtt_ns e) \<and> sint (pe_last_rtt_ns e) \<le> m"
  shows "0 < sint (pe_last_rtt_ns (update_rtt e sample)) \<and> sint (pe_last_rtt_ns (update_rtt e sample)) \<le> m"
proof (cases "pe_last_rtt_ns e = 0")
  case True
  then show ?thesis using assms by (simp add: update_rtt_def)
next
  case False
  let ?c = "pe_last_rtt_ns e"
  have c: "0 < sint ?c" "sint ?c \<le> m" using assms(4) False by simp_all
  have v: "?c - signed_drop_bit 3 ?c + signed_drop_bit 3 sample =
      of_int (sint ?c - sint ?c div 8 + sint sample div 8)"
    by (simp add: shift3_of_int)
  have m: "m < 2 ^ 62" using assms(3) by (simp add: half_range_i64_def)
  have b: "0 < sint ?c - sint ?c div 8 + sint sample div 8" "sint ?c - sint ?c div 8 + sint sample div 8 \<le> m"
    using c assms(1,2) by linarith+
  have "sint (of_int (sint ?c - sint ?c div 8 + sint sample div 8) :: i64) =
      sint ?c - sint ?c div 8 + sint sample div 8"
    using b m by (intro sint_of_int) simp_all
  then have "sint (?c - signed_drop_bit 3 ?c + signed_drop_bit 3 sample) =
      sint ?c - sint ?c div 8 + sint sample div 8"
    unfolding v .
  then show ?thesis using assms(1-3) False b by (simp add: update_rtt_def)
qed

text \<open>
  The smoothed round-trip time stays positive and never exceeds the largest sample it was fed with.
\<close>

lemma srtt_bounded:
  assumes "samples \<noteq> []" "\<forall>s \<in> set samples. 0 < sint s \<and> sint s \<le> m" "m < half_range_i64"
    and "pe_last_rtt_ns e = 0 \<or> 0 < sint (pe_last_rtt_ns e) \<and> sint (pe_last_rtt_ns e) \<le> m"
  shows "0 < sint (pe_last_rtt_ns (fold (\<lambda>s e. update_rtt e s) samples e)) \<and>
    sint (pe_last_rtt_ns (fold (\<lambda>s e. update_rtt e s) samples e)) \<le> m"
  using assms
proof (induction samples arbitrary: e)
  case (Cons s samples)
  have "0 < sint (pe_last_rtt_ns (update_rtt e s)) \<and> sint (pe_last_rtt_ns (update_rtt e s)) \<le> m"
    using Cons.prems by (intro update_rtt_step) simp_all
  with Cons.IH [of "update_rtt e s"] Cons.prems show ?case by (cases "samples = []") simp_all
qed simp

section \<open>Retransmission\<close>

lemma scan_spec_exact:
  "\<exists>k \<le> length gs. map snd (fst (scan_spec limit pos n gs)) = take k gs \<and>
     (k < length gs \<longrightarrow> limit \<le> n + enc_len (take k gs)) \<and>
     (0 < k \<longrightarrow> n + enc_len (take (k - 1) gs) < limit) \<and> (n < limit \<and> gs \<noteq> [] \<longrightarrow> 0 < k)"
proof (induction gs arbitrary: pos n)
  case (Cons g gs)
  show ?case
  proof (cases "n < limit")
    case True
    let ?a = "align_frame_length (length g)"
    obtain k where k: "k \<le> length gs" "map snd (fst (scan_spec limit (pos + ?a) (n + ?a) gs)) = take k gs"
      "k < length gs \<longrightarrow> limit \<le> n + ?a + enc_len (take k gs)"
      "0 < k \<longrightarrow> n + ?a + enc_len (take (k - 1) gs) < limit"
      using Cons.IH by blast
    then show ?thesis
      using True by (intro exI [of _ "Suc k"]) (auto simp: Let_def take_Cons' add.assoc)
  qed (intro exI [of _ 0], simp)
qed simp

lemma retransmit_scan_local:
  assumes "pe_kind e = Local np" "np_inv np hist q i"
    and "t < length hist" "length hist \<le> t + 4" "off = enc_len (take j (hist ! t))"
  shows "pe_retransmit_scan arcs e (np_initial_term_id np + of_nat t) off limit =
    scan_spec limit off 0 (drop j (hist ! t))"
proof -
  have "partition_index (np_initial_term_id np + of_nat t) (np_initial_term_id np) = t mod 4"
    by (rule partition_index_of_nat)
  moreover have "rl_term_length (np_raw_log np) = np_term_length np"
    "log_rel (np_term_length np) (rl_buffer (np_raw_log np)) hist"
    using assms(2) by (simp_all add: np_inv_def)
  ultimately show ?thesis
    using log_scan [of "np_term_length np" "rl_buffer (np_raw_log np)" hist t limit j 0] assms
    by (simp add: pe_retransmit_scan_def pe_initial_term_id_def raw_log_scan_frames_def
        raw_log_partition_def PARTITION_COUNT_def part_of_def)
qed

lemma retransmit_in_buffer_local:
  assumes kind: "pe_kind e = Local np" and inv: "np_inv np hist q i" and t: "t < length hist"
    and off: "off < np_term_length np"
    and published: "t * np_term_length np + off < enc_len (take q (concat hist))"
    and window: "enc_len (take i (concat hist)) \<le> t * np_term_length np + off + 3 * np_term_length np"
  shows "retransmit_in_buffer arcs e (np_initial_term_id np + of_nat t) (of_nat off)"
proof -
  let ?t = "np_term_length np" let ?x = "t * ?t + off"
  let ?S = "enc_len (take i (concat hist))" let ?P = "enc_len (take q (concat hist))"
  have n: "length hist \<le> 2 ^ 31" "?t \<le> 2 ^ 30" "np_sender_position np = of_nat ?S" "np_pub_position np = of_nat ?P"
    using inv by (simp_all add: np_inv_def)
  have b: "?S < 2 ^ 62" "?P < 2 ^ 62" using np_inv_bound [OF inv] by simp_all
  have pos: "compute_position (np_initial_term_id np) ?t (np_initial_term_id np + of_nat t) off = of_nat ?x"
    using t n(1) by (intro compute_position_of_nat) simp
  have u: "unat (of_nat off :: i32) = off" using off n(2) by (simp add: unat_of_nat_lt)
  have start: "of_nat ?S - (of_nat PARTITION_COUNT - 1) * of_nat ?t = (of_int (int ?S - 3 * int ?t) :: i64)"
    by (simp add: PARTITION_COUNT_def)
  have d: "sint (of_nat y - of_int (int ?S - 3 * int ?t) :: i64) = int y - int ?S + 3 * int ?t" if "y < 2 ^ 62" for y
  proof -
    have "sint (of_int (int y - int ?S + 3 * int ?t) :: i64) = int y - int ?S + 3 * int ?t"
      using that b n(2) by (intro sint_of_int) simp_all
    moreover have "(of_nat y - of_int (int ?S - 3 * int ?t) :: i64) = of_int (int y - int ?S + 3 * int ?t)" by simp
    ultimately show ?thesis by (simp only:)
  qed
  have x: "?x < 2 ^ 62" using published b(2) by linarith
  show ?thesis
    using published window d [OF x] d [OF b(2)] kind n(3,4) pos u start
    by (simp add: retransmit_in_buffer_def pe_compute_position_def pe_sender_position_def pe_pub_position_def
        pe_term_length_def Let_def del: of_nat_add of_nat_mult)
qed

lemma retransmit_frames_local:
  assumes kind: "pe_kind e = Local np" and inv: "np_inv np hist q i"
    and t: "t < length hist" "length hist \<le> t + 4" "j < length (hist ! t)"
    and nak: "rc_term_id c = np_initial_term_id np + of_nat t" "rc_term_offset c = of_nat (enc_len (take j (hist ! t)))"
      "rc_length c \<noteq> 0"
    and published: "t * np_term_length np + enc_len (take j (hist ! t)) < enc_len (take q (concat hist))"
    and window: "enc_len (take i (concat hist)) \<le>
      t * np_term_length np + enc_len (take j (hist ! t)) + 3 * np_term_length np"
  shows "\<exists>k. 0 < k \<and> k \<le> length (drop j (hist ! t)) \<and>
    retransmit_frames arcs e c = take k (drop j (hist ! t)) \<and>
    enc_len (take (k - 1) (drop j (hist ! t))) < retransmit_limit (rc_length c) (np_mtu np) \<and>
    (k < length (drop j (hist ! t)) \<longrightarrow>
       retransmit_limit (rc_length c) (np_mtu np) \<le> enc_len (take k (drop j (hist ! t))))"
proof -
  let ?gs = "drop j (hist ! t)" let ?off = "enc_len (take j (hist ! t))" let ?lim = "retransmit_limit (rc_length c) (np_mtu np)"
  have rel: "log_rel (np_term_length np) (rl_buffer (np_raw_log np)) hist" and mtu: "32 \<le> np_mtu np"
    and tl: "np_term_length np \<le> 2 ^ 30"
    using inv by (simp_all add: np_inv_def)
  have "?off < enc_len (take (length (hist ! t)) (hist ! t))"
    using log_relD(5) [OF rel t(1)] t(3) by (intro enc_len_take_strict)
  then have off: "?off < np_term_length np" using log_relD(6) [OF rel t(1)] by simp
  have buf: "retransmit_in_buffer arcs e (rc_term_id c) (rc_term_offset c)"
    unfolding nak(1,2) by (rule retransmit_in_buffer_local [OF kind inv t(1) off published window])
  have u: "unat (rc_term_offset c) = ?off" using off tl nak(2) by (simp add: unat_of_nat_lt)
  have lim: "0 < ?lim" using nak(3) mtu by (simp add: retransmit_limit_def unat_gt_0)
  have m: "pe_mtu arcs e = np_mtu np" using kind by (simp add: pe_mtu_def)
  have "retransmit_frames arcs e c = map snd (fst (scan_spec ?lim ?off 0 ?gs))"
    using retransmit_scan_local [OF kind inv t(1,2) refl, of arcs j ?lim] buf u nak(1)
    by (simp add: retransmit_frames_def m)
  moreover obtain k where "k \<le> length ?gs" "map snd (fst (scan_spec ?lim ?off 0 ?gs)) = take k ?gs"
      "k < length ?gs \<longrightarrow> ?lim \<le> enc_len (take k ?gs)" "0 < k \<longrightarrow> enc_len (take (k - 1) ?gs) < ?lim"
      "0 < ?lim \<and> ?gs \<noteq> [] \<longrightarrow> 0 < k"
    using scan_spec_exact [of ?gs ?lim ?off 0] by auto
  ultimately show ?thesis using lim t(3) by (intro exI [of _ k]) simp
qed


text \<open>
  a NAK is answered with at most one MTU.  Where every frame of the term fills the MTU, a NAK that
  asks for any number of bytes brings out exactly one frame; the rest of the range it names stays
  lost unless it is asked for again.
\<close>

theorem long_nak_resends_one_frame:
  assumes kind: "pe_kind e = Local np" and inv: "np_inv np hist q i"
    and t: "t < length hist" "length hist \<le> t + 4" "j < length (hist ! t)"
    and nak: "rc_term_id c = np_initial_term_id np + of_nat t"
      "rc_term_offset c = of_nat (enc_len (take j (hist ! t)))" "rc_length c \<noteq> 0"
    and published: "t * np_term_length np + enc_len (take j (hist ! t)) < enc_len (take q (concat hist))"
    and window: "enc_len (take i (concat hist)) \<le>
      t * np_term_length np + enc_len (take j (hist ! t)) + 3 * np_term_length np"
    and full: "\<forall>f \<in> set (hist ! t). np_mtu np \<le> align_frame_length (length f)"
  shows "retransmit_frames arcs e c = [hist ! t ! j]"
proof -
  let ?gs = "drop j (hist ! t)"
  obtain k where k: "0 < k" "k \<le> length ?gs" "retransmit_frames arcs e c = take k ?gs"
      "enc_len (take (k - 1) ?gs) < retransmit_limit (rc_length c) (np_mtu np)"
    using retransmit_frames_local [OF assms(1-10)] by blast
  have gs: "?gs = hist ! t ! j # drop (Suc j) (hist ! t)" using t(3) by (simp add: Cons_nth_drop_Suc)
  have "k = 1"
  proof (rule ccontr)
    assume "k \<noteq> 1"
    then obtain l where l: "k - 1 = Suc l" using k(1) by (cases "k - 1") auto
    have "np_mtu np \<le> align_frame_length (length (hist ! t ! j))" using full t(3) by simp
    also have "\<dots> \<le> enc_len (take (k - 1) ?gs)" unfolding gs l by simp
    finally show False using k(4) by (simp add: retransmit_limit_def split: if_splits)
  qed
  then show ?thesis using k(3) gs by simp
qed

definition two_frame_log :: abs_pub where
  "two_frame_log = \<lparr>ap_hist = [[offer_frame 7 10 100 0 [], offer_frame 7 10 100 32 []]], ap_published = 2, ap_sent = 0\<rparr>"

definition two_frame_start :: network_publication where
  "two_frame_start = the (network_publication_new 7 10 100 64 32)"

lemma two_frame_offers:
  "abs_offers (100, 64, 7, 10, 32) \<lparr>ap_hist = [[]], ap_published = 0, ap_sent = 0\<rparr> [[], []] =
     ([[], []], two_frame_log)"
  by code_simp

lemma two_frame_facts:
  "enc_len (take 2 (concat (ap_hist two_frame_log))) = 64" "length (ap_hist two_frame_log) = 1"
  "ap_hist two_frame_log ! 0 = [offer_frame 7 10 100 0 [], offer_frame 7 10 100 32 []]"
  "\<forall>f \<in> set (ap_hist two_frame_log ! 0). align_frame_length (length f) = 32"
  by code_simp+

lemma two_frame_pub:
  "\<exists>np. np_run two_frame_start [Offer [], Offer []] = ([[], []], [], np) \<and>
    np_refines np two_frame_log \<and> np_config np = (100, 64, 7, 10, 32)"
proof -
  have new: "network_publication_new 7 10 100 64 32 = Some two_frame_start"
    by (simp add: two_frame_start_def network_publication_new_def raw_log_new_def term_constants
        is_power_of_two.simps)
  from np_new_inv [OF new]
  have "np_refines two_frame_start \<lparr>ap_hist = [[]], ap_published = 0, ap_sent = 0\<rparr>"
    "np_config two_frame_start = (100, 64, 7, 10, 32)"
    by (simp_all add: np_refines_def)
  then show ?thesis
    using np_run_offers [of two_frame_start "\<lparr>ap_hist = [[]], ap_published = 0, ap_sent = 0\<rparr>" "[[], []]"]
    by (simp add: two_frame_offers)
qed

definition long_nak :: retransmit_call where
  "long_nak = \<lparr>rc_session_id = 7, rc_stream_id = 10, rc_term_id = 100, rc_term_offset = 0, rc_length = 64\<rparr>"


theorem long_nak_resends_one_frame_witness:
  "\<exists>np. np_run two_frame_start [Offer [], Offer []] = ([[], []], [], np) \<and>
    retransmit_frames [] (new_entry (Local np) 0 None 64) long_nak = [offer_frame 7 10 100 0 []]"
proof -
  obtain np where np: "np_run two_frame_start [Offer [], Offer []] = ([[], []], [], np)"
      "np_inv np (ap_hist two_frame_log) 2 0" "np_config np = (100, 64, 7, 10, 32)"
    using two_frame_pub by (auto simp: np_refines_def two_frame_log_def)
  have "retransmit_frames [] (new_entry (Local np) 0 None 64) long_nak = [ap_hist two_frame_log ! 0 ! 0]"
    by (rule long_nak_resends_one_frame [OF _ np(2)])
      (use np(3) two_frame_facts in \<open>simp_all add: new_entry_def long_nak_def np_config_def\<close>)
  then show ?thesis using np(1) two_frame_facts(3) by auto
qed

end
