(* ===== verification/Sender_Delivery.thy ===== *)
theory Sender_Delivery
  imports Sender_Control
begin

text \<open>
  The send pass over all publications, and a case in which it loses frames.

  The poller is a parameter; \<open>recording\<close> states what the pass relies on: a submission adds one datagram
  to what has been handed to the transports, and flushing adds none.
\<close>

unbundle bit_operations_syntax

section \<open>What the poller promises\<close>

type_synonym datagram_log = "(nat \<times> byte list) list"

definition recording :: "'p submit \<Rightarrow> ('p \<Rightarrow> 'p) \<Rightarrow> ('p \<Rightarrow> datagram_log) \<Rightarrow> bool" where
  "recording submit flush log \<longleftrightarrow>
     (\<forall>p tr data dest. log (fst (submit p tr data dest)) = log p @ [(tr, data)]) \<and>
     (\<forall>p. log (flush p) = log p)"

definition on_transport :: "nat \<Rightarrow> datagram_log \<Rightarrow> byte list list" where
  "on_transport tr log = map snd (filter (\<lambda>x. fst x = tr) log)"

lemma on_transport_simps [simp]:
  "on_transport tr [] = []" "on_transport tr (xs @ ys) = on_transport tr xs @ on_transport tr ys"
  "on_transport tr [(tr', d)] = (if tr' = tr then [d] else [])"
  by (simp_all add: on_transport_def)

section \<open>One publication\<close>

text \<open>The control frames of a publication: setup, heartbeat and round-trip request.\<close>

definition control_frames :: "i64 \<Rightarrow> publication_store \<Rightarrow> publication_entry \<Rightarrow> byte list set" where
  "control_frames now arcs e =
     {setup_header_bytes (setup_frame (pe_session_id arcs e) (pe_stream_id arcs e) (pe_initial_term_id arcs e)
        (pe_active_term_id arcs e) (of_nat (pe_term_offset arcs e)) (of_nat (pe_term_length arcs e))
        (of_nat (pe_mtu arcs e)) 0),
      data_header_bytes (heartbeat_frame (pe_session_id arcs e) (pe_stream_id arcs e)
        (pe_active_term_id arcs e) (of_nat (pe_term_offset arcs e))),
      rttm_header_bytes (rttm_request_frame (pe_session_id arcs e) (pe_stream_id arcs e) now)}"

definition endpoint_transport :: "sender_agent \<Rightarrow> publication_entry \<Rightarrow> nat option" where
  "endpoint_transport sa e = sce_transport_idx (sa_endpoints sa ! pe_endpoint_idx e)"

definition same_source :: "publication_entry \<Rightarrow> publication_entry \<Rightarrow> bool" where
  "same_source e e' \<longleftrightarrow> pe_kind e = pe_kind e' \<and> pe_dest_addr e = pe_dest_addr e' \<and>
     pe_endpoint_idx e = pe_endpoint_idx e' \<and> pe_sender_limit e = pe_sender_limit e'"

lemma same_source_accessors:
  assumes "same_source e e'"
  shows "pe_session_id arcs e = pe_session_id arcs e'" "pe_stream_id arcs e = pe_stream_id arcs e'"
    "pe_initial_term_id arcs e = pe_initial_term_id arcs e'" "pe_active_term_id arcs e = pe_active_term_id arcs e'"
    "pe_term_offset arcs e = pe_term_offset arcs e'" "pe_term_length arcs e = pe_term_length arcs e'"
    "pe_mtu arcs e = pe_mtu arcs e'" "control_frames now arcs e = control_frames now arcs e'"
  using assms
  by (simp_all add: same_source_def pe_session_id_def pe_stream_id_def pe_initial_term_id_def
      pe_active_term_id_def pe_term_offset_def pe_term_length_def pe_mtu_def control_frames_def)

text \<open>A phase of control traffic: at most one control frame on the publication's transport.\<close>

definition control_phase ::
  "('p \<Rightarrow> datagram_log) \<Rightarrow> i64 \<Rightarrow> publication_store \<Rightarrow> nat option \<Rightarrow> publication_entry \<Rightarrow> 'p \<Rightarrow>
   'p \<times> publication_entry \<Rightarrow> bool" where
  "control_phase log now arcs tr e p r \<longleftrightarrow> same_source (snd r) e \<and>
     (\<exists>ctl. length ctl \<le> 1 \<and> set ctl \<subseteq> control_frames now arcs e \<and>
       log (fst r) = log p @ (case tr of Some t \<Rightarrow> map (Pair t) ctl | None \<Rightarrow> []))"

lemma control_phaseI:
  assumes "same_source e' e" "f \<in> control_frames now arcs e" "log p' = log p @ (case tr of Some t \<Rightarrow> [(t, f)] | None \<Rightarrow> [])"
  shows "control_phase log now arcs tr e p (p', e')"
  using assms by (auto simp: control_phase_def intro!: exI [of _ "[f]"] split: option.splits)

lemma control_phase_id: "control_phase log now arcs tr e p (p, e)"
  by (auto simp: control_phase_def same_source_def intro!: exI [of _ "[]"] split: option.splits)

lemma control_frames_mem:
  "setup_header_bytes (setup_frame (pe_session_id arcs e) (pe_stream_id arcs e) (pe_initial_term_id arcs e)
        (pe_active_term_id arcs e) (of_nat (pe_term_offset arcs e)) (of_nat (pe_term_length arcs e))
        (of_nat (pe_mtu arcs e)) 0) \<in> control_frames now arcs e"
  "data_header_bytes (heartbeat_frame (pe_session_id arcs e) (pe_stream_id arcs e)
        (pe_active_term_id arcs e) (of_nat (pe_term_offset arcs e))) \<in> control_frames now arcs e"
  "rttm_header_bytes (rttm_request_frame (pe_session_id arcs e) (pe_stream_id arcs e) now)
     \<in> control_frames now arcs e"
  by (simp_all add: control_frames_def)

lemma control_phases:
  assumes "recording submit flush log" "tr = sce_transport_idx ep"
  shows "control_phase log now arcs tr e p (setup_phase submit now hb arcs ep p e)"
    "control_phase log now arcs tr e p (heartbeat_phase submit now hb arcs ep p e)"
    "control_phase log now arcs tr e p (rttm_phase submit now ri arcs ep p e)"
proof -
  show "control_phase log now arcs tr e p (setup_phase submit now hb arcs ep p e)"
    using assms by (auto simp: setup_phase_def send_setup_def recording_def same_source_def control_phase_id
      intro!: control_phaseI [OF _ control_frames_mem(1)] split: option.split)
  show "control_phase log now arcs tr e p (heartbeat_phase submit now hb arcs ep p e)"
    using assms by (auto simp: heartbeat_phase_def send_heartbeat_def recording_def same_source_def
      control_phase_id intro!: control_phaseI [OF _ control_frames_mem(2)] split: option.split)
  show "control_phase log now arcs tr e p (rttm_phase submit now ri arcs ep p e)"
    using assms by (auto simp: rttm_phase_def send_rttm_def recording_def same_source_def
      control_phase_id intro!: control_phaseI [OF _ control_frames_mem(3)] split: option.split)
qed

lemma control_phase_trans:
  assumes "control_phase log now arcs tr e p (p1, e1)" "control_phase log now arcs tr e1 p1 (p2, e2)"
    "control_phase log now arcs tr e2 p2 (p3, e3)"
  shows "same_source e3 e \<and> (\<exists>ctl. length ctl \<le> 3 \<and> set ctl \<subseteq> control_frames now arcs e \<and>
       log p3 = log p @ (case tr of Some t \<Rightarrow> map (Pair t) ctl | None \<Rightarrow> []))"
proof -
  obtain c1 c2 c3 where c: "length c1 \<le> 1" "set c1 \<subseteq> control_frames now arcs e"
      "log p1 = log p @ (case tr of Some t \<Rightarrow> map (Pair t) c1 | None \<Rightarrow> [])"
      "length c2 \<le> 1" "set c2 \<subseteq> control_frames now arcs e1"
      "log p2 = log p1 @ (case tr of Some t \<Rightarrow> map (Pair t) c2 | None \<Rightarrow> [])"
      "length c3 \<le> 1" "set c3 \<subseteq> control_frames now arcs e2"
      "log p3 = log p2 @ (case tr of Some t \<Rightarrow> map (Pair t) c3 | None \<Rightarrow> [])"
    using assms by (auto simp: control_phase_def)
  have s: "same_source e1 e" "same_source e2 e" "same_source e3 e"
    using assms by (auto simp: control_phase_def same_source_def)
  have "log p3 = log p @ (case tr of Some t \<Rightarrow> map (Pair t) (c1 @ c2 @ c3) | None \<Rightarrow> [])"
    using c by (cases tr) simp_all
  moreover have "set (c1 @ c2 @ c3) \<subseteq> control_frames now arcs e" "length (c1 @ c2 @ c3) \<le> 3"
    using c same_source_accessors(8) [OF s(1)] same_source_accessors(8) [OF s(2)] by auto
  ultimately show ?thesis using s(3) by blast
qed

text \<open>The scan of a local publication is that of \<open>np_do_send\<close>.\<close>

lemma emit_frames_log:
  assumes "recording submit flush log"
  shows "log (emit_frames submit ep dest frames p) =
    log p @ (case sce_transport_idx ep of Some t \<Rightarrow> map (Pair t) (filter (\<lambda>d. \<not> skip_pad d) frames) | None \<Rightarrow> [])"
  using assms unfolding emit_frames_def
  by (induction frames arbitrary: p) (auto simp: recording_def send_data_def split: option.splits)

lemma scan_phase_local:
  assumes "recording submit flush log" "pe_kind e = Local np"
    "sent = np_do_send np (pe_sender_limit e) (send_available p)"
  shows "\<exists>p' e' n. scan_phase submit send_available now arcs ep p e = (p', arcs, e', n) \<and>
    pe_kind e' = Local (snd sent) \<and> pe_endpoint_idx e' = pe_endpoint_idx e \<and>
    log p' = log p @ (case sce_transport_idx ep of Some t \<Rightarrow> map (Pair t) (fst sent) | None \<Rightarrow> [])"
  using assms(2) emit_frames_log [OF assms(1)] unfolding assms(3)
  by (simp add: scan_phase_def np_do_send_def pe_sender_position_def pe_pub_position_def pe_mtu_def
      pe_sender_scan_def Let_def case_prod_beta split: option.split)

lemma scan_phase_log:
  assumes "recording submit flush log" "scan_phase submit send_available now arcs ep p e = (p', arcs', e', n)"
  shows "\<exists>ds. log p' = log p @ (case sce_transport_idx ep of Some t \<Rightarrow> map (Pair t) ds | None \<Rightarrow> [])"
    "pe_endpoint_idx e' = pe_endpoint_idx e"
  using assms(2) emit_frames_log [OF assms(1)]
  by (auto simp: scan_phase_def pe_sender_scan_def Let_def case_prod_beta
      split: option.split if_splits publication_kind.splits)

lemma serve_publication_step:
  assumes "recording submit flush log" "idx < length (sa_publications sa)"
    "e = sa_publications sa ! idx" "pe_endpoint_idx e < length (sa_endpoints sa)"
    "tr = endpoint_transport sa e"
  shows "\<exists>p3 e3 ctl p' arcs e' n ds.
    serve_publication submit send_available now p sa idx =
      Some (p', sa\<lparr>sa_publications := (sa_publications sa)[idx := e'], sa_arcs := arcs\<rparr>, n) \<and>
    same_source e3 e \<and> length ctl \<le> 3 \<and> set ctl \<subseteq> control_frames now (sa_arcs sa) e \<and>
    log p3 = log p @ (case tr of Some t \<Rightarrow> map (Pair t) ctl | None \<Rightarrow> []) \<and>
    scan_phase submit send_available now (sa_arcs sa) (sa_endpoints sa ! pe_endpoint_idx e) p3 e3 = (p', arcs, e', n) \<and>
    log p' = log p3 @ (case tr of Some t \<Rightarrow> map (Pair t) ds | None \<Rightarrow> []) \<and>
    pe_endpoint_idx e' = pe_endpoint_idx e"
proof -
  let ?ep = "sa_endpoints sa ! pe_endpoint_idx e"
  have tr: "tr = sce_transport_idx ?ep" using assms(5) by (simp add: endpoint_transport_def)
  obtain p1 e1 where 1: "setup_phase submit now (sa_heartbeat_interval_ns sa) (sa_arcs sa) ?ep p e = (p1, e1)"
    by fastforce
  obtain p2 e2 where 2: "heartbeat_phase submit now (sa_heartbeat_interval_ns sa) (sa_arcs sa) ?ep p1 e1 = (p2, e2)"
    by fastforce
  obtain p3 e3 where 3: "rttm_phase submit now (sa_rttm_interval_ns sa) (sa_arcs sa) ?ep p2 e2 = (p3, e3)"
    by fastforce
  obtain p' arcs e' n where 4: "scan_phase submit send_available now (sa_arcs sa) ?ep p3 e3 = (p', arcs, e', n)"
    by (metis prod_cases4)
  have "control_phase log now (sa_arcs sa) tr e p (p1, e1)" "control_phase log now (sa_arcs sa) tr e1 p1 (p2, e2)"
    "control_phase log now (sa_arcs sa) tr e2 p2 (p3, e3)"
    using control_phases(1) [OF assms(1) tr, of now "sa_arcs sa" e p "sa_heartbeat_interval_ns sa"]
      control_phases(2) [OF assms(1) tr, of now "sa_arcs sa" e1 p1 "sa_heartbeat_interval_ns sa"]
      control_phases(3) [OF assms(1) tr, of now "sa_arcs sa" e2 p2 "sa_rttm_interval_ns sa"]
    by (simp_all only: 1 2 3)
  from control_phase_trans [OF this] obtain ctl where c: "same_source e3 e" "length ctl \<le> 3"
      "set ctl \<subseteq> control_frames now (sa_arcs sa) e"
      "log p3 = log p @ (case tr of Some t \<Rightarrow> map (Pair t) ctl | None \<Rightarrow> [])" by blast
  obtain ds where d: "log p' = log p3 @ (case tr of Some t \<Rightarrow> map (Pair t) ds | None \<Rightarrow> [])"
    using scan_phase_log(1) [OF assms(1) 4] tr by blast
  have i: "pe_endpoint_idx e' = pe_endpoint_idx e"
    using scan_phase_log(2) [OF assms(1) 4] c(1) by (simp add: same_source_def)
  have s: "serve_publication submit send_available now p sa idx =
      Some (p', sa\<lparr>sa_publications := (sa_publications sa)[idx := e'], sa_arcs := arcs\<rparr>, n)"
    using assms(3,4) 1 2 3 4 by (simp add: serve_publication_def)
  show ?thesis by (intro exI conjI) (rule s c 4 d i)+
qed

section \<open>The pass over all publications\<close>

text \<open>The indices a pass visits: every publication once, starting at the round-robin index.\<close>

fun visits :: "nat \<Rightarrow> nat \<Rightarrow> nat \<Rightarrow> nat list" where
  "visits len idx 0 = []"
| "visits len idx (Suc n) = idx # visits len (if len \<le> idx + 1 then 0 else idx + 1) n"

lemma visits_upto: "n \<le> len - idx \<Longrightarrow> visits len idx n = [idx..<idx + n]"
proof (induction n arbitrary: idx)
  case (Suc n)
  show ?case
  proof (cases n)
    case (Suc m)
    then have lt: "\<not> len \<le> idx + 1" using Suc.prems by simp
    have "visits len idx (Suc n) = idx # [idx + 1..<idx + 1 + n]"
      using Suc.IH [of "idx + 1"] Suc.prems lt by (simp del: upt_Suc)
    also have "\<dots> = [idx..<idx + Suc n]" by (simp add: upt_conv_Cons del: upt_Suc)
    finally show ?thesis .
  qed simp
qed simp

lemma visits_wrap:
  "idx < len \<Longrightarrow> visits len idx (len - idx + n) = [idx..<len] @ visits len 0 n"
proof (induction "len - idx" arbitrary: idx)
  case (Suc m)
  show ?case
  proof (cases "idx + 1 < len")
    case True
    then have "visits len (idx + 1) (len - (idx + 1) + n) = [idx + 1..<len] @ visits len 0 n"
      using Suc by simp
    moreover have "len - idx + n = Suc (len - (idx + 1) + n)" using True by simp
    ultimately show ?thesis using True Suc.prems by (simp add: upt_conv_Cons)
  next
    case False
    then have "len = idx + 1" using Suc.prems by simp
    then show ?thesis by simp
  qed
qed simp

lemma visits_all:
  assumes "start < len"
  shows "visits len start len = [start..<len] @ [0..<start]"
  using visits_wrap [OF assms, of start] visits_upto [of start len 0] assms by simp

text \<open>
  The state of the pass, for the local publication at \<open>k\<close> with transport \<open>tr\<close>: every entry has a registered
  endpoint index, and no other publication shares the transport.
\<close>

definition sole_user :: "sender_agent \<Rightarrow> nat \<Rightarrow> nat \<Rightarrow> bool" where
  "sole_user sa k tr \<longleftrightarrow> k < length (sa_publications sa) \<and>
     list_all (\<lambda>e. pe_endpoint_idx e < length (sa_endpoints sa)) (sa_publications sa) \<and>
     endpoint_transport sa (sa_publications sa ! k) = Some tr \<and>
     list_all (\<lambda>j. j = k \<or> endpoint_transport sa (sa_publications sa ! j) \<noteq> Some tr)
       [0..<length (sa_publications sa)]"

lemma sole_user_update:
  assumes "sole_user sa k tr" "idx < length (sa_publications sa)"
    "pe_endpoint_idx e' = pe_endpoint_idx (sa_publications sa ! idx)"
  shows "sole_user (sa\<lparr>sa_publications := (sa_publications sa)[idx := e'], sa_arcs := arcs\<rparr>) k tr"
  using assms by (auto simp: sole_user_def list_all_length endpoint_transport_def nth_list_update)

text \<open>Serving another publication leaves the entry at \<open>k\<close> and its transport alone.\<close>

lemma serve_other:
  assumes "recording submit flush log" "sole_user sa k tr" "idx < length (sa_publications sa)" "idx \<noteq> k"
  shows "\<exists>p' sa' n. serve_publication submit send_available now p sa idx = Some (p', sa', n) \<and>
    sole_user sa' k tr \<and> sa_publications sa' ! k = sa_publications sa ! k \<and>
    length (sa_publications sa') = length (sa_publications sa) \<and>
    on_transport tr (log p') = on_transport tr (log p)"
proof -
  let ?e = "sa_publications sa ! idx"
  have i: "pe_endpoint_idx ?e < length (sa_endpoints sa)" "endpoint_transport sa ?e \<noteq> Some tr"
    using assms(2-4) by (auto simp: sole_user_def list_all_length)
  have other: "on_transport tr (case endpoint_transport sa ?e of Some t \<Rightarrow> map (Pair t) ds | None \<Rightarrow> []) = []" for ds
    using i(2) by (cases "endpoint_transport sa ?e") (auto simp: on_transport_def filter_empty_conv)
  obtain p3 e3 ctl p' arcs e' n ds where s:
    "serve_publication submit send_available now p sa idx =
      Some (p', sa\<lparr>sa_publications := (sa_publications sa)[idx := e'], sa_arcs := arcs\<rparr>, n)"
    "log p3 = log p @ (case endpoint_transport sa ?e of Some t \<Rightarrow> map (Pair t) ctl | None \<Rightarrow> [])"
    "log p' = log p3 @ (case endpoint_transport sa ?e of Some t \<Rightarrow> map (Pair t) ds | None \<Rightarrow> [])"
    "pe_endpoint_idx e' = pe_endpoint_idx ?e"
    using serve_publication_step [OF assms(1,3) refl i(1) refl] by blast
  have "on_transport tr (log p') = on_transport tr (log p)" unfolding s(2,3) by (simp add: other)
  then show ?thesis using s(1) sole_user_update [OF assms(2,3) s(4)] assms(4) by simp
qed

text \<open>What serving publication \<open>k\<close> does, and where the pass leaves it.\<close>

definition served ::
  "('p \<Rightarrow> datagram_log) \<Rightarrow> ('p \<Rightarrow> nat) \<Rightarrow> i64 \<Rightarrow> network_publication \<Rightarrow> publication_entry \<Rightarrow> nat \<Rightarrow> byte list list \<Rightarrow>
   'p \<Rightarrow> publication_entry \<Rightarrow> bool" where
  "served log send_available now np e tr before p' e' \<longleftrightarrow>
     (\<exists>ctl p1. length ctl \<le> 3 \<and> set ctl \<subseteq> control_frames now [] e \<and>
        pe_kind e' = Local (snd (np_do_send np (pe_sender_limit e) (send_available p1))) \<and>
        on_transport tr (log p') =
          before @ ctl @ fst (np_do_send np (pe_sender_limit e) (send_available p1)))"

lemma control_frames_local: "pe_kind e = Local np \<Longrightarrow> control_frames now arcs e = control_frames now [] e"
  by (simp add: control_frames_def pe_session_id_def pe_stream_id_def pe_initial_term_id_def
      pe_active_term_id_def pe_term_offset_def pe_term_length_def pe_mtu_def)

lemma serve_self:
  assumes "recording submit flush log" "sole_user sa k tr" "e = sa_publications sa ! k" "pe_kind e = Local np"
  shows "\<exists>p' sa' n. serve_publication submit send_available now p sa k = Some (p', sa', n) \<and>
    sole_user sa' k tr \<and> length (sa_publications sa') = length (sa_publications sa) \<and>
    served log send_available now np e tr (on_transport tr (log p)) p' (sa_publications sa' ! k)"
proof -
  have k: "k < length (sa_publications sa)" "pe_endpoint_idx e < length (sa_endpoints sa)"
    "endpoint_transport sa e = Some tr" using assms(2,3) by (auto simp: sole_user_def list_all_length)
  obtain p3 e3 ctl p' arcs e' n where s:
    "serve_publication submit send_available now p sa k =
      Some (p', sa\<lparr>sa_publications := (sa_publications sa)[k := e'], sa_arcs := arcs\<rparr>, n)"
    "same_source e3 e" "length ctl \<le> 3" "set ctl \<subseteq> control_frames now (sa_arcs sa) e"
    "log p3 = log p @ map (Pair tr) ctl"
    "scan_phase submit send_available now (sa_arcs sa) (sa_endpoints sa ! pe_endpoint_idx e) p3 e3 = (p', arcs, e', n)"
    "pe_endpoint_idx e' = pe_endpoint_idx e"
    using serve_publication_step [OF assms(1) k(1) assms(3) k(2) refl] unfolding k(3) option.case by blast
  let ?sent = "np_do_send np (pe_sender_limit e) (send_available p3)"
  have e3: "pe_kind e3 = Local np" "pe_sender_limit e3 = pe_sender_limit e"
    using s(2) assms(4) by (simp_all add: same_source_def)
  have tr: "sce_transport_idx (sa_endpoints sa ! pe_endpoint_idx e) = Some tr"
    using k(3) by (simp add: endpoint_transport_def)
  have "pe_kind e' = Local (snd ?sent) \<and> log p' = log p3 @ map (Pair tr) (fst ?sent)"
    using scan_phase_local [OF assms(1) e3(1) refl, where send_available = send_available and p = p3 and now = now
        and arcs = "sa_arcs sa" and ep = "sa_endpoints sa ! pe_endpoint_idx e"]
      s(6) tr e3(2) by simp
  then have "served log send_available now np e tr (on_transport tr (log p)) p' e'"
    using s(3-5) control_frames_local [OF assms(4)]
    by (auto simp: served_def on_transport_def comp_def intro!: exI [of _ ctl] exI [of _ p3])
  then show ?thesis using s(1) sole_user_update [OF assms(2) k(1)] s(7) assms(3) k(1) by auto
qed

lemma send_loop_others:
  assumes "recording submit flush log" "sole_user sa k tr" "idx < length (sa_publications sa)"
    "k \<notin> set (visits (length (sa_publications sa)) idx n)"
  shows "\<exists>p' sa' total. send_loop submit send_available now n idx p sa t = Some (p', sa', total) \<and>
    on_transport tr (log p') = on_transport tr (log p) \<and> sa_publications sa' ! k = sa_publications sa ! k"
  using assms(2-)
proof (induction n arbitrary: idx p sa t)
  case (Suc n)
  let ?next = "if length (sa_publications sa) \<le> idx + 1 then 0 else idx + 1"
  have "idx \<noteq> k" using Suc.prems(3) by auto
  then obtain p1 sa1 m where 1: "serve_publication submit send_available now p sa idx = Some (p1, sa1, m)"
      "sole_user sa1 k tr" "sa_publications sa1 ! k = sa_publications sa ! k"
      "length (sa_publications sa1) = length (sa_publications sa)"
      "on_transport tr (log p1) = on_transport tr (log p)"
    using serve_other [OF assms(1) Suc.prems(1,2)] by blast
  have n: "?next < length (sa_publications sa1)" "k \<notin> set (visits (length (sa_publications sa1)) ?next n)"
    using Suc.prems 1(4) by (auto split: if_splits)
  show ?case using Suc.IH [OF 1(2) n, of p1 "t + of_nat m"] 1 by simp
qed simp

lemma send_loop_serves:
  assumes "recording submit flush log" "sole_user sa k tr" "idx < length (sa_publications sa)"
    "k \<in> set (visits (length (sa_publications sa)) idx n)" "distinct (visits (length (sa_publications sa)) idx n)"
    "pe_kind (sa_publications sa ! k) = Local np"
  shows "\<exists>p' sa' total. send_loop submit send_available now n idx p sa t = Some (p', sa', total) \<and>
    served log send_available now np (sa_publications sa ! k) tr (on_transport tr (log p)) p' (sa_publications sa' ! k)"
  using assms(2-)
proof (induction n arbitrary: idx p sa t)
  case (Suc n)
  let ?next = "if length (sa_publications sa) \<le> idx + 1 then 0 else idx + 1"
  have next_lt: "?next < length (sa_publications sa)" using Suc.prems(2) by auto
  show ?case
  proof (cases "idx = k")
    case True
    obtain p1 sa1 m where 1: "serve_publication submit send_available now p sa k = Some (p1, sa1, m)"
        "sole_user sa1 k tr" "length (sa_publications sa1) = length (sa_publications sa)"
        "served log send_available now np (sa_publications sa ! k) tr (on_transport tr (log p)) p1 (sa_publications sa1 ! k)"
      using serve_self [OF assms(1) Suc.prems(1) refl Suc.prems(5)] by blast
    have "k \<notin> set (visits (length (sa_publications sa1)) ?next n)"
      using Suc.prems(4) True 1(3) by (simp split: if_splits)
    with send_loop_others [OF assms(1) 1(2)] next_lt 1(3) obtain p' sa' total where l:
      "send_loop submit send_available now n ?next p1 sa1 (t + of_nat m) = Some (p', sa', total)"
      "on_transport tr (log p') = on_transport tr (log p1)" "sa_publications sa' ! k = sa_publications sa1 ! k"
      by (metis (no_types))
    have "send_loop submit send_available now (Suc n) idx p sa t = Some (p', sa', total)"
      using l(1) 1(1) True by (simp split: if_splits)
    moreover have "served log send_available now np (sa_publications sa ! k) tr (on_transport tr (log p)) p'
        (sa_publications sa' ! k)"
      using 1(4) l(2,3) by (simp only: served_def)
    ultimately show ?thesis by blast
  next
    case False
    obtain p1 sa1 m where 1: "serve_publication submit send_available now p sa idx = Some (p1, sa1, m)"
        "sole_user sa1 k tr" "sa_publications sa1 ! k = sa_publications sa ! k"
        "length (sa_publications sa1) = length (sa_publications sa)"
        "on_transport tr (log p1) = on_transport tr (log p)"
      using serve_other [OF assms(1) Suc.prems(1,2) False] by blast
    have n: "?next < length (sa_publications sa1)" "k \<in> set (visits (length (sa_publications sa1)) ?next n)"
      "distinct (visits (length (sa_publications sa1)) ?next n)" "pe_kind (sa_publications sa1 ! k) = Local np"
      using Suc.prems False 1(3,4) next_lt by (simp_all split: if_splits)
    show ?thesis using Suc.IH [OF 1(2) n, of p1 "t + of_nat m"] 1 by simp
  qed
qed simp


text \<open>A poller that only records, and an agent with two publications on two transports.\<close>

definition record_submit :: "datagram_log submit" where
  "record_submit log tr data dest = (log @ [(tr, data)], None)"

definition small_frames_pub :: network_publication where
  "small_frames_pub = snd (snd (np_run (the (network_publication_new 7 10 100 64 64)) [Offer [], Offer []]))"

definition two_pub_sender :: sender_agent where
  "two_pub_sender = (sender_agent_new 100 0 4 100 100)
     \<lparr>sa_endpoints := [send_channel_endpoint_new\<lparr>sce_transport_idx := Some 0\<rparr>,
                      send_channel_endpoint_new\<lparr>sce_transport_idx := Some 1\<rparr>],
      sa_publications := [new_entry (Local two_frame_start) 0 None 64, new_entry (Local small_frames_pub) 1 None 64],
      sa_round_robin_index := 1\<rparr>"

lemma small_frames_sent: "map length (fst (np_do_send small_frames_pub 64 1)) = [32, 32]"
  by code_simp


section \<open>Send slots\<close>

text \<open>
  A poller with a pool of send slots: a submission takes a slot and hands the datagram over, or finds no slot
  and hands nothing over (\<open>submit_send\<close> returns \<open>NoSendSlot\<close>).
\<close>

definition slotted :: "'p submit \<Rightarrow> ('p \<Rightarrow> nat) \<Rightarrow> ('p \<Rightarrow> 'p) \<Rightarrow> ('p \<Rightarrow> datagram_log) \<Rightarrow> bool" where
  "slotted submit send_available flush log \<longleftrightarrow>
     (\<forall>p tr data dest. 0 < send_available p \<longrightarrow>
        send_available (fst (submit p tr data dest)) = send_available p - 1 \<and>
        log (fst (submit p tr data dest)) = log p @ [(tr, data)]) \<and>
     (\<forall>p tr data dest. send_available p = 0 \<longrightarrow> submit p tr data dest = (p, Some NoSendSlot)) \<and>
     (\<forall>p. log (flush p) = log p)"

text \<open>No control frame is due for the publication.\<close>

definition quiet :: "sender_agent \<Rightarrow> i64 \<Rightarrow> publication_entry \<Rightarrow> bool" where
  "quiet sa now e \<longleftrightarrow> \<not> pe_needs_setup e \<and>
     sint (now - pe_time_of_last_send_ns e) \<le> sint (sa_heartbeat_interval_ns sa) \<and>
     sint (now - pe_time_of_last_rttm_ns e) \<le> sint (sa_rttm_interval_ns sa)"

lemma emit_frames_slotted:
  assumes "slotted submit send_available flush log" "sce_transport_idx ep = Some tr"
  shows "log (emit_frames submit ep dest frames p) =
    log p @ map (Pair tr) (take (send_available p) (filter (\<lambda>d. \<not> skip_pad d) frames))"
proof (induction frames arbitrary: p)
  case (Cons f frames)
  let ?p = "fst (submit p tr f dest)"
  have s: "emit_frames submit ep dest (f # frames) p =
      emit_frames submit ep dest frames (if skip_pad f then p else ?p)"
    by (simp add: emit_frames_def send_data_def assms(2))
  show ?case
  proof (cases "send_available p")
    case 0
    then have "submit p tr f dest = (p, Some NoSendSlot)" using assms(1) by (simp add: slotted_def)
    then show ?thesis unfolding s Cons.IH by (simp add: 0)
  next
    case (Suc m)
    then have "send_available ?p = m" "log ?p = log p @ [(tr, f)]" using assms(1) by (simp_all add: slotted_def)
    then show ?thesis unfolding s Cons.IH by (simp add: Suc)
  qed
qed (simp add: emit_frames_def)

text \<open>
  C36: The slot clamp of the send pass does not prevent the loss it is there to prevent. The pass bounds the
  bytes it scans by the free slots times the MTU, but a frame takes a slot however short it is. When the scan
  yields more data frames than there are free slots, only as many as there are slots reach the transport; the
  rest are refused, the refusal is dropped, and the sender position has moved past all of them.
\<close>

theorem slot_clamp_drops_frames:
  assumes "slotted submit send_available flush log"
    and "sa_publications sa = [e]" "pe_kind e = Local np" "quiet sa now e"
    and "pe_endpoint_idx e < length (sa_endpoints sa)" "endpoint_transport sa e = Some tr"
    and "np_do_send np (pe_sender_limit e) (send_available p) = (frames, np')"
    and "send_available p < length frames"
  shows "\<exists>p' sa' total. do_send submit send_available flush now p sa = Some (p', sa', total) \<and>
    map pe_kind (sa_publications sa') = [Local np'] \<and>
    log p' = log p @ map (Pair tr) (take (send_available p) frames)"
proof -
  let ?ep = "sa_endpoints sa ! pe_endpoint_idx e"
  have tr: "sce_transport_idx ?ep = Some tr" using assms(6) by (simp add: endpoint_transport_def)
  have phases: "setup_phase submit now (sa_heartbeat_interval_ns sa) (sa_arcs sa) ?ep p e = (p, e)"
    "heartbeat_phase submit now (sa_heartbeat_interval_ns sa) (sa_arcs sa) ?ep p e = (p, e)"
    "rttm_phase submit now (sa_rttm_interval_ns sa) (sa_arcs sa) ?ep p e = (p, e)"
    using assms(4) by (simp_all add: setup_phase_def heartbeat_phase_def rttm_phase_def quiet_def)
  have "\<exists>p1 e1 n. scan_phase submit send_available now (sa_arcs sa) ?ep p e = (p1, sa_arcs sa, e1, n) \<and>
      pe_kind e1 = Local np' \<and> log p1 = log p @ map (Pair tr) (take (send_available p) frames)"
    using assms(3,7) emit_frames_slotted [OF assms(1) tr]
    by (auto simp: scan_phase_def np_do_send_def pe_sender_position_def pe_pub_position_def pe_mtu_def
        pe_sender_scan_def Let_def case_prod_beta split: if_splits)
  then obtain p1 e1 n where s: "scan_phase submit send_available now (sa_arcs sa) ?ep p e = (p1, sa_arcs sa, e1, n)"
      "pe_kind e1 = Local np'" "log p1 = log p @ map (Pair tr) (take (send_available p) frames)" by blast
  have "log (flush p1) = log p1" using assms(1) by (simp add: slotted_def)
  then show ?thesis using assms(2,5) phases s
    by (cases "sa_round_robin_index sa") (simp_all add: do_send_def serve_publication_def)
qed

definition slot_submit :: "(nat \<times> datagram_log) submit" where
  "slot_submit p tr data dest =
     (if fst p = 0 then (p, Some NoSendSlot) else ((fst p - 1, snd p @ [(tr, data)]), None))"

definition one_slot_sender :: sender_agent where
  "one_slot_sender = (sender_agent_new 0 0 4 100 100)
     \<lparr>sa_endpoints := [send_channel_endpoint_new\<lparr>sce_transport_idx := Some 0\<rparr>],
      sa_publications := [(new_entry (Local small_frames_pub) 0 None 64)\<lparr>pe_needs_setup := False\<rparr>]\<rparr>"

theorem slot_clamp_drops_frames_witness:
  "\<exists>p sa total f. do_send slot_submit fst id 0 (1, []) one_slot_sender = Some (p, sa, total) \<and>
    snd p = [(0, f)] \<and> length (fst (np_do_send small_frames_pub 64 1)) = 2 \<and>
    map pe_kind (sa_publications sa) = [Local (snd (np_do_send small_frames_pub 64 1))]"
proof -
  obtain frames np' where n: "np_do_send small_frames_pub 64 1 = (frames, np')" by fastforce
  then have l: "map length frames = [32, 32]" using small_frames_sent by simp
  then obtain f g where fg: "frames = [f, g]" by (auto simp: map_eq_Cons_conv)
  have "slotted slot_submit fst id snd" by (simp add: slotted_def slot_submit_def)
  from slot_clamp_drops_frames [OF this, of one_slot_sender _ small_frames_pub 0 0 "(1, [])" frames np'] n fg
  have "\<exists>p sa total. do_send slot_submit fst id 0 (1, []) one_slot_sender = Some (p, sa, total) \<and>
      map pe_kind (sa_publications sa) = [Local np'] \<and> snd p = [(0, f)]"
    by (simp add: one_slot_sender_def sender_agent_new_def new_entry_def quiet_def endpoint_transport_def)
  then show ?thesis unfolding n fg by auto
qed

end
