(* ===== verification/Record_Layout.thy ===== *)
theory Record_Layout
  imports Term_Buffer
begin

text \<open>
  What the command ring buffer and the response broadcast buffer share: constants and helpers that both source
  files declare, and the layout of aligned records in a circular byte region. The two buffers order the two
  header words differently, so the encoding of a record is a parameter of the layout; the locale
  \<open>record_format\<close> holds what the layout needs of it.
\<close>

unbundle bit_operations_syntax

section \<open>Constants and helpers\<close>

definition RECORD_HEADER_LENGTH :: nat where "RECORD_HEADER_LENGTH = 8"
definition RECORD_ALIGNMENT :: nat where "RECORD_ALIGNMENT = 32"
definition ALIGNMENT_MASK :: "64 word" where "ALIGNMENT_MASK = NOT (of_nat RECORD_ALIGNMENT - 1)"
definition MSG_TYPE_PADDING :: i32 where "MSG_TYPE_PADDING = -1"
definition TRAILER_LENGTH :: nat where "TRAILER_LENGTH = 128"

definition align_record :: "nat \<Rightarrow> nat" where
  "align_record len = unat ((of_nat len + of_nat RECORD_ALIGNMENT - 1) AND ALIGNMENT_MASK)"

definition required_buffer_size :: "nat \<Rightarrow> nat" where
  "required_buffer_size capacity = capacity + TRAILER_LENGTH"

definition write_i32 :: "byte list \<Rightarrow> nat \<Rightarrow> i32 \<Rightarrow> byte list" where
  "write_i32 buf offset val = overwrite buf offset (le_bytes 4 val)"

section \<open>Records\<close>

type_synonym message = "i32 \<times> byte list"

lemmas ring_constants = RECORD_HEADER_LENGTH_def RECORD_ALIGNMENT_def TRAILER_LENGTH_def

lemma align_record_eq:
  assumes "len + 31 < 2 ^ 64"
  shows "align_record len = align_frame_length len"
proof -
  have "align_record len = unat (align_frame_length_mask (of_nat len))"
    by (simp add: align_record_def align_frame_length_mask_def ALIGNMENT_MASK_def ring_constants)
  also have "\<dots> = align_frame_length (unat (of_nat len :: 64 word))"
    using assms by (intro align_bitmask) (simp add: unat_of_nat_lt)
  finally show ?thesis using assms by (simp add: unat_of_nat_lt)
qed

text \<open>What the buffer holds: messages, and the padding at the end of a lap.\<close>

datatype ring_record = Padding nat | Msg i32 "byte list"

fun rec_len :: "ring_record \<Rightarrow> nat" where
  "rec_len (Padding n) = n"
| "rec_len (Msg t p) = align_record (length p + RECORD_HEADER_LENGTH)"

text \<open>The bytes a record occupies before its alignment gap.\<close>

fun rec_size :: "ring_record \<Rightarrow> nat" where
  "rec_size (Padding n) = RECORD_HEADER_LENGTH"
| "rec_size (Msg t p) = length p + RECORD_HEADER_LENGTH"

fun rec_ok :: "nat \<Rightarrow> ring_record \<Rightarrow> bool" where
  "rec_ok cap (Padding n) \<longleftrightarrow> 32 dvd n \<and> 0 < n \<and> n \<le> cap"
| "rec_ok cap (Msg t p) \<longleftrightarrow> t \<noteq> MSG_TYPE_PADDING \<and> length p + RECORD_HEADER_LENGTH \<le> cap"

fun messages_of :: "ring_record list \<Rightarrow> message list" where
  "messages_of [] = []"
| "messages_of (Padding n # rs) = messages_of rs"
| "messages_of (Msg t p # rs) = (t, p) # messages_of rs"

lemma messages_of_append [simp]: "messages_of (rs @ rs') = messages_of rs @ messages_of rs'"
  by (induction rs rule: messages_of.induct) simp_all

lemma rec_len_props:
  assumes "rec_ok cap r" "cap \<le> 2 ^ 30" "32 dvd cap"
  shows "0 < rec_len r \<and> 32 dvd rec_len r \<and> rec_size r \<le> rec_len r \<and> rec_len r \<le> cap"
proof (cases r)
  case (Padding n)
  then show ?thesis using assms(1) dvd_imp_le [of 32 n] by (simp add: ring_constants)
next
  case (Msg t p)
  then have eq: "rec_len r = align_frame_length (length p + 8)" and le: "length p + 8 \<le> cap"
    using assms by (simp_all add: align_record_eq ring_constants)
  have "length p + 8 \<le> rec_len r" "32 dvd rec_len r" "rec_len r \<le> cap"
    unfolding eq by (rule align_ge, rule align_dvd, rule align_least [OF le assms(3)])
  then show ?thesis using Msg by (simp add: ring_constants)
qed

section \<open>Layout\<close>

text \<open>
  The records from position \<open>pos\<close> to \<open>fin\<close>, each in one piece. Positions grow without bound; a record
  lies at its position modulo the capacity.
\<close>

fun laid_out :: "(ring_record \<Rightarrow> byte list) \<Rightarrow> byte list \<Rightarrow> nat \<Rightarrow> nat \<Rightarrow> ring_record list \<Rightarrow> nat \<Rightarrow> bool" where
  "laid_out bytes_of data cap pos [] fin \<longleftrightarrow> pos = fin"
| "laid_out bytes_of data cap pos (r # rs) fin \<longleftrightarrow>
     rec_ok cap r \<and> pos mod cap + rec_len r \<le> cap \<and>
     bslice (pos mod cap) (length (bytes_of r)) data = bytes_of r \<and>
     laid_out bytes_of data cap (pos + rec_len r) rs fin"

text \<open>Pieces at different positions of one lap do not meet.\<close>

lemma ring_disjoint:
  fixes p q :: nat
  assumes "p + lp \<le> q" "q + lq \<le> p + cap" "p mod cap + lp \<le> cap" "q mod cap + lq \<le> cap" "0 < lp" "0 < lq"
  shows "p mod cap + lp \<le> q mod cap \<or> q mod cap + lq \<le> p mod cap"
proof -
  have cap: "0 < cap" using assms by (cases cap) auto
  define d where "d = q - p"
  have q: "q = p + d" "lp \<le> d" "d + lq \<le> cap" using assms by (auto simp: d_def)
  show ?thesis
  proof (cases "p mod cap + d < cap")
    case True
    then have "q mod cap = p mod cap + d" unfolding q(1) by (metis mod_add_left_eq mod_less)
    then show ?thesis using q by simp
  next
    case False
    moreover have "p mod cap + d - cap < cap" using mod_less_divisor [OF cap, of p] q(3) assms(6) by linarith
    ultimately have "(p mod cap + d) mod cap = p mod cap + d - cap" by (simp add: le_mod_geq)
    then have "q mod cap = p mod cap + d - cap" unfolding q(1) by (simp only: mod_add_left_eq)
    then show ?thesis using q(2,3) False by linarith
  qed
qed

locale record_format =
  fixes bytes_of :: "ring_record \<Rightarrow> byte list"
  assumes size_of_bytes: "length (bytes_of r) = rec_size r"
begin

lemma laid_out_le: "laid_out bytes_of data cap pos rs fin \<Longrightarrow> pos \<le> fin"
  by (induction rs arbitrary: pos) force+

lemma laid_out_overwrite:
  assumes "laid_out bytes_of data cap pos rs fin" "length data = cap" "cap \<le> 2 ^ 30" "32 dvd cap"
    and "at mod cap + n \<le> cap" "0 < n" "length bs \<le> n"
    and "fin \<le> at \<and> at + n \<le> pos + cap \<or> at + n \<le> pos \<and> fin \<le> at + cap"
  shows "laid_out bytes_of (overwrite data (at mod cap) bs) cap pos rs fin"
  using assms(1,8)
proof (induction rs arbitrary: pos)
  case (Cons r rs)
  have r: "rec_ok cap r" "pos mod cap + rec_len r \<le> cap" "laid_out bytes_of data cap (pos + rec_len r) rs fin"
    "bslice (pos mod cap) (length (bytes_of r)) data = bytes_of r" using Cons.prems(1) by simp_all
  have l: "0 < rec_len r" "length (bytes_of r) \<le> rec_len r" using rec_len_props [OF r(1) assms(3,4)] by (auto simp: size_of_bytes)
  have "pos + rec_len r \<le> fin" by (rule laid_out_le [OF r(3)])
  then have "pos mod cap + rec_len r \<le> at mod cap \<or> at mod cap + n \<le> pos mod cap"
    using Cons.prems(2) r(2) l(1) assms(5,6) ring_disjoint [of pos "rec_len r" at n cap]
      ring_disjoint [of at n pos "rec_len r" cap] by auto
  then have "bslice (pos mod cap) (length (bytes_of r)) (overwrite data (at mod cap) bs) = bytes_of r"
    using slice_overwrite_disjoint r(4) l(2) r(2) assms(2,5,7) by (auto simp: slice_simps)
  moreover have "laid_out bytes_of (overwrite data (at mod cap) bs) cap (pos + rec_len r) rs fin"
    using Cons.IH [OF r(3)] Cons.prems(2) l(1) by auto
  ultimately show ?case using r(1,2) by simp
qed simp

lemma laid_out_append:
  "laid_out bytes_of data cap pos rs mid \<Longrightarrow> laid_out bytes_of data cap mid rs' fin \<Longrightarrow> laid_out bytes_of data cap pos (rs @ rs') fin"
  by (induction rs arbitrary: pos) simp_all

lemma laid_out_snoc:
  assumes "laid_out bytes_of data cap pos rs fin" "length data = cap" "cap \<le> 2 ^ 30" "32 dvd cap"
    and "rec_ok cap r" "fin mod cap + rec_len r \<le> cap" "fin + rec_len r \<le> pos + cap"
    and "length bs \<le> rec_len r" "bs = bytes_of r @ zs"
  shows "laid_out bytes_of (overwrite data (fin mod cap) bs) cap pos (rs @ [r]) (fin + rec_len r)"
proof (rule laid_out_append)
  have l: "0 < rec_len r" using rec_len_props [OF assms(5,3,4)] by simp
  show "laid_out bytes_of (overwrite data (fin mod cap) bs) cap pos rs fin"
    using laid_out_overwrite [OF assms(1-4) assms(6) l assms(8)] assms(7) by simp
  have "bslice (fin mod cap) (length (bytes_of r)) (overwrite data (fin mod cap) bs) = bslice 0 (length (bytes_of r)) bs"
    using slice_overwrite_inside [of "fin mod cap" bs data "fin mod cap" "length (bytes_of r)"] assms(2,6,8,9) by simp
  also have "\<dots> = bytes_of r" unfolding assms(9) by (simp add: bslice_def)
  finally show "laid_out bytes_of (overwrite data (fin mod cap) bs) cap fin [r] (fin + rec_len r)"
    using assms(5,6) by simp
qed

lemma laid_out_dvd:
  assumes "laid_out bytes_of data cap pos rs fin" "cap \<le> 2 ^ 30" "32 dvd cap" "32 dvd pos"
  shows "32 dvd fin"
  using assms(1,4)
proof (induction rs arbitrary: pos)
  case (Cons r rs)
  then show ?case using rec_len_props [of cap r] assms(2,3) by auto
qed simp

end

section \<open>Positions\<close>

text \<open>Adjacent writes are one write.\<close>

lemma overwrite_adjacent:
  assumes "at + length a + length b \<le> length d"
  shows "overwrite (overwrite d (at + length a) b) at a = overwrite d at (a @ b)"
    "overwrite (overwrite d at a) (at + length a) b = overwrite d at (a @ b)"
  using assms by (simp_all add: overwrite_def add_ac)

lemma ring_index:
  assumes "is_power_of_two cap" "cap \<le> 2 ^ 30"
  shows "unat ((of_nat pos :: 64 word) AND of_nat (cap - 1)) = pos mod cap"
proof -
  obtain k where k: "cap = 2 ^ k" using assms(1) by (auto simp: is_power_of_two_iff)
  have "pos mod cap < cap" using k by simp
  also have "\<dots> < 2 ^ 64" using assms(2) by (rule le_less_trans) simp
  finally have "pos mod cap < 2 ^ 64" .
  then show ?thesis using and_mask_of_nat [where 'a = 64, of pos k] k by (simp add: unat_of_nat_lt)
qed

lemma aligned_gap: "(a :: nat) < b \<Longrightarrow> 32 dvd a \<Longrightarrow> 32 dvd b \<Longrightarrow> a + 32 \<le> b"
  by presburger

lemma of_nat_position_eq:
  assumes "c \<le> t" "t \<le> c + 2 ^ 30"
  shows "(of_nat c :: 64 word) = of_nat t \<longleftrightarrow> c = t"
proof
  assume "(of_nat c :: 64 word) = of_nat t"
  then have "(of_nat (t - c) :: 64 word) = 0" using assms(1) by (simp add: of_nat_diff)
  moreover have "unat (of_nat (t - c) :: 64 word) = t - c" using assms by (intro unat_of_nat_lt) simp
  ultimately show "c = t" using assms(1) by simp
qed simp

lemma unat_scast_of_nat:
  assumes "n \<le> 2 ^ 30"
  shows "unat (scast (of_nat n :: i32) :: 64 word) = n"
proof -
  have "sint (of_nat n :: i32) = int n" using assms by (intro sint_of_nat) simp
  then have "(scast (of_nat n :: i32) :: 64 word) = of_nat n"
    by (metis of_int_of_nat_eq of_int_sint)
  then show ?thesis using assms by (simp add: unat_of_nat_lt)
qed

lemma bslice_prefix:
  assumes "bslice at (length bs) data = bs" "k + n \<le> length bs"
  shows "bslice (at + k) n data = bslice k n bs"
  using assms(2) by (subst assms(1) [symmetric]) (simp add: bslice_def take_drop min_def add.commute)

end
