(* ===== verification/Ring_Buffer.thy ===== *)
theory Ring_Buffer
  imports Record_Layout
begin

text \<open>
  The many-producer single-consumer ring buffer that carries client commands to the conductor
  (\<^verbatim>\<open>src/src/cnc/ring_buffer.rs\<close>).

  The data region is a byte list; head and tail are the two atomics of the trailer. \<open>ring_write\<close> is a whole
  call; its parts (claim the tail, write the padding record, write the body, commit) are definitions of their
  own, so that a consumer can also be placed between them. Reading is a loop over whatever bytes are there and
  need not end on arbitrary memory, so it is a partial function.
\<close>

unbundle bit_operations_syntax

section \<open>Errors\<close>

datatype ring_buffer_error = InvalidCapacity | BufferTooSmall | MessageTooLarge | RingBufferFull

section \<open>The buffer\<close>

record mpsc_ring_buffer =
  rb_data :: "byte list"
  rb_head :: i64
  rb_tail :: i64
  rb_capacity :: nat
  rb_mask :: nat
  rb_max_record_length :: nat

definition ring_new :: "byte list \<Rightarrow> i64 \<Rightarrow> i64 \<Rightarrow> nat \<Rightarrow> ring_buffer_error + mpsc_ring_buffer" where
  "ring_new data head tail capacity =
     (if capacity < RECORD_ALIGNMENT \<or> \<not> is_power_of_two capacity then Inl InvalidCapacity
      else Inr \<lparr>rb_data = data, rb_head = head, rb_tail = tail, rb_capacity = capacity,
                rb_mask = capacity - 1, rb_max_record_length = capacity - RECORD_HEADER_LENGTH\<rparr>)"

definition new_heap_ring_buffer :: "nat \<Rightarrow> ring_buffer_error + mpsc_ring_buffer" where
  "new_heap_ring_buffer capacity = ring_new (replicate capacity 0) 0 0 capacity"

definition ring_size :: "mpsc_ring_buffer \<Rightarrow> nat" where
  "ring_size rb = unat (rb_tail rb - rb_head rb)"

section \<open>Producers\<close>

text \<open>
  The claim of a producer: the load of tail and head, the two capacity checks and the compare-and-swap of the
  tail. The result is the index of the old tail, and whether the record goes to the start of the buffer behind
  a padding record at that index.
\<close>

definition claim_tail :: "mpsc_ring_buffer \<Rightarrow> nat \<Rightarrow> ring_buffer_error + mpsc_ring_buffer \<times> nat \<times> bool" where
  "claim_tail rb aligned_length =
     (let available = of_nat (rb_capacity rb) - (rb_tail rb - rb_head rb);
          tail_index = unat (rb_tail rb AND of_nat (rb_mask rb));
          contiguous = rb_capacity rb - tail_index;
          total_needed = contiguous + aligned_length
      in if sint available < sint (of_nat aligned_length :: i64) then Inl RingBufferFull
         else if contiguous < aligned_length
         then if sint available < sint (of_nat total_needed :: i64) then Inl RingBufferFull
              else Inr (rb\<lparr>rb_tail := rb_tail rb + of_nat total_needed\<rparr>, tail_index, True)
         else Inr (rb\<lparr>rb_tail := rb_tail rb + of_nat aligned_length\<rparr>, tail_index, False))"

definition write_padding :: "mpsc_ring_buffer \<Rightarrow> nat \<Rightarrow> mpsc_ring_buffer" where
  "write_padding rb tail_index =
     (let pad_length = rb_capacity rb - tail_index;
          data = write_i32 (rb_data rb) tail_index MSG_TYPE_PADDING
      in rb\<lparr>rb_data := write_i32 data (tail_index + 4) (of_nat pad_length)\<rparr>)"

definition write_body :: "mpsc_ring_buffer \<Rightarrow> nat \<Rightarrow> nat \<Rightarrow> byte list \<Rightarrow> mpsc_ring_buffer" where
  "write_body rb index aligned_length payload =
     (let used = RECORD_HEADER_LENGTH + length payload;
          zeroed = overwrite (rb_data rb) (index + used) (replicate (aligned_length - used) 0);
          copied = overwrite zeroed (index + RECORD_HEADER_LENGTH) payload
      in rb\<lparr>rb_data := write_i32 copied (index + 4) (of_nat (length payload + RECORD_HEADER_LENGTH))\<rparr>)"

definition commit_record :: "mpsc_ring_buffer \<Rightarrow> nat \<Rightarrow> i32 \<Rightarrow> mpsc_ring_buffer" where
  "commit_record rb index msg_type = rb\<lparr>rb_data := write_i32 (rb_data rb) index msg_type\<rparr>"

definition ring_write :: "mpsc_ring_buffer \<Rightarrow> i32 \<Rightarrow> byte list \<Rightarrow> ring_buffer_error + mpsc_ring_buffer" where
  "ring_write rb msg_type payload =
     (let record_length = length payload + RECORD_HEADER_LENGTH
      in if rb_capacity rb < record_length then Inl MessageTooLarge
         else
           let aligned_length = align_record record_length
           in case claim_tail rb aligned_length of
                Inl err \<Rightarrow> Inl err
              | Inr (rb1, tail_index, True) \<Rightarrow>
                  Inr (commit_record (write_body (write_padding rb1 tail_index) 0 aligned_length payload) 0 msg_type)
              | Inr (rb1, tail_index, False) \<Rightarrow>
                  Inr (commit_record (write_body rb1 tail_index aligned_length payload) tail_index msg_type))"

section \<open>The consumer\<close>

text \<open>
  The reading loop. A record length below the header length or a payload that leaves the mapped memory is a
  fault; the handler's calls are the list of messages.
\<close>

partial_function (option) read_loop ::
  "byte list \<Rightarrow> nat \<Rightarrow> nat \<Rightarrow> i64 \<Rightarrow> i64 \<Rightarrow> message list \<Rightarrow> (unit, byte list \<times> i64 \<times> message list) outcome option" where
  "read_loop data capacity msk tail current messages =
     (if current = tail then Some (Ok (data, current, messages))
      else
        let index = unat (current AND of_nat msk);
            msg_type = read_i32 data index;
            record_length = unat (scast (read_i32 data (index + 4)) :: 64 word);
            cleared = write_i32 data index 0;
            next = current + of_nat (align_record record_length)
        in if msg_type = 0 then Some (Ok (data, current, messages))
           else if msg_type = MSG_TYPE_PADDING then read_loop cleared capacity msk tail next messages
           else if record_length < RECORD_HEADER_LENGTH \<or>
                   required_buffer_size capacity < index + record_length then Some Fault
           else read_loop cleared capacity msk tail next
                  (messages @ [(msg_type, bslice (index + RECORD_HEADER_LENGTH)
                                            (record_length - RECORD_HEADER_LENGTH) data)]))"

declare read_loop.simps [code]

definition ring_read :: "mpsc_ring_buffer \<Rightarrow> (unit, mpsc_ring_buffer \<times> message list) outcome option" where
  "ring_read rb =
     map_option (\<lambda>r. outcome_bind r (\<lambda>(data, current, messages).
         Ok (rb\<lparr>rb_data := data, rb_head := current\<rparr>, messages)))
       (read_loop (rb_data rb) (rb_capacity rb) (rb_mask rb) (rb_tail rb) (rb_head rb) [])"

section \<open>Records\<close>

fun rec_bytes :: "ring_record \<Rightarrow> byte list" where
  "rec_bytes (Padding n) = le_bytes 4 MSG_TYPE_PADDING @ le_bytes 4 (of_nat n :: i32)"
| "rec_bytes (Msg t p) = le_bytes 4 t @ le_bytes 4 (of_nat (length p + RECORD_HEADER_LENGTH) :: i32) @ p"

interpretation rfmt: record_format rec_bytes
proof unfold_locales
  show "length (rec_bytes r) = rec_size r" for r by (cases r) (simp_all add: ring_constants)
qed

text \<open>The type of a message that the consumer takes for committed.\<close>

fun rec_committed :: "ring_record \<Rightarrow> bool" where
  "rec_committed (Padding n) \<longleftrightarrow> True"
| "rec_committed (Msg t p) \<longleftrightarrow> t \<noteq> 0"

lemma write_record_bytes:
  assumes "length payload + 8 \<le> aligned" "index + aligned \<le> length (rb_data rb)"
  shows "commit_record (write_body rb index aligned payload) index msg_type =
    rb\<lparr>rb_data := overwrite (rb_data rb) index
      (rec_bytes (Msg msg_type payload) @ replicate (aligned - (8 + length payload)) 0)\<rparr>"
proof -
  let ?d = "rb_data rb" and ?zs = "replicate (aligned - (8 + length payload)) (0 :: byte)"
  let ?n = "le_bytes 4 (of_nat (length payload + 8) :: i32)"
  have "overwrite (overwrite ?d (index + 8 + length payload) ?zs) (index + 8) payload = overwrite ?d (index + 8) (payload @ ?zs)"
    using assms by (intro overwrite_adjacent) simp
  moreover have "overwrite (overwrite ?d (index + 4 + length ?n) (payload @ ?zs)) (index + 4) ?n =
      overwrite ?d (index + 4) (?n @ payload @ ?zs)"
    using assms by (intro overwrite_adjacent) simp
  moreover have "overwrite (overwrite ?d (index + length (le_bytes 4 msg_type)) (?n @ payload @ ?zs)) index (le_bytes 4 msg_type) =
      overwrite ?d index (le_bytes 4 msg_type @ ?n @ payload @ ?zs)"
    using assms by (intro overwrite_adjacent) simp
  ultimately show ?thesis
    by (simp add: commit_record_def write_body_def write_i32_def ring_constants Let_def add.assoc del: of_nat_add)
qed

lemma write_padding_bytes:
  assumes "index + 8 \<le> length (rb_data rb)"
  shows "write_padding rb index =
    rb\<lparr>rb_data := overwrite (rb_data rb) index (rec_bytes (Padding (rb_capacity rb - index)))\<rparr>"
  using overwrite_adjacent(2) [of index "le_bytes 4 MSG_TYPE_PADDING" "le_bytes 4 (of_nat (rb_capacity rb - index) :: i32)"
      "rb_data rb"] assms
  by (simp add: write_padding_def write_i32_def Let_def)

section \<open>The invariant\<close>

definition ring_inv :: "mpsc_ring_buffer \<Rightarrow> nat \<Rightarrow> ring_record list \<Rightarrow> nat \<Rightarrow> bool" where
  "ring_inv rb h rs t \<longleftrightarrow>
     is_power_of_two (rb_capacity rb) \<and> 32 \<le> rb_capacity rb \<and> rb_capacity rb \<le> 2 ^ 30 \<and>
     rb_mask rb = rb_capacity rb - 1 \<and> length (rb_data rb) = rb_capacity rb \<and>
     rb_head rb = of_nat h \<and> rb_tail rb = of_nat t \<and> 32 dvd h \<and> t \<le> h + rb_capacity rb \<and>
     list_all rec_committed rs \<and> laid_out rec_bytes (rb_data rb) (rb_capacity rb) h rs t"

lemma ring_invD:
  assumes "ring_inv rb h rs t"
  shows "32 dvd rb_capacity rb" "h \<le> t" "32 dvd t" "t mod rb_capacity rb + 32 \<le> rb_capacity rb"
    "0 < rb_capacity rb"
proof -
  show d: "32 dvd rb_capacity rb" using assms power_of_two_dvd by (auto simp: ring_inv_def)
  show "h \<le> t" "0 < rb_capacity rb" using assms rfmt.laid_out_le by (auto simp: ring_inv_def)
  show t: "32 dvd t" using assms rfmt.laid_out_dvd d by (auto simp: ring_inv_def)
  have "32 dvd t mod rb_capacity rb" using t d by (simp add: dvd_mod)
  moreover have "t mod rb_capacity rb < rb_capacity rb" using \<open>0 < rb_capacity rb\<close> by simp
  ultimately show "t mod rb_capacity rb + 32 \<le> rb_capacity rb" using d by (intro aligned_gap)
qed

text \<open>The space a producer finds, and the two ways to be refused.\<close>

definition ring_free :: "mpsc_ring_buffer \<Rightarrow> nat \<Rightarrow> nat \<Rightarrow> nat" where
  "ring_free rb h t = rb_capacity rb - (t - h)"

definition ring_room :: "mpsc_ring_buffer \<Rightarrow> nat \<Rightarrow> nat" where
  "ring_room rb t = rb_capacity rb - t mod rb_capacity rb"

lemma claim_tail_eq:
  assumes "ring_inv rb h rs t" "a \<le> rb_capacity rb"
  shows "claim_tail rb a =
    (if ring_free rb h t < a then Inl RingBufferFull
     else if ring_room rb t < a
     then if ring_free rb h t < ring_room rb t + a then Inl RingBufferFull
          else Inr (rb\<lparr>rb_tail := of_nat (t + (ring_room rb t + a))\<rparr>, t mod rb_capacity rb, True)
     else Inr (rb\<lparr>rb_tail := of_nat (t + a)\<rparr>, t mod rb_capacity rb, False))"
proof -
  have i: "rb_capacity rb \<le> 2 ^ 30" "is_power_of_two (rb_capacity rb)" "rb_mask rb = rb_capacity rb - 1"
    "rb_head rb = of_nat h" "rb_tail rb = of_nat t" "t \<le> h + rb_capacity rb" "h \<le> t"
    using assms(1) ring_invD(2) [OF assms(1)] by (simp_all add: ring_inv_def)
  have avail: "(of_nat (rb_capacity rb) - (of_nat t - of_nat h) :: i64) = of_nat (ring_free rb h t)"
    using i(6,7) by (simp add: ring_free_def of_nat_diff)
  have small: "sint (of_nat n :: i64) = int n" if "n \<le> 2 ^ 31" for n
    using that by (simp add: sint_of_nat)
  have "ring_free rb h t \<le> 2 ^ 31" "a \<le> 2 ^ 31" "ring_room rb t + a \<le> 2 ^ 31"
    using i(1) assms(2) by (simp_all add: ring_free_def ring_room_def)
  note sints = this [THEN small]
  show ?thesis
    unfolding claim_tail_def Let_def i(3-5) ring_index [OF i(2,1)] ring_room_def [symmetric] avail sints
      of_nat_less_iff of_nat_add [symmetric] ..
qed

section \<open>Writing\<close>

definition ring_accepts :: "mpsc_ring_buffer \<Rightarrow> nat \<Rightarrow> nat \<Rightarrow> nat \<Rightarrow> bool" where
  "ring_accepts rb h t a \<longleftrightarrow>
     a \<le> ring_free rb h t \<and> (ring_room rb t < a \<longrightarrow> ring_room rb t + a \<le> ring_free rb h t)"

lemma ring_write_refused:
  assumes "ring_inv rb h rs t"
  shows "rb_capacity rb < length p + 8 \<Longrightarrow> ring_write rb m p = Inl MessageTooLarge"
    "length p + 8 \<le> rb_capacity rb \<Longrightarrow> \<not> ring_accepts rb h t (align_record (length p + 8)) \<Longrightarrow>
      ring_write rb m p = Inl RingBufferFull"
proof -
  show "rb_capacity rb < length p + 8 \<Longrightarrow> ring_write rb m p = Inl MessageTooLarge"
    by (simp add: ring_write_def ring_constants)
  assume p: "length p + 8 \<le> rb_capacity rb" "\<not> ring_accepts rb h t (align_record (length p + 8))"
  have "align_record (length p + 8) \<le> rb_capacity rb"
    using p(1) assms ring_invD(1) align_least [of "length p + 8" "rb_capacity rb"]
    by (auto simp: align_record_eq ring_inv_def)
  from claim_tail_eq [OF assms this] p(2) have "claim_tail rb (align_record (length p + 8)) = Inl RingBufferFull"
    by (auto simp: ring_accepts_def)
  then show "ring_write rb m p = Inl RingBufferFull" using p(1) by (simp add: ring_write_def ring_constants)
qed

lemma ring_inv_snoc:
  assumes "ring_inv rb h rs t" "rec_ok (rb_capacity rb) r" "t mod rb_capacity rb + rec_len r \<le> rb_capacity rb"
    and "t + rec_len r \<le> h + rb_capacity rb" "length bs \<le> rec_len r" "bs = rec_bytes r @ zs" "rec_committed r"
  shows "ring_inv (rb\<lparr>rb_tail := of_nat (t + rec_len r), rb_data := overwrite (rb_data rb) (t mod rb_capacity rb) bs\<rparr>)
    h (rs @ [r]) (t + rec_len r)"
proof -
  have i: "rb_capacity rb \<le> 2 ^ 30" "length (rb_data rb) = rb_capacity rb" "laid_out rec_bytes (rb_data rb) (rb_capacity rb) h rs t"
    using assms(1) by (simp_all add: ring_inv_def)
  have "laid_out rec_bytes (overwrite (rb_data rb) (t mod rb_capacity rb) bs) (rb_capacity rb) h (rs @ [r]) (t + rec_len r)"
    by (rule rfmt.laid_out_snoc [OF i(3,2,1) ring_invD(1) [OF assms(1)] assms(2-6)])
  then show ?thesis using assms i by (simp add: ring_inv_def)
qed

lemma ring_write_accepted:
  assumes "ring_inv rb h rs t" "length p + 8 \<le> rb_capacity rb" "ring_accepts rb h t (align_record (length p + 8))"
    and "m \<noteq> 0" "m \<noteq> MSG_TYPE_PADDING"
  shows "\<exists>rb' pads t'. ring_write rb m p = Inr rb' \<and> ring_inv rb' h (rs @ pads @ [Msg m p]) t' \<and>
    messages_of pads = [] \<and> rb_capacity rb' = rb_capacity rb \<and> t' \<le> t + 2 * align_record (length p + 8)"
proof -
  let ?a = "align_record (length p + 8)" and ?cap = "rb_capacity rb"
  note d = ring_invD [OF assms(1)]
  have cap: "?cap \<le> 2 ^ 30" "length (rb_data rb) = ?cap" using assms(1) by (simp_all add: ring_inv_def)
  have ok: "rec_ok ?cap (Msg m p)" "rec_committed (Msg m p)" using assms(2,4,5) by (simp_all add: ring_constants)
  have len: "rec_len (Msg m p) = ?a" by (simp add: ring_constants)
  have a: "?a \<le> ?cap" "length p + 8 \<le> ?a" "0 < ?a"
    using rec_len_props [OF ok(1) cap(1) d(1)] by (auto simp: len ring_constants)
  have fits: "length (rec_bytes (Msg m p) @ replicate (?a - (8 + length p)) 0) \<le> rec_len (Msg m p)"
    using a(2) by (simp add: ring_constants)
  note claim = claim_tail_eq [OF assms(1) a(1)]
  note unfolded = ring_write_def [of rb m p, unfolded RECORD_HEADER_LENGTH_def Let_def]
  show ?thesis
  proof (cases "ring_room rb t < ?a")
    case False
    then have c: "claim_tail rb ?a = Inr (rb\<lparr>rb_tail := of_nat (t + ?a)\<rparr>, t mod ?cap, False)"
      using claim assms(3) by (auto simp: ring_accepts_def)
    have room: "t mod ?cap + ?a \<le> ?cap" using False d(4) by (simp add: ring_room_def)
    have "t + ?a \<le> h + ?cap" using assms(1,3) d(2) by (auto simp: ring_accepts_def ring_free_def ring_inv_def)
    note inv = ring_inv_snoc [OF assms(1) ok(1), unfolded len, OF room this fits [unfolded len] refl ok(2)]
    have w: "ring_write rb m p = Inr (rb\<lparr>rb_tail := of_nat (t + ?a), rb_data := overwrite (rb_data rb) (t mod ?cap)
        (rec_bytes (Msg m p) @ replicate (?a - (8 + length p)) 0)\<rparr>)"
      using assms(2) room cap(2) by (simp add: unfolded c write_record_bytes [OF a(2)])
    show ?thesis
      by (rule exI, rule exI [of _ "[]"], rule exI, intro conjI, rule w, unfold append_Nil, rule inv) simp_all
  next
    case True
    let ?n = "ring_room rb t" and ?t = "t + ring_room rb t"
    have c: "claim_tail rb ?a = Inr (rb\<lparr>rb_tail := of_nat (?t + ?a)\<rparr>, t mod ?cap, True)"
      using claim assms(3) True by (auto simp: ring_accepts_def add.assoc)
    have n: "32 dvd ?n" "0 < ?n" "?n \<le> ?cap" "t mod ?cap + ?n = ?cap"
      using d(1,3,4) by (auto simp: ring_room_def dvd_mod intro!: dvd_diff_nat)
    have t0: "?t mod ?cap = 0" using n(4) by (metis mod_add_left_eq mod_self)
    have total: "?t + ?a \<le> h + ?cap"
      using assms(1,3) d(2) True by (auto simp: ring_accepts_def ring_free_def ring_inv_def)
    let ?rb = "rb\<lparr>rb_tail := of_nat ?t, rb_data := overwrite (rb_data rb) (t mod ?cap) (rec_bytes (Padding ?n))\<rparr>"
    have "ring_inv ?rb h (rs @ [Padding ?n]) ?t"
      using ring_inv_snoc [OF assms(1), of "Padding ?n" "rec_bytes (Padding ?n)" "[]"] n total a(3) dvd_imp_le [OF n(1,2)] by simp
    from ring_inv_snoc [OF this, of "Msg m p"] ok a(1) total fits t0 len
    have "ring_inv (?rb\<lparr>rb_tail := of_nat (?t + ?a), rb_data := overwrite (rb_data ?rb) 0
        (rec_bytes (Msg m p) @ replicate (?a - (8 + length p)) 0)\<rparr>) h (rs @ [Padding ?n] @ [Msg m p]) (?t + ?a)"
      by simp
    moreover have "ring_write rb m p = Inr (?rb\<lparr>rb_tail := of_nat (?t + ?a), rb_data := overwrite (rb_data ?rb) 0
        (rec_bytes (Msg m p) @ replicate (?a - (8 + length p)) 0)\<rparr>)"
      using assms(2) cap(2) d(4) a(1)
      by (simp add: unfolded c write_padding_bytes ring_room_def [symmetric] write_record_bytes [OF a(2)])
    ultimately show ?thesis using True by (intro exI conjI) (assumption, assumption, simp_all)
  qed
qed

section \<open>Reading\<close>

lemma read_rec_header:
  assumes "bslice at (length (rec_bytes r)) data = rec_bytes r" "rec_ok cap r" "cap \<le> 2 ^ 30" "32 dvd cap"
  shows "read_i32 data at = (case r of Padding n \<Rightarrow> MSG_TYPE_PADDING | Msg m p \<Rightarrow> m)"
    "unat (scast (read_i32 data (at + 4)) :: 64 word) = (case r of Padding n \<Rightarrow> n | Msg m p \<Rightarrow> length p + 8)"
    "align_record (unat (scast (read_i32 data (at + 4)) :: 64 word)) = rec_len r"
    "r = Msg m p \<Longrightarrow> bslice (at + 8) (length p) data = p"
proof -
  let ?n = "case r of Padding n \<Rightarrow> n | Msg m p \<Rightarrow> length p + 8"
  obtain rest where rest: "rec_bytes r = le_bytes 4 (case r of Padding n \<Rightarrow> MSG_TYPE_PADDING | Msg m p \<Rightarrow> m) @
      le_bytes 4 (of_nat ?n :: i32) @ rest" "r = Msg m p \<Longrightarrow> rest = p"
    by (cases r) (auto simp: ring_constants)
  note sub = bslice_prefix [OF assms(1)]
  have l: "8 \<le> length (rec_bytes r)" unfolding rest(1) by simp
  show "read_i32 data at = (case r of Padding n \<Rightarrow> MSG_TYPE_PADDING | Msg m p \<Rightarrow> m)"
    using sub [of 0 4] l unfolding read_i32_def by (simp add: rest(1) bslice_def)
  have r4: "read_i32 data (at + 4) = of_nat ?n"
    using sub [of 4 4] l unfolding read_i32_def by (simp add: rest(1) bslice_def)
  have "?n \<le> 2 ^ 30" using assms(2,3) by (cases r) (auto simp: ring_constants)
  then show n: "unat (scast (read_i32 data (at + 4)) :: 64 word) = ?n"
    unfolding r4 by (rule unat_scast_of_nat)
  show "align_record (unat (scast (read_i32 data (at + 4)) :: 64 word)) = rec_len r"
    unfolding n using assms(2,3) by (cases r) (auto simp: ring_constants align_record_eq align_id)
  show "bslice (at + 8) (length p) data = p" if "r = Msg m p"
    using sub [of 8 "length p"] rest(2) [OF that] l that unfolding rest(1) by (simp add: bslice_def)
qed

lemma read_loop_laid_out:
  assumes "is_power_of_two cap" "32 \<le> cap" "cap \<le> 2 ^ 30"
    and "laid_out rec_bytes data cap c rs t" "t \<le> c + cap" "length data = cap" "list_all rec_committed rs"
  shows "\<exists>data'. read_loop data cap (cap - 1) (of_nat t) (of_nat c) ms =
      Some (Ok (data', of_nat t, ms @ messages_of rs)) \<and> length data' = cap"
  using assms(4-)
proof (induction rs arbitrary: data c ms)
  case Nil
  then show ?case by (simp add: read_loop.simps)
next
  case (Cons r rs)
  let ?i = "c mod cap"
  have d: "32 dvd cap" by (rule power_of_two_dvd [OF assms(2,1)])
  have r: "rec_ok cap r" "?i + rec_len r \<le> cap" "bslice ?i (length (rec_bytes r)) data = rec_bytes r"
    "laid_out rec_bytes data cap (c + rec_len r) rs t" using Cons.prems(1) by simp_all
  have l: "0 < rec_len r" "32 dvd rec_len r" using rec_len_props [OF r(1) assms(3) d] by auto
  have ct: "c < t" "c + rec_len r \<le> t" using rfmt.laid_out_le [OF r(4)] l(1) by auto
  then have ne: "(of_nat c :: i64) \<noteq> of_nat t" using of_nat_position_eq [of c t] Cons.prems(2) assms(3) by auto
  note hdr = read_rec_header [OF r(3,1) assms(3) d]
  have idx: "unat ((of_nat c :: i64) AND of_nat (cap - 1)) = ?i" by (rule ring_index [OF assms(1,3)])
  let ?data = "write_i32 data ?i 0"
  have "laid_out rec_bytes ?data cap (c + rec_len r) rs t"
    unfolding write_i32_def using dvd_imp_le [OF l(2,1)] Cons.prems(2)
    by (intro rfmt.laid_out_overwrite [OF r(4) Cons.prems(3) assms(3) d r(2) l(1)]) auto
  moreover have "length ?data = cap" using Cons.prems(3) r(2) dvd_imp_le [OF l(2,1)] by (simp add: write_i32_def)
  ultimately have IH: "\<exists>data'. read_loop ?data cap (cap - 1) (of_nat t) (of_nat (c + rec_len r)) ms' =
      Some (Ok (data', of_nat t, ms' @ messages_of rs)) \<and> length data' = cap" for ms'
    using Cons.IH [of ?data "c + rec_len r" ms'] Cons.prems(2,4) ct l(1) by simp
  have step: "read_loop data cap (cap - 1) (of_nat t) (of_nat c) ms =
      read_loop ?data cap (cap - 1) (of_nat t) (of_nat (c + rec_len r)) (ms @ messages_of [r])"
  proof (cases r)
    case (Padding n)
    then show ?thesis using hdr(1,3)
      unfolding read_loop.simps [of data] Let_def idx by (simp add: ne MSG_TYPE_PADDING_def del: rec_len.simps)
  next
    case (Msg m p)
    have "?i + (length p + 8) \<le> cap"
      using r(2) rec_len_props [OF r(1) assms(3) d] Msg by (simp add: ring_constants)
    then show ?thesis using hdr(1-3) hdr(4) [OF Msg] r(1) Msg Cons.prems(4)
      unfolding read_loop.simps [of data] Let_def idx
      by (simp add: ne ring_constants required_buffer_size_def del: rec_len.simps)
  qed
  show ?case unfolding step using IH [of "ms @ messages_of [r]"] by (cases r) simp_all
qed

lemma ring_read_all:
  assumes "ring_inv rb h rs t"
  shows "\<exists>rb'. ring_read rb = Some (Ok (rb', messages_of rs)) \<and> ring_inv rb' t [] t \<and> rb_capacity rb' = rb_capacity rb"
proof -
  have i: "is_power_of_two (rb_capacity rb)" "32 \<le> rb_capacity rb" "rb_capacity rb \<le> 2 ^ 30"
    "laid_out rec_bytes (rb_data rb) (rb_capacity rb) h rs t" "t \<le> h + rb_capacity rb" "length (rb_data rb) = rb_capacity rb"
    "list_all rec_committed rs" "rb_mask rb = rb_capacity rb - 1" "rb_head rb = of_nat h" "rb_tail rb = of_nat t"
    using assms by (simp_all add: ring_inv_def)
  from read_loop_laid_out [OF i(1-7), of "[]"] obtain data where
    "read_loop (rb_data rb) (rb_capacity rb) (rb_capacity rb - 1) (of_nat t) (of_nat h) [] =
      Some (Ok (data, of_nat t, messages_of rs))" "length data = rb_capacity rb" by auto
  then show ?thesis using i ring_invD(3) [OF assms] by (simp add: ring_read_def ring_inv_def)
qed

section \<open>The contract: a bounded first-in first-out channel\<close>

datatype 'm channel_op = Put 'm | TakeAll

text \<open>A run of operations: the messages accepted, the messages received, and the final state.\<close>

fun channel_run ::
  "('s \<Rightarrow> 'm \<Rightarrow> 's option) \<Rightarrow> ('s \<Rightarrow> ('s \<times> 'm list) option) \<Rightarrow> 's \<Rightarrow> 'm channel_op list \<Rightarrow>
   ('m list \<times> 'm list \<times> 's) option" where
  "channel_run put taken s [] = Some ([], [], s)"
| "channel_run put taken s (Put m # ops) =
     (case put s m of
        None \<Rightarrow> channel_run put taken s ops
      | Some s' \<Rightarrow> map_option (\<lambda>(acc, rcv, fin). (m # acc, rcv, fin)) (channel_run put taken s' ops))"
| "channel_run put taken s (TakeAll # ops) =
     (case taken s of
        None \<Rightarrow> None
      | Some (s', ms) \<Rightarrow> map_option (\<lambda>(acc, rcv, fin). (acc, ms @ rcv, fin)) (channel_run put taken s' ops))"

fun puts :: "'m channel_op list \<Rightarrow> 'm list" where
  "puts [] = []"
| "puts (Put m # ops) = m # puts ops"
| "puts (TakeAll # ops) = puts ops"

locale fifo_channel =
  fixes put :: "'s \<Rightarrow> 'm \<Rightarrow> 's option"
    and taken :: "'s \<Rightarrow> ('s \<times> 'm list) option"
    and holds :: "'s \<Rightarrow> 'm list \<Rightarrow> bool"
    and sendable :: "'m \<Rightarrow> bool"
  assumes put_holds: "holds s q \<Longrightarrow> sendable m \<Longrightarrow> put s m = Some s' \<Longrightarrow> holds s' (q @ [m])"
    and taken_holds: "holds s q \<Longrightarrow> \<exists>s'. taken s = Some (s', q) \<and> holds s' []"
begin

lemma run_fifo:
  assumes "holds s q" "list_all sendable (puts ops)"
  shows "\<exists>acc rcv fin rest. channel_run put taken s ops = Some (acc, rcv, fin) \<and>
    q @ acc = rcv @ rest \<and> holds fin rest"
  using assms
proof (induction ops arbitrary: s q)
  case (Cons op ops)
  show ?case
  proof (cases op)
    case (Put m)
    show ?thesis
    proof (cases "put s m")
      case None
      then show ?thesis using Cons Put by simp
    next
      case (Some s')
      then have "holds s' (q @ [m])" using put_holds Cons.prems Put by auto
      from Cons.IH [OF this] Cons.prems Put obtain acc rcv fin rest where
        "channel_run put taken s' ops = Some (acc, rcv, fin)" "(q @ [m]) @ acc = rcv @ rest" "holds fin rest" by auto
      then show ?thesis using Put Some by simp
    qed
  next
    case TakeAll
    obtain s' where s': "taken s = Some (s', q)" "holds s' []" using taken_holds Cons.prems(1) by blast
    from Cons.IH [OF s'(2)] Cons.prems(2) TakeAll obtain acc rcv fin rest where
      "channel_run put taken s' ops = Some (acc, rcv, fin)" "acc = rcv @ rest" "holds fin rest" by auto
    then show ?thesis using TakeAll s'(1) by simp
  qed
qed simp

lemma run_drained:
  assumes "holds s []" "list_all sendable (puts ops)"
  shows "\<exists>acc rcv fin rest fin'. channel_run put taken s ops = Some (acc, rcv, fin) \<and>
    taken fin = Some (fin', rest) \<and> acc = rcv @ rest"
  using run_fifo [OF assms] taken_holds by fastforce

end

definition ring_put :: "mpsc_ring_buffer \<Rightarrow> message \<Rightarrow> mpsc_ring_buffer option" where
  "ring_put rb m = (case ring_write rb (fst m) (snd m) of Inl err \<Rightarrow> None | Inr rb' \<Rightarrow> Some rb')"

definition ring_take :: "mpsc_ring_buffer \<Rightarrow> (mpsc_ring_buffer \<times> message list) option" where
  "ring_take rb = (case ring_read rb of Some (Ok r) \<Rightarrow> Some r | _ \<Rightarrow> None)"

definition ring_holds :: "mpsc_ring_buffer \<Rightarrow> message list \<Rightarrow> bool" where
  "ring_holds rb q \<longleftrightarrow> (\<exists>h rs t. ring_inv rb h rs t \<and> messages_of rs = q)"

definition ring_sendable :: "message \<Rightarrow> bool" where
  "ring_sendable m \<longleftrightarrow> fst m \<noteq> 0 \<and> fst m \<noteq> MSG_TYPE_PADDING"

text \<open>
  A bound on the bytes in use. Padding is shorter than the record it makes room for, so a write takes at most
  twice its aligned length.
\<close>

definition ring_load :: "mpsc_ring_buffer \<Rightarrow> message list \<Rightarrow> nat \<Rightarrow> bool" where
  "ring_load rb q u \<longleftrightarrow> (\<exists>h rs t. ring_inv rb h rs t \<and> messages_of rs = q \<and> t \<le> h + u)"

lemma ring_load_write:
  assumes "ring_load rb q u" "u + 2 * align_record (length p + 8) \<le> rb_capacity rb" "length p + 8 \<le> rb_capacity rb"
    and "m \<noteq> 0" "m \<noteq> MSG_TYPE_PADDING"
  shows "\<exists>rb'. ring_write rb m p = Inr rb' \<and> ring_load rb' (q @ [(m, p)]) (u + 2 * align_record (length p + 8)) \<and>
    rb_capacity rb' = rb_capacity rb"
proof -
  obtain h rs t where i: "ring_inv rb h rs t" "messages_of rs = q" "t \<le> h + u" using assms(1) by (auto simp: ring_load_def)
  have "ring_accepts rb h t (align_record (length p + 8))"
    using i(3) assms(2) ring_invD(2) [OF i(1)] by (auto simp: ring_accepts_def ring_free_def)
  from ring_write_accepted [OF i(1) assms(3) this assms(4,5)] obtain rb' pads t' where
    "ring_write rb m p = Inr rb'" "ring_inv rb' h (rs @ pads @ [Msg m p]) t'" "messages_of pads = []"
    "rb_capacity rb' = rb_capacity rb" "t' \<le> t + 2 * align_record (length p + 8)" by blast
  then show ?thesis using i(2,3) by (fastforce simp: ring_load_def)
qed

lemma ring_load_read:
  assumes "ring_load rb q u"
  shows "\<exists>rb'. ring_read rb = Some (Ok (rb', q)) \<and> ring_load rb' [] 0 \<and> rb_capacity rb' = rb_capacity rb"
  using assms ring_read_all by (fastforce simp: ring_load_def)

lemma ring_write_holds:
  assumes "ring_inv rb h rs t" "ring_write rb m p = Inr rb'" "m \<noteq> 0" "m \<noteq> MSG_TYPE_PADDING"
  shows "ring_holds rb' (messages_of rs @ [(m, p)])"
proof -
  have "length p + 8 \<le> rb_capacity rb"
    using ring_write_refused(1) [OF assms(1), of p m] assms(2) by (cases "rb_capacity rb < length p + 8") simp_all
  moreover from this have "ring_accepts rb h t (align_record (length p + 8))"
    using ring_write_refused(2) [OF assms(1)] assms(2) by force
  ultimately obtain pads t' where "ring_inv rb' h (rs @ pads @ [Msg m p]) t'" "messages_of pads = []"
    using ring_write_accepted [OF assms(1) _ _ assms(3,4), of p] assms(2) by force
  then show ?thesis unfolding ring_holds_def by (intro exI conjI) (assumption, simp)
qed

interpretation ring: fifo_channel ring_put ring_take ring_holds ring_sendable
proof unfold_locales
  show "ring_holds s' (q @ [m])" if "ring_holds s q" "ring_sendable m" "ring_put s m = Some s'" for s q m s'
    using that ring_write_holds
    by (cases m) (auto simp: ring_holds_def ring_sendable_def ring_put_def split: sum.splits)
  show "\<exists>s'. ring_take s = Some (s', q) \<and> ring_holds s' []" if "ring_holds s q" for s q
    using that ring_read_all by (fastforce simp: ring_holds_def ring_take_def)
qed

lemma ring_new_inv:
  assumes "new_heap_ring_buffer cap = Inr rb" "cap \<le> 2 ^ 30"
  shows "ring_inv rb 0 [] 0"
  using assms by (auto simp: new_heap_ring_buffer_def ring_new_def ring_inv_def ring_constants split: if_splits)



text \<open>
  A message within the maximal length can be refused for ever. When the tail stands inside the buffer, a
  message that does not fit before the end needs the rest of the lap as padding as well; if both together
  exceed the capacity, the write returns \<open>Full\<close> although the buffer is empty, and reading, which finds
  nothing, does not help.
\<close>

theorem empty_ring_refuses:
  assumes "ring_inv rb h [] h" "length payload \<le> rb_max_record_length rb"
    and "rb_max_record_length rb = rb_capacity rb - RECORD_HEADER_LENGTH"
    and "ring_room rb h < align_record (length payload + RECORD_HEADER_LENGTH)"
    and "rb_capacity rb < ring_room rb h + align_record (length payload + RECORD_HEADER_LENGTH)"
  shows "ring_write rb msg_type payload = Inl RingBufferFull \<and>
    (\<exists>rb'. ring_read rb = Some (Ok (rb', [])) \<and> ring_write rb' msg_type payload = Inl RingBufferFull)"
proof -
  have len: "length payload + 8 \<le> rb_capacity rb"
    using assms(1-3) by (auto simp: ring_constants ring_inv_def)
  have full: "ring_write rb' msg_type payload = Inl RingBufferFull"
    if "ring_inv rb' h [] h" "rb_capacity rb' = rb_capacity rb" for rb'
    using that assms(4,5) len
    by (intro ring_write_refused(2) [OF that(1)])
      (auto simp: ring_accepts_def ring_free_def ring_room_def ring_constants)
  from ring_read_all [OF assms(1)] obtain rb' where
    "ring_read rb = Some (Ok (rb', []))" "ring_inv rb' h [] h" "rb_capacity rb' = rb_capacity rb" by auto
  then show ?thesis using full assms(1) by blast
qed

theorem empty_ring_refuses_witness:
  "\<exists>rb rb'. ring_new (replicate 64 0) 32 32 64 = Inr rb \<and>
    ring_write rb 1 (replicate 56 7) = Inl RingBufferFull \<and>
    ring_read rb = Some (Ok (rb', [])) \<and> ring_write rb' 1 (replicate 56 7) = Inl RingBufferFull"
proof -
  obtain rb where rb: "ring_new (replicate 64 0) 32 32 64 = Inr rb"
    by (simp add: ring_new_def ring_constants is_power_of_two.simps)
  have f: "rb = \<lparr>rb_data = replicate 64 0, rb_head = 32, rb_tail = 32, rb_capacity = 64, rb_mask = 63,
      rb_max_record_length = 56\<rparr>"
    using rb by (simp add: ring_new_def ring_constants is_power_of_two.simps)
  have "ring_inv rb 32 [] 32" by (simp add: ring_inv_def f is_power_of_two.simps)
  from empty_ring_refuses [OF this, of "replicate 56 7" 1]
  show ?thesis using rb by (simp add: f ring_room_def ring_constants align_record_eq align_eq)
qed

section \<open>A consumer between claim and commit\<close>

text \<open>
  A producer that has claimed its record but has not written it relies on a zero message type there. The
  consumer clears the first four bytes of every record it has read and nothing else, so bytes of an old
  payload can stand where the next lap puts a record header.
\<close>

definition stale_payload :: "byte list" where
  "stale_payload = replicate 24 0 @ le_bytes 4 (7 :: i32) @ le_bytes 4 (12 :: i32) @ [9, 9, 9, 9]"

text \<open>The run: a record fills a buffer of 64 bytes and is read; then one producer writes a short record, and a
  second has claimed the 32 bytes behind it and is not yet further.\<close>

definition stale_claim :: "mpsc_ring_buffer option" where
  "stale_claim =
     (case new_heap_ring_buffer 64 of Inl err \<Rightarrow> None
      | Inr rb \<Rightarrow>
          (case channel_run ring_put ring_take rb [Put (1, stale_payload), TakeAll, Put (3, [])] of
             None \<Rightarrow> None
           | Some (acc, rcv, rb1) \<Rightarrow>
               (case claim_tail rb1 (align_record RECORD_HEADER_LENGTH) of
                  Inl err \<Rightarrow> None
                | Inr (rb2, index, wrapped) \<Rightarrow> Some rb2)))"

text \<open>
  C38: A message nobody wrote is delivered. In the run above every write returned \<open>Ok\<close> with type 1 or 3; the
  read between the claim and the write of the second producer hands a message of type 7 with a payload taken
  from the middle of an old message to the handler, instead of stopping at the uncommitted record.
\<close>

theorem stale_record_delivered:
  "\<exists>rb rb'. stale_claim = Some rb \<and> ring_read rb = Some (Ok (rb', [(3, []), (7, [9, 9, 9, 9])]))"
proof -
  have "Option.bind stale_claim ring_take \<noteq> None \<and>
      map_option snd (Option.bind stale_claim ring_take) = Some [(3, []), (7, [9, 9, 9, 9])]"
    by code_simp
  then show ?thesis
    by (auto simp: ring_take_def split: option.splits outcome.splits bind_splits)
qed

end
