(* ===== verification/Broadcast.thy ===== *)
theory Broadcast
  imports Ring_Buffer
begin

text \<open>
  The broadcast buffer that carries the conductor's responses to all clients
  (\<^verbatim>\<open>src/src/cnc/broadcast.rs\<close>).

  The mapped memory (data region and the two counters of the trailer) is one value that the transmitter changes
  and every receiver reads; a receiver's own state is its cursor and its lap count.
\<close>

unbundle bit_operations_syntax

section \<open>The transmitter\<close>

datatype broadcast_error = BroadcastInvalidCapacity | BroadcastMessageTooLarge

record broadcast_memory =
  bm_data :: "byte list"
  bm_tail_counter :: i64
  bm_latest_counter :: i64

record broadcast_transmitter =
  tx_capacity :: nat
  tx_mask :: nat
  tx_max_record_length :: nat

definition transmitter_new :: "nat \<Rightarrow> broadcast_error + broadcast_transmitter" where
  "transmitter_new capacity =
     (if capacity < RECORD_ALIGNMENT \<or> \<not> is_power_of_two capacity then Inl BroadcastInvalidCapacity
      else Inr \<lparr>tx_capacity = capacity, tx_mask = capacity - 1,
                tx_max_record_length = capacity - RECORD_HEADER_LENGTH\<rparr>)"

definition new_heap_broadcast :: "nat \<Rightarrow> broadcast_error + broadcast_memory \<times> broadcast_transmitter" where
  "new_heap_broadcast capacity =
     (case transmitter_new capacity of
        Inl err \<Rightarrow> Inl err
      | Inr tx \<Rightarrow> Inr (\<lparr>bm_data = replicate capacity 0, bm_tail_counter = 0, bm_latest_counter = 0\<rparr>, tx))"

definition bc_write_record :: "broadcast_memory \<Rightarrow> nat \<Rightarrow> i32 \<Rightarrow> byte list \<Rightarrow> nat \<Rightarrow> nat \<Rightarrow> broadcast_memory" where
  "bc_write_record mem index msg_type payload record_length aligned_length =
     (let used = RECORD_HEADER_LENGTH + length payload;
          zeroed = overwrite (bm_data mem) (index + used) (replicate (aligned_length - used) 0);
          copied = overwrite zeroed (index + RECORD_HEADER_LENGTH) payload;
          headed = write_i32 copied index (of_nat record_length)
      in mem\<lparr>bm_data := write_i32 headed (index + 4) msg_type\<rparr>)"

definition transmit ::
  "broadcast_transmitter \<Rightarrow> broadcast_memory \<Rightarrow> i32 \<Rightarrow> byte list \<Rightarrow> broadcast_error + broadcast_memory" where
  "transmit tx mem msg_type payload =
     (let record_length = length payload + RECORD_HEADER_LENGTH
      in if tx_capacity tx < record_length then Inl BroadcastMessageTooLarge
         else
           let aligned_length = align_record record_length;
               old_tail = bm_tail_counter mem;
               tail_index = unat (old_tail AND of_nat (tx_mask tx));
               contiguous = tx_capacity tx - tail_index
           in if contiguous < aligned_length
              then
                let padded = write_i32 (write_i32 (bm_data mem) tail_index (of_nat contiguous))
                               (tail_index + 4) MSG_TYPE_PADDING;
                    new_tail = old_tail + of_nat contiguous;
                    mem1 = mem\<lparr>bm_data := padded, bm_tail_counter := new_tail\<rparr>;
                    mem2 = bc_write_record mem1 0 msg_type payload record_length aligned_length
                in Inr (mem2\<lparr>bm_latest_counter := new_tail, bm_tail_counter := new_tail + of_nat aligned_length\<rparr>)
              else
                let mem1 = bc_write_record mem tail_index msg_type payload record_length aligned_length
                in Inr (mem1\<lparr>bm_latest_counter := old_tail, bm_tail_counter := old_tail + of_nat aligned_length\<rparr>))"

section \<open>Receivers\<close>

record broadcast_receiver =
  rx_capacity :: nat
  rx_mask :: nat
  rx_cursor :: i64
  rx_lapped_count :: nat

definition receiver_new :: "nat \<Rightarrow> i64 \<Rightarrow> broadcast_receiver" where
  "receiver_new capacity cursor =
     \<lparr>rx_capacity = capacity, rx_mask = capacity - 1, rx_cursor = cursor, rx_lapped_count = 0\<rparr>"

partial_function (option) receive_loop ::
  "byte list \<Rightarrow> nat \<Rightarrow> nat \<Rightarrow> i64 \<Rightarrow> i64 \<Rightarrow> message list \<Rightarrow> (unit, i64 \<times> message list) outcome option" where
  "receive_loop data capacity msk tail current messages =
     (if current = tail then Some (Ok (current, messages))
      else
        let index = unat (current AND of_nat msk);
            record_length = unat (scast (read_i32 data index) :: 64 word);
            msg_type = read_i32 data (index + 4);
            next = current + of_nat (align_record record_length)
        in if record_length = 0 then Some (Ok (current, messages))
           else if msg_type = MSG_TYPE_PADDING then receive_loop data capacity msk tail next messages
           else if record_length < RECORD_HEADER_LENGTH \<or>
                   required_buffer_size capacity < index + record_length then Some Fault
           else receive_loop data capacity msk tail next
                  (messages @ [(msg_type, bslice (index + RECORD_HEADER_LENGTH)
                                            (record_length - RECORD_HEADER_LENGTH) data)]))"

declare receive_loop.simps [code]

text \<open>The jump of a lapped receiver.\<close>

definition lap_check :: "broadcast_receiver \<Rightarrow> i64 \<Rightarrow> broadcast_receiver" where
  "lap_check rx tail =
     (if sint (of_nat (rx_capacity rx) :: i64) < sint (tail - rx_cursor rx)
      then rx\<lparr>rx_lapped_count := rx_lapped_count rx + 1, rx_cursor := tail - of_nat (rx_capacity rx)\<rparr>
      else rx)"

definition receive ::
  "broadcast_receiver \<Rightarrow> broadcast_memory \<Rightarrow> (unit, broadcast_receiver \<times> message list) outcome option" where
  "receive rx mem =
     (if rx_cursor rx = bm_tail_counter mem then Some (Ok (rx, []))
      else
        let rx1 = lap_check rx (bm_tail_counter mem)
        in map_option (\<lambda>r. outcome_bind r (\<lambda>(current, messages). Ok (rx1\<lparr>rx_cursor := current\<rparr>, messages)))
             (receive_loop (bm_data mem) (rx_capacity rx1) (rx_mask rx1) (bm_tail_counter mem) (rx_cursor rx1) []))"

section \<open>A receiver that keeps up\<close>

fun bc_bytes :: "ring_record \<Rightarrow> byte list" where
  "bc_bytes (Padding n) = le_bytes 4 (of_nat n :: i32) @ le_bytes 4 MSG_TYPE_PADDING"
| "bc_bytes (Msg t p) = le_bytes 4 (of_nat (length p + RECORD_HEADER_LENGTH) :: i32) @ le_bytes 4 t @ p"

interpretation bfmt: record_format bc_bytes
proof unfold_locales
  show "length (bc_bytes r) = rec_size r" for r by (cases r) (simp_all add: ring_constants)
qed

lemma bc_write_record_bytes:
  assumes "length payload + 8 \<le> aligned" "index + aligned \<le> length (bm_data mem)"
  shows "bc_write_record mem index msg_type payload (length payload + 8) aligned =
    mem\<lparr>bm_data := overwrite (bm_data mem) index
      (bc_bytes (Msg msg_type payload) @ replicate (aligned - (8 + length payload)) 0)\<rparr>"
proof -
  let ?d = "bm_data mem" and ?zs = "replicate (aligned - (8 + length payload)) (0 :: byte)"
  let ?n = "le_bytes 4 (of_nat (length payload + 8) :: i32)" and ?t = "le_bytes 4 msg_type"
  have "overwrite (overwrite ?d (index + 8 + length payload) ?zs) (index + 8) payload = overwrite ?d (index + 8) (payload @ ?zs)"
    using assms by (intro overwrite_adjacent) simp
  moreover have "overwrite (overwrite ?d (index + length (?n @ ?t)) (payload @ ?zs)) index (?n @ ?t) =
      overwrite ?d index ((?n @ ?t) @ payload @ ?zs)"
    using assms by (intro overwrite_adjacent) simp
  moreover have "overwrite (overwrite (overwrite ?d (index + 8) (payload @ ?zs)) index ?n) (index + length ?n) ?t =
      overwrite (overwrite ?d (index + 8) (payload @ ?zs)) index (?n @ ?t)"
    using assms by (intro overwrite_adjacent) simp
  ultimately show ?thesis
    by (simp add: bc_write_record_def write_i32_def ring_constants Let_def add.assoc del: of_nat_add)
qed

text \<open>
  What a receiver at position \<open>c\<close> has before it: the records up to the tail \<open>t\<close>, all of them still in the buffer.
\<close>

definition bcast_inv :: "nat \<Rightarrow> broadcast_memory \<Rightarrow> nat \<Rightarrow> ring_record list \<Rightarrow> nat \<Rightarrow> bool" where
  "bcast_inv cap mem c rs t \<longleftrightarrow>
     is_power_of_two cap \<and> 32 \<le> cap \<and> cap \<le> 2 ^ 30 \<and> length (bm_data mem) = cap \<and>
     bm_tail_counter mem = of_nat t \<and> 32 dvd c \<and> t \<le> c + cap \<and> laid_out bc_bytes (bm_data mem) cap c rs t"

lemma bcast_invD:
  assumes "bcast_inv cap mem c rs t"
  shows "32 dvd cap" "c \<le> t" "32 dvd t" "t mod cap + 32 \<le> cap" "0 < cap"
proof -
  show d: "32 dvd cap" using assms power_of_two_dvd by (auto simp: bcast_inv_def)
  show "c \<le> t" "0 < cap" using assms bfmt.laid_out_le by (auto simp: bcast_inv_def)
  show t: "32 dvd t" using assms bfmt.laid_out_dvd d by (auto simp: bcast_inv_def)
  have "32 dvd t mod cap" using t d by (simp add: dvd_mod)
  moreover have "t mod cap < cap" using \<open>0 < cap\<close> by simp
  ultimately show "t mod cap + 32 \<le> cap" using d by (intro aligned_gap)
qed

text \<open>The tail after a message of \<open>n\<close> bytes.\<close>

definition next_tail :: "nat \<Rightarrow> nat \<Rightarrow> nat \<Rightarrow> nat" where
  "next_tail cap t n =
     (let a = align_record (n + RECORD_HEADER_LENGTH); room = cap - t mod cap
      in if room < a then t + room + a else t + a)"

lemma bcast_inv_snoc:
  assumes "bcast_inv cap mem c rs t" "rec_ok cap r" "t mod cap + rec_len r \<le> cap"
    and "t + rec_len r \<le> c + cap" "length bs \<le> rec_len r" "bs = bc_bytes r @ zs"
  shows "bcast_inv cap (mem\<lparr>bm_data := overwrite (bm_data mem) (t mod cap) bs, bm_latest_counter := l,
      bm_tail_counter := of_nat (t + rec_len r)\<rparr>) c (rs @ [r]) (t + rec_len r)"
proof -
  have i: "cap \<le> 2 ^ 30" "length (bm_data mem) = cap" "laid_out bc_bytes (bm_data mem) cap c rs t"
    using assms(1) by (simp_all add: bcast_inv_def)
  have "laid_out bc_bytes (overwrite (bm_data mem) (t mod cap) bs) cap c (rs @ [r]) (t + rec_len r)"
    by (rule bfmt.laid_out_snoc [OF i(3,2,1) bcast_invD(1) [OF assms(1)] assms(2-6)])
  then show ?thesis using assms i by (simp add: bcast_inv_def)
qed

lemma transmit_inv:
  assumes "bcast_inv cap mem c rs t" "tx_capacity tx = cap" "tx_mask tx = cap - 1"
    and "length p + 8 \<le> cap" "m \<noteq> MSG_TYPE_PADDING" "next_tail cap t (length p) \<le> c + cap"
  shows "\<exists>mem' pads. transmit tx mem m p = Inr mem' \<and>
    bcast_inv cap mem' c (rs @ pads @ [Msg m p]) (next_tail cap t (length p)) \<and> messages_of pads = []"
proof -
  let ?a = "align_record (length p + 8)" and ?room = "cap - t mod cap"
  note d = bcast_invD [OF assms(1)]
  have i: "cap \<le> 2 ^ 30" "is_power_of_two cap" "length (bm_data mem) = cap" "bm_tail_counter mem = of_nat t"
    using assms(1) by (simp_all add: bcast_inv_def)
  have ok: "rec_ok cap (Msg m p)" using assms(4,5) by (simp add: ring_constants)
  have len: "rec_len (Msg m p) = ?a" by (simp add: ring_constants)
  have a: "?a \<le> cap" "length p + 8 \<le> ?a" "0 < ?a"
    using rec_len_props [OF ok i(1) d(1)] by (auto simp: len ring_constants)
  let ?bs = "bc_bytes (Msg m p) @ replicate (?a - (8 + length p)) 0"
  have fits: "length ?bs \<le> ?a" using a(2) by (simp add: ring_constants)
  have index: "unat (bm_tail_counter mem AND of_nat (tx_mask tx)) = t mod cap"
    unfolding i(4) assms(3) by (rule ring_index [OF i(2,1)])
  note unfolded = transmit_def [of tx mem m p, unfolded RECORD_HEADER_LENGTH_def Let_def index assms(2)]
  show ?thesis
  proof (cases "?room < ?a")
    case False
    then have nt: "next_tail cap t (length p) = t + ?a" by (simp add: next_tail_def ring_constants)
    have room: "t mod cap + ?a \<le> cap" using False d(4) by simp
    have "t + ?a \<le> c + cap" using assms(6) nt by simp
    note inv = bcast_inv_snoc [OF assms(1) ok, unfolded len, OF room this fits refl, of "of_nat t"]
    have w: "transmit tx mem m p = Inr (mem\<lparr>bm_data := overwrite (bm_data mem) (t mod cap) ?bs,
        bm_latest_counter := of_nat t, bm_tail_counter := of_nat (t + ?a)\<rparr>)"
      using False assms(4) room i(3,4) by (simp add: unfolded bc_write_record_bytes [OF a(2)])
    show ?thesis unfolding nt
      by (rule exI, rule exI [of _ "[]"], intro conjI, rule w, unfold append_Nil, rule inv) simp
  next
    case True
    define n where "n = cap - t mod cap"
    let ?t = "t + n"
    have nt: "next_tail cap t (length p) = ?t + ?a" using True by (simp add: next_tail_def ring_constants n_def)
    have n: "32 dvd n" "0 < n" "n \<le> cap" "t mod cap + n = cap"
      using d(1,3,4) by (auto simp: n_def dvd_mod intro!: dvd_diff_nat)
    have t0: "?t mod cap = 0" using n(4) by (metis mod_add_left_eq mod_self)
    let ?pad = "bc_bytes (Padding n)"
    let ?mem = "mem\<lparr>bm_data := overwrite (bm_data mem) (t mod cap) ?pad, bm_latest_counter := bm_latest_counter mem,
      bm_tail_counter := of_nat ?t\<rparr>"
    have "bcast_inv cap ?mem c (rs @ [Padding n]) ?t"
      using bcast_inv_snoc [OF assms(1), of "Padding n" ?pad "[]" "bm_latest_counter mem"] n nt assms(6)
        dvd_imp_le [OF n(1,2)] by simp
    from bcast_inv_snoc [OF this ok, unfolded len, of ?bs "replicate (?a - (8 + length p)) 0" "of_nat ?t"]
    have inv: "bcast_inv cap (?mem\<lparr>bm_data := overwrite (bm_data ?mem) 0 ?bs, bm_latest_counter := of_nat ?t,
        bm_tail_counter := of_nat (?t + ?a)\<rparr>) c (rs @ [Padding n] @ [Msg m p]) (?t + ?a)"
      using t0 a(1) assms(6) nt fits by simp
    have pad: "write_i32 (write_i32 (bm_data mem) (t mod cap) (of_nat n)) (t mod cap + 4) MSG_TYPE_PADDING =
        overwrite (bm_data mem) (t mod cap) ?pad"
      using overwrite_adjacent(2) [of "t mod cap" "le_bytes 4 (of_nat n :: i32)" "le_bytes 4 MSG_TYPE_PADDING"
          "bm_data mem"] d(4) i(3) by (simp add: write_i32_def)
    have w: "transmit tx mem m p = Inr (?mem\<lparr>bm_data := overwrite (bm_data ?mem) 0 ?bs,
        bm_latest_counter := of_nat ?t, bm_tail_counter := of_nat (?t + ?a)\<rparr>)"
      using True [folded n_def] assms(4) d(4) i(3,4) a(1) by (simp add: unfolded [folded n_def] pad bc_write_record_bytes [OF a(2)])
    show ?thesis unfolding nt
      by (rule exI, rule exI [of _ "[Padding n]"], intro conjI, rule w, rule inv) simp
  qed
qed

lemma read_bc_header:
  assumes "bslice at (length (bc_bytes r)) data = bc_bytes r" "rec_ok cap r" "cap \<le> 2 ^ 30" "32 dvd cap"
  shows "read_i32 data (at + 4) = (case r of Padding n \<Rightarrow> MSG_TYPE_PADDING | Msg m p \<Rightarrow> m)"
    "unat (scast (read_i32 data at) :: 64 word) = (case r of Padding n \<Rightarrow> n | Msg m p \<Rightarrow> length p + 8)"
    "align_record (unat (scast (read_i32 data at) :: 64 word)) = rec_len r"
    "r = Msg m p \<Longrightarrow> bslice (at + 8) (length p) data = p"
proof -
  let ?n = "case r of Padding n \<Rightarrow> n | Msg m p \<Rightarrow> length p + 8"
  obtain rest where rest: "bc_bytes r = le_bytes 4 (of_nat ?n :: i32) @
      le_bytes 4 (case r of Padding n \<Rightarrow> MSG_TYPE_PADDING | Msg m p \<Rightarrow> m) @ rest" "r = Msg m p \<Longrightarrow> rest = p"
    by (cases r) (auto simp: ring_constants)
  note sub = bslice_prefix [OF assms(1)]
  have l: "8 \<le> length (bc_bytes r)" unfolding rest(1) by simp
  show "read_i32 data (at + 4) = (case r of Padding n \<Rightarrow> MSG_TYPE_PADDING | Msg m p \<Rightarrow> m)"
    using sub [of 4 4] l unfolding read_i32_def by (simp add: rest(1) bslice_def)
  have r0: "read_i32 data at = of_nat ?n"
    using sub [of 0 4] l unfolding read_i32_def by (simp add: rest(1) bslice_def)
  have "?n \<le> 2 ^ 30" using assms(2,3) by (cases r) (auto simp: ring_constants)
  then show n: "unat (scast (read_i32 data at) :: 64 word) = ?n"
    unfolding r0 by (rule unat_scast_of_nat)
  show "align_record (unat (scast (read_i32 data at) :: 64 word)) = rec_len r"
    unfolding n using assms(2,3) by (cases r) (auto simp: ring_constants align_record_eq align_id)
  show "bslice (at + 8) (length p) data = p" if "r = Msg m p"
    using sub [of 8 "length p"] rest(2) [OF that] l that unfolding rest(1) by (simp add: bslice_def)
qed

lemma receive_loop_laid_out:
  assumes "is_power_of_two cap" "32 \<le> cap" "cap \<le> 2 ^ 30"
    and "laid_out bc_bytes data cap c rs t" "t \<le> c + cap"
  shows "receive_loop data cap (cap - 1) (of_nat t) (of_nat c) ms = Some (Ok (of_nat t, ms @ messages_of rs))"
  using assms(4-)
proof (induction rs arbitrary: c ms)
  case Nil
  then show ?case by (simp add: receive_loop.simps)
next
  case (Cons r rs)
  let ?i = "c mod cap"
  have d: "32 dvd cap" by (rule power_of_two_dvd [OF assms(2,1)])
  have r: "rec_ok cap r" "?i + rec_len r \<le> cap" "bslice ?i (length (bc_bytes r)) data = bc_bytes r"
    "laid_out bc_bytes data cap (c + rec_len r) rs t" using Cons.prems(1) by simp_all
  have l: "0 < rec_len r" using rec_len_props [OF r(1) assms(3) d] by auto
  have ct: "c < t" using bfmt.laid_out_le [OF r(4)] l by auto
  then have ne: "(of_nat c :: i64) \<noteq> of_nat t" using of_nat_position_eq [of c t] Cons.prems(2) assms(3) by auto
  note hdr = read_bc_header [OF r(3,1) assms(3) d]
  have idx: "unat ((of_nat c :: i64) AND of_nat (cap - 1)) = ?i" by (rule ring_index [OF assms(1,3)])
  have step: "receive_loop data cap (cap - 1) (of_nat t) (of_nat c) ms =
      receive_loop data cap (cap - 1) (of_nat t) (of_nat (c + rec_len r)) (ms @ messages_of [r])"
  proof (cases r)
    case (Padding n)
    then show ?thesis using hdr(1-3) r(1)
      by (subst receive_loop.simps, unfold Let_def idx) (simp add: ne del: rec_len.simps)
  next
    case (Msg m p)
    have "?i + (length p + 8) \<le> cap"
      using r(2) rec_len_props [OF r(1) assms(3) d] Msg by (simp add: ring_constants)
    then show ?thesis using hdr(1-3) hdr(4) [OF Msg] r(1) Msg
      by (subst receive_loop.simps, unfold Let_def idx)
        (simp add: ne ring_constants required_buffer_size_def del: rec_len.simps)
  qed
  show ?case unfolding step using Cons.IH [OF r(4)] Cons.prems(2) l by (cases r) simp_all
qed

definition bcast_ready :: "nat \<Rightarrow> broadcast_memory \<times> broadcast_receiver \<Rightarrow> nat \<Rightarrow> ring_record list \<Rightarrow> nat \<Rightarrow> bool" where
  "bcast_ready cap s c rs t \<longleftrightarrow> bcast_inv cap (fst s) c rs t \<and>
     rx_capacity (snd s) = cap \<and> rx_mask (snd s) = cap - 1 \<and> rx_cursor (snd s) = of_nat c"

lemma receive_all:
  assumes "bcast_ready cap (mem, rx) c rs t"
  shows "receive rx mem = Some (Ok (rx\<lparr>rx_cursor := of_nat t\<rparr>, messages_of rs))"
    "bcast_ready cap (mem, rx\<lparr>rx_cursor := of_nat t\<rparr>) t [] t"
proof -
  have i: "is_power_of_two cap" "32 \<le> cap" "cap \<le> 2 ^ 30" "laid_out bc_bytes (bm_data mem) cap c rs t" "t \<le> c + cap"
    "bm_tail_counter mem = of_nat t" "rx_capacity rx = cap" "rx_mask rx = cap - 1" "rx_cursor rx = of_nat c"
    using assms by (simp_all add: bcast_ready_def bcast_inv_def)
  have ct: "c \<le> t" by (rule bfmt.laid_out_le [OF i(4)])
  have "(of_nat t - of_nat c :: i64) = of_nat (t - c)" using ct by (simp add: of_nat_diff)
  moreover have "sint (of_nat (t - c) :: i64) = int (t - c)" "sint (of_nat cap :: i64) = int cap"
    using i(3,5) by (simp_all add: sint_of_nat)
  ultimately have "lap_check rx (of_nat t) = rx" using i(5,7,9) by (simp add: lap_check_def)
  moreover have "messages_of rs = []" if "c = t"
    using i(4) that bfmt.laid_out_le rec_len_props [of cap "hd rs"] i(3) power_of_two_dvd [OF i(2,1)]
    by (cases rs) force+
  ultimately show "receive rx mem = Some (Ok (rx\<lparr>rx_cursor := of_nat t\<rparr>, messages_of rs))"
    using receive_loop_laid_out [OF i(1-5), of "[]"] of_nat_position_eq [of c t] ct i(3,5-9)
    by (auto simp: receive_def)
  show "bcast_ready cap (mem, rx\<lparr>rx_cursor := of_nat t\<rparr>) t [] t"
    using assms bcast_invD(3) [of cap mem c rs t] by (simp add: bcast_ready_def bcast_inv_def)
qed

text \<open>One receiver's view of the buffer: the conductor transmits, the receiver polls.\<close>

definition bcast_put ::
  "broadcast_transmitter \<Rightarrow> broadcast_memory \<times> broadcast_receiver \<Rightarrow> message \<Rightarrow>
   (broadcast_memory \<times> broadcast_receiver) option" where
  "bcast_put tx s m =
     (case transmit tx (fst s) (fst m) (snd m) of Inl err \<Rightarrow> None | Inr mem \<Rightarrow> Some (mem, snd s))"

definition bcast_take ::
  "broadcast_memory \<times> broadcast_receiver \<Rightarrow> ((broadcast_memory \<times> broadcast_receiver) \<times> message list) option" where
  "bcast_take s =
     (case receive (snd s) (fst s) of Some (Ok (rx, ms)) \<Rightarrow> Some ((fst s, rx), ms) | _ \<Rightarrow> None)"

text \<open>The transmitter never runs more than the capacity ahead of the receiver.\<close>

fun keeps_up :: "nat \<Rightarrow> nat \<Rightarrow> nat \<Rightarrow> message channel_op list \<Rightarrow> bool" where
  "keeps_up cap c t [] \<longleftrightarrow> True"
| "keeps_up cap c t (Put m # ops) \<longleftrightarrow>
     (if cap < length (snd m) + RECORD_HEADER_LENGTH then keeps_up cap c t ops
      else next_tail cap t (length (snd m)) \<le> c + cap \<and> keeps_up cap c (next_tail cap t (length (snd m))) ops)"
| "keeps_up cap c t (TakeAll # ops) \<longleftrightarrow> keeps_up cap t t ops"

lemma bcast_run:
  assumes "bcast_ready cap (mem, rx) c rs t" "tx_capacity tx = cap" "tx_mask tx = cap - 1"
    and "list_all (\<lambda>m. fst m \<noteq> MSG_TYPE_PADDING) (puts ops)" "keeps_up cap c t ops"
  shows "\<exists>rcv mem' rx' c' rs' t'. channel_run (bcast_put tx) bcast_take (mem, rx) ops =
      Some (filter (\<lambda>m. length (snd m) + RECORD_HEADER_LENGTH \<le> cap) (puts ops), rcv, mem', rx') \<and>
    bcast_ready cap (mem', rx') c' rs' t' \<and> rx_lapped_count rx' = rx_lapped_count rx \<and>
    messages_of rs @ filter (\<lambda>m. length (snd m) + RECORD_HEADER_LENGTH \<le> cap) (puts ops) = rcv @ messages_of rs'"
  using assms(1,4,5)
proof (induction ops arbitrary: mem rx c rs t)
  case Nil
  then show ?case by fastforce
next
  case (Cons op ops)
  show ?case
  proof (cases op)
    case (Put m)
    show ?thesis
    proof (cases "cap < length (snd m) + RECORD_HEADER_LENGTH")
      case True
      then have "bcast_put tx (mem, rx) m = None"
        using assms(2) by (simp add: bcast_put_def transmit_def)
      then show ?thesis using Cons.IH [OF Cons.prems(1)] Cons.prems(2,3) Put True by simp
    next
      case False
      have inv: "bcast_inv cap mem c rs t" using Cons.prems(1) by (simp add: bcast_ready_def)
      obtain mem' pads where t: "transmit tx mem (fst m) (snd m) = Inr mem'" "messages_of pads = []"
          "bcast_inv cap mem' c (rs @ pads @ [Msg (fst m) (snd m)]) (next_tail cap t (length (snd m)))"
        using transmit_inv [OF inv assms(2,3), of "snd m" "fst m"] Cons.prems(2,3) Put False
        by (auto simp: ring_constants)
      then have "bcast_ready cap (mem', rx) c (rs @ pads @ [Msg (fst m) (snd m)]) (next_tail cap t (length (snd m)))"
        using Cons.prems(1) by (simp add: bcast_ready_def)
      from Cons.IH [OF this] Cons.prems(2,3) Put False t(1,2) show ?thesis
        by (auto simp: bcast_put_def)
    qed
  next
    case TakeAll
    note r = receive_all [OF Cons.prems(1)]
    have "bcast_take (mem, rx) = Some ((mem, rx\<lparr>rx_cursor := of_nat t\<rparr>), messages_of rs)"
      by (simp add: bcast_take_def r(1))
    with Cons.IH [OF r(2)] Cons.prems(2,3) TakeAll show ?thesis by fastforce
  qed
qed

section \<open>Properties\<close>

lemma bcast_new_ready:
  assumes "new_heap_broadcast cap = Inr (mem, tx)" "cap \<le> 2 ^ 30"
  shows "bcast_ready cap (mem, receiver_new cap (bm_tail_counter mem)) 0 [] 0"
    "tx_capacity tx = cap" "tx_mask tx = cap - 1"
  using assms
  by (auto simp: new_heap_broadcast_def transmitter_new_def receiver_new_def bcast_ready_def bcast_inv_def
      ring_constants split: if_splits)

text \<open>
  C9: A client that keeps up misses nothing. As long as the transmitter is never more than the capacity ahead
  of a receiver's cursor, that receiver gets every message that fits the buffer, complete, once and in order,
  across any number of laps, and is never counted as lapped; its reads always return. Receivers do not change
  the buffer, so this holds for each of them whatever the others do.
\<close>

theorem broadcast_delivers:
  assumes "new_heap_broadcast cap = Inr (mem, tx)" "cap \<le> 2 ^ 30"
    and "list_all (\<lambda>m. fst m \<noteq> MSG_TYPE_PADDING) (puts ops)" "keeps_up cap 0 0 ops"
  shows "\<exists>acc rcv mem' rx rest rx'.
    channel_run (bcast_put tx) bcast_take (mem, receiver_new cap (bm_tail_counter mem)) ops = Some (acc, rcv, mem', rx) \<and>
    receive rx mem' = Some (Ok (rx', rest)) \<and> acc = rcv @ rest \<and>
    acc = filter (\<lambda>m. length (snd m) + RECORD_HEADER_LENGTH \<le> cap) (puts ops) \<and> rx_lapped_count rx' = 0"
proof -
  note n = bcast_new_ready [OF assms(1,2)]
  from bcast_run [OF n assms(3,4)] obtain rcv mem' rx c rs t where r:
    "channel_run (bcast_put tx) bcast_take (mem, receiver_new cap (bm_tail_counter mem)) ops =
      Some (filter (\<lambda>m. length (snd m) + RECORD_HEADER_LENGTH \<le> cap) (puts ops), rcv, mem', rx)"
    "bcast_ready cap (mem', rx) c rs t" "rx_lapped_count rx = 0"
    "filter (\<lambda>m. length (snd m) + RECORD_HEADER_LENGTH \<le> cap) (puts ops) = rcv @ messages_of rs"
    by (auto simp: receiver_new_def)
  show ?thesis using r receive_all(1) [OF r(2)] by simp
qed

definition sample_ops :: "message channel_op list" where
  "sample_ops = [Put (101, [1, 2, 3]), Put (102, []), TakeAll, Put (104, replicate 40 7)]"

theorem broadcast_delivers_witness:
  "\<exists>mem tx acc rcv mem' rx rest rx'. new_heap_broadcast 64 = Inr (mem, tx) \<and>
    channel_run (bcast_put tx) bcast_take (mem, receiver_new 64 (bm_tail_counter mem)) sample_ops =
      Some (acc, rcv, mem', rx) \<and>
    receive rx mem' = Some (Ok (rx', rest)) \<and> acc = rcv @ rest \<and> rx_lapped_count rx' = 0"
proof -
  obtain mem tx where n: "new_heap_broadcast 64 = Inr (mem, tx)"
    by (simp add: new_heap_broadcast_def transmitter_new_def ring_constants is_power_of_two.simps)
  have "keeps_up 64 0 0 sample_ops"
    by (simp add: sample_ops_def next_tail_def ring_constants align_record_eq align_eq)
  moreover have "list_all (\<lambda>m. fst m \<noteq> MSG_TYPE_PADDING) (puts sample_ops)"
    by (simp add: sample_ops_def MSG_TYPE_PADDING_def)
  ultimately show ?thesis using broadcast_delivers [OF n, of sample_ops] n by auto
qed

text \<open>Two messages, of which the second laps a receiver that has not yet read.\<close>

definition lapping_run :: "(broadcast_memory \<times> broadcast_receiver) option" where
  "lapping_run =
     (case new_heap_broadcast 64 of Inl err \<Rightarrow> None
      | Inr (mem, tx) \<Rightarrow>
          map_option (\<lambda>(acc, rcv, s). s)
            (channel_run (bcast_put tx) bcast_take (mem, receiver_new 64 0)
               [Put (101, replicate 24 0 @ le_bytes 4 (12 :: i32) @ le_bytes 4 (7 :: i32) @ [9, 9, 9, 9]),
                Put (102, [5])]))"

text \<open>
  C39: A lapped client is handed a message nobody sent. Its cursor is set to the tail minus the capacity, which need
  not be the start of a record. In the run above two messages of types 101 and 102 are transmitted; the receiver
  counts one lap, lands in the payload of the first and delivers bytes of it as a message of type 7.
\<close>

theorem lapped_receiver_misreads:
  "\<exists>mem rx rx'. lapping_run = Some (mem, rx) \<and>
    receive rx mem = Some (Ok (rx', [(7, [9, 9, 9, 9]), (102, [5])])) \<and> rx_lapped_count rx' = 1"
proof -
  have "map_option (\<lambda>(s, ms). (rx_lapped_count (snd s), ms)) (Option.bind lapping_run bcast_take) =
      Some (1, [(7, [9, 9, 9, 9]), (102, [5])])"
    by code_simp
  then show ?thesis
    by (auto simp: bcast_take_def split: option.splits outcome.splits bind_splits) blast
qed

end
