(* ===== verification/Cnc_File.thy ===== *)
theory Cnc_File
  imports Broadcast
begin

text \<open>
  The command-and-control file that driver and clients map (\<^verbatim>\<open>src/src/cnc/cnc_file.rs\<close>).

  The mapped region is a flat byte list: a header of 256 bytes, the ring buffer and the broadcast buffer, each
  with its trailer. A handle on one of the buffers is a view of its part of the region; an operation through
  the handle is the operation of that buffer on the view, stored back. The operating system's results (open,
  ftruncate, fstat, mmap, process id, clock) are arguments.
\<close>

section \<open>Layout\<close>

definition CNC_VERSION :: i32 where "CNC_VERSION = 1"
definition CNC_HEADER_LENGTH :: nat where "CNC_HEADER_LENGTH = 256"
definition CNC_VERSION_OFFSET :: nat where "CNC_VERSION_OFFSET = 0"
definition PID_OFFSET :: nat where "PID_OFFSET = 4"
definition TO_DRIVER_CAPACITY_OFFSET :: nat where "TO_DRIVER_CAPACITY_OFFSET = 8"
definition TO_CLIENTS_CAPACITY_OFFSET :: nat where "TO_CLIENTS_CAPACITY_OFFSET = 12"
definition DRIVER_HEARTBEAT_OFFSET :: nat where "DRIVER_HEARTBEAT_OFFSET = 16"

definition HEAD_POSITION_OFFSET :: nat where "HEAD_POSITION_OFFSET = 0"
definition TAIL_POSITION_OFFSET :: nat where "TAIL_POSITION_OFFSET = 64"
definition TAIL_COUNTER_OFFSET :: nat where "TAIL_COUNTER_OFFSET = 0"
definition LATEST_COUNTER_OFFSET :: nat where "LATEST_COUNTER_OFFSET = 64"

lemmas cnc_offsets =
  CNC_HEADER_LENGTH_def CNC_VERSION_OFFSET_def PID_OFFSET_def TO_DRIVER_CAPACITY_OFFSET_def
  TO_CLIENTS_CAPACITY_OFFSET_def DRIVER_HEARTBEAT_OFFSET_def HEAD_POSITION_OFFSET_def TAIL_POSITION_OFFSET_def
  TAIL_COUNTER_OFFSET_def LATEST_COUNTER_OFFSET_def TRAILER_LENGTH_def required_buffer_size_def

definition to_driver_offset :: nat where "to_driver_offset = CNC_HEADER_LENGTH"

definition to_clients_offset :: "nat \<Rightarrow> nat" where
  "to_clients_offset to_driver_capacity = to_driver_offset + required_buffer_size to_driver_capacity"

definition cnc_file_length :: "nat \<Rightarrow> nat \<Rightarrow> nat" where
  "cnc_file_length to_driver_capacity to_clients_capacity =
     CNC_HEADER_LENGTH + required_buffer_size to_driver_capacity + required_buffer_size to_clients_capacity"

datatype cnc_error = CncInvalidCapacity | CncIoError i32 | VersionMismatch | NotReady

definition read_i32_raw :: "byte list \<Rightarrow> nat \<Rightarrow> i32" where "read_i32_raw base offset = read_i32 base offset"

definition write_i32_raw :: "byte list \<Rightarrow> nat \<Rightarrow> i32 \<Rightarrow> byte list" where
  "write_i32_raw base offset val = overwrite base offset (le_bytes 4 val)"

section \<open>Views of the two buffers\<close>

definition ring_at :: "byte list \<Rightarrow> nat \<Rightarrow> nat \<Rightarrow> mpsc_ring_buffer" where
  "ring_at base off capacity =
     \<lparr>rb_data = bslice off capacity base,
      rb_head = read_i64 base (off + capacity + HEAD_POSITION_OFFSET),
      rb_tail = read_i64 base (off + capacity + TAIL_POSITION_OFFSET),
      rb_capacity = capacity, rb_mask = capacity - 1, rb_max_record_length = capacity - RECORD_HEADER_LENGTH\<rparr>"

definition store_ring :: "byte list \<Rightarrow> nat \<Rightarrow> mpsc_ring_buffer \<Rightarrow> byte list" where
  "store_ring base off rb =
     overwrite (overwrite (overwrite base off (rb_data rb))
       (off + rb_capacity rb + HEAD_POSITION_OFFSET) (le_bytes 8 (rb_head rb)))
       (off + rb_capacity rb + TAIL_POSITION_OFFSET) (le_bytes 8 (rb_tail rb))"

definition broadcast_at :: "byte list \<Rightarrow> nat \<Rightarrow> nat \<Rightarrow> broadcast_memory" where
  "broadcast_at base off capacity =
     \<lparr>bm_data = bslice off capacity base,
      bm_tail_counter = read_i64 base (off + capacity + TAIL_COUNTER_OFFSET),
      bm_latest_counter = read_i64 base (off + capacity + LATEST_COUNTER_OFFSET)\<rparr>"

definition store_broadcast :: "byte list \<Rightarrow> nat \<Rightarrow> nat \<Rightarrow> broadcast_memory \<Rightarrow> byte list" where
  "store_broadcast base off capacity mem =
     overwrite (overwrite (overwrite base off (bm_data mem))
       (off + capacity + TAIL_COUNTER_OFFSET) (le_bytes 8 (bm_tail_counter mem)))
       (off + capacity + LATEST_COUNTER_OFFSET) (le_bytes 8 (bm_latest_counter mem))"

section \<open>The driver's side\<close>

record driver_cnc =
  dc_base :: "byte list"
  dc_length :: nat
  dc_to_clients :: broadcast_transmitter
  dc_to_driver_capacity :: nat
  dc_to_clients_capacity :: nat

definition validate_capacities :: "nat \<Rightarrow> nat \<Rightarrow> cnc_error option" where
  "validate_capacities to_driver_capacity to_clients_capacity =
     (if to_driver_capacity < 32 \<or> \<not> is_power_of_two to_driver_capacity then Some CncInvalidCapacity
      else if to_clients_capacity < 32 \<or> \<not> is_power_of_two to_clients_capacity then Some CncInvalidCapacity
      else None)"

definition init_header :: "byte list \<Rightarrow> i32 \<Rightarrow> i64 \<Rightarrow> nat \<Rightarrow> nat \<Rightarrow> byte list" where
  "init_header base pid now_ms to_driver_capacity to_clients_capacity =
     (let b1 = write_i32_raw base PID_OFFSET pid;
          b2 = write_i32_raw b1 TO_DRIVER_CAPACITY_OFFSET (of_nat to_driver_capacity);
          b3 = write_i32_raw b2 TO_CLIENTS_CAPACITY_OFFSET (of_nat to_clients_capacity);
          b4 = overwrite b3 DRIVER_HEARTBEAT_OFFSET (le_bytes 8 now_ms)
      in overwrite b4 CNC_VERSION_OFFSET (le_bytes 4 CNC_VERSION))"

definition cnc_init :: "nat \<Rightarrow> nat \<Rightarrow> nat \<Rightarrow> i32 \<Rightarrow> i64 \<Rightarrow> cnc_error + driver_cnc" where
  "cnc_init len to_driver_capacity to_clients_capacity pid now_ms =
     (let base = replicate len 0
      in case ring_new (bslice to_driver_offset to_driver_capacity base) 0 0 to_driver_capacity of
           Inl err \<Rightarrow> Inl CncInvalidCapacity
         | Inr to_driver \<Rightarrow>
             (case transmitter_new to_clients_capacity of
                Inl err \<Rightarrow> Inl CncInvalidCapacity
              | Inr to_clients \<Rightarrow>
                  Inr \<lparr>dc_base = init_header base pid now_ms to_driver_capacity to_clients_capacity,
                       dc_length = len, dc_to_clients = to_clients,
                       dc_to_driver_capacity = to_driver_capacity,
                       dc_to_clients_capacity = to_clients_capacity\<rparr>))"

text \<open>\<open>mmap\<close> is the result of mapping that many bytes: an error number or success.\<close>

definition create_anonymous :: "(nat \<Rightarrow> i32 option) \<Rightarrow> i32 \<Rightarrow> i64 \<Rightarrow> nat \<Rightarrow> nat \<Rightarrow> cnc_error + driver_cnc" where
  "create_anonymous mmap pid now_ms to_driver_capacity to_clients_capacity =
     (case validate_capacities to_driver_capacity to_clients_capacity of
        Some err \<Rightarrow> Inl err
      | None \<Rightarrow>
          let len = cnc_file_length to_driver_capacity to_clients_capacity
          in (case mmap len of
                Some errno \<Rightarrow> Inl (CncIoError errno)
              | None \<Rightarrow> cnc_init len to_driver_capacity to_clients_capacity pid now_ms))"

definition create_file ::
  "(byte list \<Rightarrow> i32 option) \<Rightarrow> (nat \<Rightarrow> i32 option) \<Rightarrow> (nat \<Rightarrow> i32 option) \<Rightarrow> i32 \<Rightarrow> i64 \<Rightarrow> byte list \<Rightarrow> nat \<Rightarrow> nat \<Rightarrow>
   cnc_error + driver_cnc" where
  "create_file open_file ftruncate mmap pid now_ms path to_driver_capacity to_clients_capacity =
     (case validate_capacities to_driver_capacity to_clients_capacity of
        Some err \<Rightarrow> Inl err
      | None \<Rightarrow>
          let len = cnc_file_length to_driver_capacity to_clients_capacity
          in if 0 \<in> set path then Inl (CncIoError 22)
             else (case open_file path of
                     Some errno \<Rightarrow> Inl (CncIoError errno)
                   | None \<Rightarrow>
                       (case ftruncate len of
                          Some errno \<Rightarrow> Inl (CncIoError errno)
                        | None \<Rightarrow>
                            (case mmap len of
                               Some errno \<Rightarrow> Inl (CncIoError errno)
                             | None \<Rightarrow> cnc_init len to_driver_capacity to_clients_capacity pid now_ms))))"

definition to_driver_view :: "driver_cnc \<Rightarrow> mpsc_ring_buffer" where
  "to_driver_view cnc = ring_at (dc_base cnc) to_driver_offset (dc_to_driver_capacity cnc)"

definition to_clients_view :: "driver_cnc \<Rightarrow> broadcast_memory" where
  "to_clients_view cnc =
     broadcast_at (dc_base cnc) (to_clients_offset (dc_to_driver_capacity cnc)) (dc_to_clients_capacity cnc)"

definition cnc_read :: "driver_cnc \<Rightarrow> (unit, driver_cnc \<times> message list) outcome option" where
  "cnc_read cnc =
     map_option (\<lambda>r. outcome_bind r (\<lambda>(rb, ms).
         Ok (cnc\<lparr>dc_base := store_ring (dc_base cnc) to_driver_offset rb\<rparr>, ms)))
       (ring_read (to_driver_view cnc))"

definition cnc_transmit :: "driver_cnc \<Rightarrow> i32 \<Rightarrow> byte list \<Rightarrow> broadcast_error + driver_cnc" where
  "cnc_transmit cnc msg_type payload =
     (case transmit (dc_to_clients cnc) (to_clients_view cnc) msg_type payload of
        Inl err \<Rightarrow> Inl err
      | Inr mem \<Rightarrow>
          Inr (cnc\<lparr>dc_base := store_broadcast (dc_base cnc) (to_clients_offset (dc_to_driver_capacity cnc))
                              (dc_to_clients_capacity cnc) mem\<rparr>))"

definition update_heartbeat :: "driver_cnc \<Rightarrow> i64 \<Rightarrow> driver_cnc" where
  "update_heartbeat cnc now_ms =
     cnc\<lparr>dc_base := overwrite (dc_base cnc) DRIVER_HEARTBEAT_OFFSET (le_bytes 8 now_ms)\<rparr>"

text \<open>Dropping the driver's handle clears the version before the region is unmapped.\<close>

definition driver_drop :: "driver_cnc \<Rightarrow> byte list" where
  "driver_drop cnc = overwrite (dc_base cnc) CNC_VERSION_OFFSET (le_bytes 4 (0 :: i32))"

section \<open>The client's side\<close>

record client_cnc =
  cc_length :: nat
  cc_to_driver_capacity :: nat
  cc_to_clients_rx :: broadcast_receiver
  cc_owns_memory :: bool

definition from_ptr :: "byte list \<Rightarrow> nat \<Rightarrow> cnc_error + client_cnc" where
  "from_ptr base len =
     (let version = read_i32 base CNC_VERSION_OFFSET
      in if version = 0 then Inl NotReady
         else if version \<noteq> CNC_VERSION then Inl VersionMismatch
         else
           let to_driver_capacity = unat (scast (read_i32_raw base TO_DRIVER_CAPACITY_OFFSET) :: 64 word);
               to_clients_capacity = unat (scast (read_i32_raw base TO_CLIENTS_CAPACITY_OFFSET) :: 64 word)
           in case ring_new [] 0 0 to_driver_capacity of
                Inl err \<Rightarrow> Inl CncInvalidCapacity
              | Inr to_driver \<Rightarrow>
                  (case transmitter_new to_clients_capacity of
                     Inl err \<Rightarrow> Inl CncInvalidCapacity
                   | Inr tx \<Rightarrow>
                       let cursor = bm_tail_counter
                             (broadcast_at base (to_clients_offset to_driver_capacity) to_clients_capacity)
                       in Inr \<lparr>cc_length = len, cc_to_driver_capacity = to_driver_capacity,
                               cc_to_clients_rx = receiver_new to_clients_capacity cursor,
                               cc_owns_memory = False\<rparr>))"

definition map_file ::
  "(byte list \<Rightarrow> i32 option) \<Rightarrow> (i32 + nat) \<Rightarrow> (nat \<Rightarrow> i32 + byte list) \<Rightarrow> byte list \<Rightarrow> cnc_error + client_cnc" where
  "map_file open_file fstat mmap path =
     (if 0 \<in> set path then Inl (CncIoError 22)
      else case open_file path of
             Some errno \<Rightarrow> Inl (CncIoError errno)
           | None \<Rightarrow>
               (case fstat of
                  Inl errno \<Rightarrow> Inl (CncIoError errno)
                | Inr len \<Rightarrow>
                    (case mmap len of
                       Inl errno \<Rightarrow> Inl (CncIoError errno)
                     | Inr base \<Rightarrow>
                         (case from_ptr base len of
                            Inl err \<Rightarrow> Inl err
                          | Inr client \<Rightarrow> Inr (client\<lparr>cc_owns_memory := True\<rparr>)))))"

definition client_write ::
  "client_cnc \<Rightarrow> byte list \<Rightarrow> i32 \<Rightarrow> byte list \<Rightarrow> ring_buffer_error + byte list" where
  "client_write client base msg_type payload =
     (case ring_write (ring_at base to_driver_offset (cc_to_driver_capacity client)) msg_type payload of
        Inl err \<Rightarrow> Inl err
      | Inr rb \<Rightarrow> Inr (store_ring base to_driver_offset rb))"

definition client_receive ::
  "client_cnc \<Rightarrow> byte list \<Rightarrow> (unit, client_cnc \<times> message list) outcome option" where
  "client_receive client base =
     map_option (\<lambda>r. outcome_bind r (\<lambda>(rx, ms). Ok (client\<lparr>cc_to_clients_rx := rx\<rparr>, ms)))
       (receive (cc_to_clients_rx client)
          (broadcast_at base (to_clients_offset (cc_to_driver_capacity client))
             (rx_capacity (cc_to_clients_rx client))))"

definition is_driver_alive :: "byte list \<Rightarrow> i64 \<Rightarrow> i64 \<Rightarrow> bool" where
  "is_driver_alive base now_ms timeout_ms \<longleftrightarrow>
     sint (now_ms - read_i64 base DRIVER_HEARTBEAT_OFFSET) < sint timeout_ms"

definition driver_pid :: "byte list \<Rightarrow> i32" where "driver_pid base = read_i32_raw base PID_OFFSET"

section \<open>The parts do not disturb each other\<close>

lemma slice_read:
  "read_i64 buf off = of_le (bslice off 8 buf)" "read_i32 buf off = of_le (bslice off 4 buf)"
  by (simp_all add: read_i64_def read_i32_def)

lemma store_ring_frame:
  assumes "length (rb_data rb) = rb_capacity rb" "off + rb_capacity rb + 128 \<le> length base"
    and "o' + n \<le> off \<or> off + rb_capacity rb + 128 \<le> o'"
  shows "bslice o' n (store_ring base off rb) = bslice o' n base"
    "length (store_ring base off rb) = length base"
  using assms by (auto simp: store_ring_def cnc_offsets slice_overwrite_disjoint)

lemma store_broadcast_frame:
  assumes "length (bm_data mem) = cap" "off + cap + 128 \<le> length base"
    and "o' + n \<le> off \<or> off + cap + 128 \<le> o'"
  shows "bslice o' n (store_broadcast base off cap mem) = bslice o' n base"
    "length (store_broadcast base off cap mem) = length base"
  using assms by (auto simp: store_broadcast_def cnc_offsets slice_overwrite_disjoint)

lemma slice_overwrite_eq:
  "off + n \<le> length buf \<Longrightarrow> length bs = n \<Longrightarrow> bslice off n (overwrite buf off bs) = bs"
  using slice_overwrite_same [of off bs buf] by simp

lemma ring_at_store:
  assumes "length (rb_data rb) = rb_capacity rb" "off + rb_capacity rb + 128 \<le> length base"
    and "rb_mask rb = rb_capacity rb - 1" "rb_max_record_length rb = rb_capacity rb - RECORD_HEADER_LENGTH"
  shows "ring_at (store_ring base off rb) off (rb_capacity rb) = rb"
proof -
  have "bslice off (rb_capacity rb) (store_ring base off rb) = rb_data rb"
    "bslice (off + rb_capacity rb) 8 (store_ring base off rb) = le_bytes 8 (rb_head rb)"
    "bslice (off + rb_capacity rb + 64) 8 (store_ring base off rb) = le_bytes 8 (rb_tail rb)"
    using assms(1,2) by (simp_all add: store_ring_def cnc_offsets slice_overwrite_disjoint slice_overwrite_eq)
  then show ?thesis using assms(3,4) by (simp add: ring_at_def cnc_offsets slice_read)
qed

lemma broadcast_at_store:
  assumes "length (bm_data mem) = cap" "off + cap + 128 \<le> length base"
  shows "broadcast_at (store_broadcast base off cap mem) off cap = mem"
proof -
  have "bslice off cap (store_broadcast base off cap mem) = bm_data mem"
    "bslice (off + cap) 8 (store_broadcast base off cap mem) = le_bytes 8 (bm_tail_counter mem)"
    "bslice (off + cap + 64) 8 (store_broadcast base off cap mem) = le_bytes 8 (bm_latest_counter mem)"
    using assms by (simp_all add: store_broadcast_def cnc_offsets slice_overwrite_disjoint slice_overwrite_eq)
  then show ?thesis by (simp add: broadcast_at_def cnc_offsets slice_read)
qed

text \<open>Reading and writing leave the shape of the handle alone.\<close>

lemma ring_read_shape:
  "ring_read rb = Some (Ok (rb', ms)) \<Longrightarrow> rb_capacity rb' = rb_capacity rb \<and> rb_mask rb' = rb_mask rb \<and>
     rb_max_record_length rb' = rb_max_record_length rb"
proof -
  assume "ring_read rb = Some (Ok (rb', ms))"
  then obtain r :: "(unit, byte list \<times> i64 \<times> message list) outcome" where "outcome_bind r (\<lambda>(data, current, messages).
      Ok (rb\<lparr>rb_data := data, rb_head := current\<rparr>, messages)) = Ok (rb', ms)"
    by (auto simp: ring_read_def)
  then show ?thesis by (cases r) auto
qed

lemma ring_write_shape:
  "ring_write rb m p = Inr rb' \<Longrightarrow> rb_capacity rb' = rb_capacity rb \<and> rb_mask rb' = rb_mask rb \<and>
     rb_max_record_length rb' = rb_max_record_length rb"
  by (auto simp: ring_write_def claim_tail_def commit_record_def write_body_def write_padding_def Let_def
      split: if_splits sum.splits bool.splits)

section \<open>The invariant of the region\<close>

definition cnc_header :: "driver_cnc \<Rightarrow> byte list" where
  "cnc_header cnc = bslice 0 CNC_HEADER_LENGTH (dc_base cnc)"

definition cnc_shape :: "nat \<Rightarrow> nat \<Rightarrow> driver_cnc \<Rightarrow> bool" where
  "cnc_shape dcap ccap cnc \<longleftrightarrow>
     dc_to_driver_capacity cnc = dcap \<and> dc_to_clients_capacity cnc = ccap \<and>
     length (dc_base cnc) = cnc_file_length dcap ccap \<and>
     tx_capacity (dc_to_clients cnc) = ccap \<and> tx_mask (dc_to_clients cnc) = ccap - 1"

text \<open>The commands waiting in the ring buffer, and the responses a client at position \<open>c\<close> has before it.\<close>

definition cnc_inv :: "nat \<Rightarrow> nat \<Rightarrow> driver_cnc \<Rightarrow> message list \<Rightarrow> nat \<Rightarrow> ring_record list \<Rightarrow> nat \<Rightarrow> bool" where
  "cnc_inv dcap ccap cnc cmds c rsps t \<longleftrightarrow>
     cnc_shape dcap ccap cnc \<and> ring_holds (to_driver_view cnc) cmds \<and> bcast_inv ccap (to_clients_view cnc) c rsps t"

lemma to_driver_view_fields [simp]:
  "rb_capacity (to_driver_view cnc) = dc_to_driver_capacity cnc"
  "rb_mask (to_driver_view cnc) = dc_to_driver_capacity cnc - 1"
  "rb_max_record_length (to_driver_view cnc) = dc_to_driver_capacity cnc - RECORD_HEADER_LENGTH"
  by (simp_all add: to_driver_view_def ring_at_def)

lemma ring_holds_length: "ring_holds rb q \<Longrightarrow> length (rb_data rb) = rb_capacity rb"
  by (auto simp: ring_holds_def ring_inv_def)

text \<open>Storing a ring buffer of the right shape changes the view of the ring buffer and nothing else.\<close>

lemma store_ring_views:
  assumes "cnc_shape dcap ccap cnc" "length (rb_data rb) = dcap" "rb_capacity rb = dcap" "rb_mask rb = dcap - 1"
    and "rb_max_record_length rb = dcap - RECORD_HEADER_LENGTH"
    and "cnc' = cnc\<lparr>dc_base := store_ring (dc_base cnc) to_driver_offset rb\<rparr>"
  shows "cnc_shape dcap ccap cnc'" "to_driver_view cnc' = rb" "to_clients_view cnc' = to_clients_view cnc"
    "cnc_header cnc' = cnc_header cnc"
proof -
  have l: "to_driver_offset + dcap + 128 + (ccap + 128) = length (dc_base cnc)"
    using assms(1) by (simp add: cnc_shape_def cnc_file_length_def to_driver_offset_def cnc_offsets)
  have r: "length (rb_data rb) = rb_capacity rb" "to_driver_offset + rb_capacity rb + 128 \<le> length (dc_base cnc)"
    using assms(2,3) l by simp_all
  note frame = store_ring_frame [OF r]
  show "cnc_shape dcap ccap cnc'" using assms(1,6) frame(2) [of 0 0] by (simp add: cnc_shape_def)
  show "to_driver_view cnc' = rb"
    using ring_at_store [OF r] assms(1,3-6) by (simp add: to_driver_view_def cnc_shape_def)
  show "cnc_header cnc' = cnc_header cnc"
    using assms(6) frame(1) [of 0 CNC_HEADER_LENGTH] by (simp add: cnc_header_def to_driver_offset_def)
  have off: "to_clients_offset dcap = to_driver_offset + dcap + 128"
    by (simp add: to_clients_offset_def cnc_offsets)
  have "bslice (to_clients_offset dcap + k) n (store_ring (dc_base cnc) to_driver_offset rb) =
      bslice (to_clients_offset dcap + k) n (dc_base cnc)" for k n
    using assms(3) by (intro frame(1)) (simp add: off)
  from this [of 0] this show "to_clients_view cnc' = to_clients_view cnc"
    using assms(1,6) by (simp add: to_clients_view_def broadcast_at_def slice_read cnc_shape_def add.assoc)
qed

lemma store_broadcast_views:
  assumes "cnc_shape dcap ccap cnc" "length (bm_data mem) = ccap"
    and "cnc' = cnc\<lparr>dc_base := store_broadcast (dc_base cnc) (to_clients_offset (dc_to_driver_capacity cnc))
           (dc_to_clients_capacity cnc) mem\<rparr>"
  shows "cnc_shape dcap ccap cnc'" "to_clients_view cnc' = mem" "to_driver_view cnc' = to_driver_view cnc"
    "cnc_header cnc' = cnc_header cnc"
proof -
  have c: "dc_to_driver_capacity cnc = dcap" "dc_to_clients_capacity cnc = ccap" using assms(1) by (simp_all add: cnc_shape_def)
  have l: "to_driver_offset + dcap + 128 + (ccap + 128) = length (dc_base cnc)"
    using assms(1) by (simp add: cnc_shape_def cnc_file_length_def to_driver_offset_def cnc_offsets)
  have off: "to_clients_offset dcap = to_driver_offset + dcap + 128"
    by (simp add: to_clients_offset_def cnc_offsets)
  have r: "to_clients_offset dcap + ccap + 128 \<le> length (dc_base cnc)" using off l by simp
  note frame = store_broadcast_frame [OF assms(2) r]
  note b = assms(3) [unfolded c]
  show "cnc_shape dcap ccap cnc'" using assms(1) b frame(2) [of 0 0] by (simp add: cnc_shape_def)
  show "to_clients_view cnc' = mem"
    using broadcast_at_store [OF assms(2) r] b c by (simp add: to_clients_view_def)
  have keep: "bslice o' n (store_broadcast (dc_base cnc) (to_clients_offset dcap) ccap mem) = bslice o' n (dc_base cnc)"
    if "o' + n \<le> to_driver_offset + dcap + 128" for o' n
    using that by (intro frame(1)) (simp add: off)
  show "cnc_header cnc' = cnc_header cnc"
    using b keep [of 0 CNC_HEADER_LENGTH] by (simp add: cnc_header_def to_driver_offset_def)
  show "to_driver_view cnc' = to_driver_view cnc"
    using b c keep by (simp add: to_driver_view_def ring_at_def slice_read cnc_offsets)
qed

lemma cnc_read_inv:
  assumes "cnc_inv dcap ccap cnc cmds c rsps t"
  shows "\<exists>cnc'. cnc_read cnc = Some (Ok (cnc', cmds)) \<and> cnc_inv dcap ccap cnc' [] c rsps t \<and>
    cnc_header cnc' = cnc_header cnc"
proof -
  have i: "cnc_shape dcap ccap cnc" "ring_holds (to_driver_view cnc) cmds" "bcast_inv ccap (to_clients_view cnc) c rsps t"
    using assms by (simp_all add: cnc_inv_def)
  from i(2) obtain h rs u where "ring_inv (to_driver_view cnc) h rs u" "messages_of rs = cmds"
    by (auto simp: ring_holds_def)
  with ring_read_all obtain rb where rb: "ring_read (to_driver_view cnc) = Some (Ok (rb, cmds))" "ring_inv rb u [] u"
    by metis
  have h: "ring_holds rb []" using rb(2) by (auto simp: ring_holds_def intro!: exI [of _ "[]"])
  let ?cnc = "cnc\<lparr>dc_base := store_ring (dc_base cnc) to_driver_offset rb\<rparr>"
  have "cnc_shape dcap ccap ?cnc" "to_driver_view ?cnc = rb" "to_clients_view ?cnc = to_clients_view cnc"
    "cnc_header ?cnc = cnc_header cnc"
    using store_ring_views [OF i(1), of rb ?cnc] ring_read_shape [OF rb(1)] ring_holds_length [OF h] i(1)
    by (simp_all add: cnc_shape_def)
  then show ?thesis using rb(1) h i(3) by (simp add: cnc_read_def cnc_inv_def)
qed

lemma cnc_transmit_inv:
  assumes "cnc_inv dcap ccap cnc cmds c rsps t" "length p + RECORD_HEADER_LENGTH \<le> ccap" "m \<noteq> MSG_TYPE_PADDING"
    and "next_tail ccap t (length p) \<le> c + ccap"
  shows "\<exists>cnc' pads. cnc_transmit cnc m p = Inr cnc' \<and>
    cnc_inv dcap ccap cnc' cmds c (rsps @ pads @ [Msg m p]) (next_tail ccap t (length p)) \<and> messages_of pads = [] \<and>
    cnc_header cnc' = cnc_header cnc"
proof -
  have i: "cnc_shape dcap ccap cnc" "ring_holds (to_driver_view cnc) cmds" "bcast_inv ccap (to_clients_view cnc) c rsps t"
    using assms(1) by (simp_all add: cnc_inv_def)
  have tx: "tx_capacity (dc_to_clients cnc) = ccap" "tx_mask (dc_to_clients cnc) = ccap - 1"
    using i(1) by (simp_all add: cnc_shape_def)
  from transmit_inv [OF i(3) tx _ assms(3,4)] assms(2) obtain mem pads where
    m: "transmit (dc_to_clients cnc) (to_clients_view cnc) m p = Inr mem" "messages_of pads = []"
      "bcast_inv ccap mem c (rsps @ pads @ [Msg m p]) (next_tail ccap t (length p))"
    by (auto simp: ring_constants)
  let ?cnc = "cnc\<lparr>dc_base := store_broadcast (dc_base cnc) (to_clients_offset (dc_to_driver_capacity cnc))
    (dc_to_clients_capacity cnc) mem\<rparr>"
  have "length (bm_data mem) = ccap" using m(3) by (simp add: bcast_inv_def)
  from store_broadcast_views [OF i(1) this refl] show ?thesis
    using m i(2) by (intro exI [of _ ?cnc] exI [of _ pads]) (simp add: cnc_transmit_def cnc_inv_def)
qed

lemma update_heartbeat_inv:
  assumes "cnc_inv dcap ccap cnc cmds c rsps t"
  shows "cnc_inv dcap ccap (update_heartbeat cnc now) cmds c rsps t"
    "is_driver_alive (dc_base (update_heartbeat cnc now)) now' timeout \<longleftrightarrow> sint (now' - now) < sint timeout"
proof -
  have l: "256 \<le> length (dc_base cnc)" "cnc_shape dcap ccap cnc"
    using assms by (simp_all add: cnc_inv_def cnc_shape_def cnc_file_length_def cnc_offsets)
  have keep: "bslice o' n (overwrite (dc_base cnc) 16 (le_bytes 8 now)) = bslice o' n (dc_base cnc)" if "256 \<le> o'" for o' n
    using that l(1) by (simp add: slice_overwrite_disjoint)
  have "to_driver_view (update_heartbeat cnc now) = to_driver_view cnc"
    "to_clients_view (update_heartbeat cnc now) = to_clients_view cnc"
    by (simp_all add: keep update_heartbeat_def to_driver_view_def to_clients_view_def ring_at_def
        broadcast_at_def slice_read to_driver_offset_def to_clients_offset_def cnc_offsets)
  moreover have "cnc_shape dcap ccap (update_heartbeat cnc now)"
    using l by (simp add: cnc_shape_def update_heartbeat_def cnc_offsets)
  ultimately show "cnc_inv dcap ccap (update_heartbeat cnc now) cmds c rsps t"
    using assms by (simp add: cnc_inv_def)
  show "is_driver_alive (dc_base (update_heartbeat cnc now)) now' timeout \<longleftrightarrow> sint (now' - now) < sint timeout"
    using l(1) by (simp add: is_driver_alive_def update_heartbeat_def slice_read cnc_offsets slice_overwrite_eq)
qed

lemma client_write_inv:
  assumes "cnc_inv dcap ccap cnc cmds c rsps t" "cc_to_driver_capacity client = dcap" "ring_sendable (m, p)"
    and "client_write client (dc_base cnc) m p = Inr base"
  shows "cnc_inv dcap ccap (cnc\<lparr>dc_base := base\<rparr>) (cmds @ [(m, p)]) c rsps t"
proof -
  have i: "cnc_shape dcap ccap cnc" "ring_holds (to_driver_view cnc) cmds" "bcast_inv ccap (to_clients_view cnc) c rsps t"
    using assms(1) by (simp_all add: cnc_inv_def)
  have view: "ring_at (dc_base cnc) to_driver_offset (cc_to_driver_capacity client) = to_driver_view cnc"
    using assms(2) i(1) by (simp add: to_driver_view_def cnc_shape_def)
  then obtain rb where rb: "ring_write (to_driver_view cnc) m p = Inr rb" "base = store_ring (dc_base cnc) to_driver_offset rb"
    using assms(4) by (auto simp: client_write_def split: sum.splits)
  have h: "ring_holds rb (cmds @ [(m, p)])"
    using ring.put_holds [OF i(2) assms(3)] rb(1) by (simp add: ring_put_def)
  have "cnc_shape dcap ccap (cnc\<lparr>dc_base := base\<rparr>)" "to_driver_view (cnc\<lparr>dc_base := base\<rparr>) = rb"
    "to_clients_view (cnc\<lparr>dc_base := base\<rparr>) = to_clients_view cnc"
    using store_ring_views [OF i(1), of rb "cnc\<lparr>dc_base := base\<rparr>"] ring_write_shape [OF rb(1)] ring_holds_length [OF h] i(1) rb(2)
    by (simp_all add: cnc_shape_def)
  then show ?thesis using h i(3) by (simp add: cnc_inv_def)
qed

lemma client_receive_all:
  assumes "cnc_inv dcap ccap cnc cmds c rsps t" "cc_to_driver_capacity client = dcap"
    and "rx_capacity (cc_to_clients_rx client) = ccap" "rx_mask (cc_to_clients_rx client) = ccap - 1"
    and "rx_cursor (cc_to_clients_rx client) = of_nat c"
  shows "\<exists>client'. client_receive client (dc_base cnc) = Some (Ok (client', messages_of rsps))"
proof -
  have i: "cnc_shape dcap ccap cnc" "bcast_inv ccap (to_clients_view cnc) c rsps t"
    using assms(1) by (simp_all add: cnc_inv_def)
  then have "bcast_ready ccap (to_clients_view cnc, cc_to_clients_rx client) c rsps t"
    using assms(3-5) by (simp add: bcast_ready_def)
  from receive_all(1) [OF this] show ?thesis
    using assms(2,3) i(1) by (simp add: client_receive_def to_clients_view_def cnc_shape_def)
qed

section \<open>Creating and mapping the file\<close>

lemma replicate_slice: "bslice off n (replicate m x) = replicate (min n (m - off)) x"
  by (simp add: bslice_def)

lemma init_header_fields:
  assumes "256 \<le> length base" "b = init_header base pid now dcap ccap"
  shows "length b = length base" "bslice 0 4 b = le_bytes 4 CNC_VERSION" "bslice 4 4 b = le_bytes 4 pid"
    "bslice 8 4 b = le_bytes 4 (of_nat dcap :: i32)" "bslice 12 4 b = le_bytes 4 (of_nat ccap :: i32)"
    "bslice 16 8 b = le_bytes 8 now" "256 \<le> o' \<Longrightarrow> bslice o' n b = bslice o' n base"
  using assms
  by (simp_all add: init_header_def Let_def write_i32_raw_def cnc_offsets slice_overwrite_disjoint slice_overwrite_eq)

lemma of_le_zero [simp]: "of_le (replicate n 0) = (0 :: 'a::len word)"
  by (induction n) simp_all

lemma cnc_init_inv:
  assumes "cnc_init (cnc_file_length dcap ccap) dcap ccap pid now = Inr cnc" "dcap \<le> 2 ^ 30" "ccap \<le> 2 ^ 30"
  shows "cnc_inv dcap ccap cnc [] 0 [] 0" "bslice 0 4 (dc_base cnc) = le_bytes 4 CNC_VERSION"
    "bslice 4 4 (dc_base cnc) = le_bytes 4 pid" "bslice 8 4 (dc_base cnc) = le_bytes 4 (of_nat dcap :: i32)"
    "bslice 12 4 (dc_base cnc) = le_bytes 4 (of_nat ccap :: i32)" "bslice 16 8 (dc_base cnc) = le_bytes 8 now"
    "is_power_of_two dcap" "32 \<le> dcap" "is_power_of_two ccap" "32 \<le> ccap" "ring_load (to_driver_view cnc) [] 0"
proof -
  let ?base = "replicate (cnc_file_length dcap ccap) (0 :: byte)"
  show p: "is_power_of_two dcap" "32 \<le> dcap" "is_power_of_two ccap" "32 \<le> ccap"
    using assms(1) by (auto simp: cnc_init_def ring_new_def transmitter_new_def ring_constants Let_def split: if_splits)
  have cnc: "cnc = \<lparr>dc_base = init_header ?base pid now dcap ccap, dc_length = cnc_file_length dcap ccap,
      dc_to_clients = \<lparr>tx_capacity = ccap, tx_mask = ccap - 1, tx_max_record_length = ccap - RECORD_HEADER_LENGTH\<rparr>,
      dc_to_driver_capacity = dcap, dc_to_clients_capacity = ccap\<rparr>"
    using assms(1) p by (simp add: cnc_init_def ring_new_def transmitter_new_def ring_constants Let_def)
  have l: "256 \<le> length ?base" by (simp add: cnc_file_length_def cnc_offsets)
  note f = init_header_fields [OF l refl, where pid = pid and now = now and dcap = dcap and ccap = ccap]
  show "bslice 0 4 (dc_base cnc) = le_bytes 4 CNC_VERSION" "bslice 4 4 (dc_base cnc) = le_bytes 4 pid"
    "bslice 8 4 (dc_base cnc) = le_bytes 4 (of_nat dcap :: i32)"
    "bslice 12 4 (dc_base cnc) = le_bytes 4 (of_nat ccap :: i32)" "bslice 16 8 (dc_base cnc) = le_bytes 8 now"
    unfolding cnc using f(2-6) by simp_all
  have zero: "bslice o' n (dc_base cnc) = replicate (min n (cnc_file_length dcap ccap - o')) 0" if "256 \<le> o'" for o' n
    unfolding cnc using f(7) [OF that] by (simp add: replicate_slice)
  have ring: "ring_inv (to_driver_view cnc) 0 [] 0"
    using p assms(2) zero
    by (simp add: ring_inv_def to_driver_view_def ring_at_def slice_read cnc_offsets to_driver_offset_def)
      (simp add: cnc cnc_file_length_def cnc_offsets)
  then show "ring_load (to_driver_view cnc) [] 0"
    unfolding ring_load_def by (intro exI [of _ 0] exI [of _ "[]"]) simp
  note ring
  moreover have "bcast_inv ccap (to_clients_view cnc) 0 [] 0"
    using p assms(3) zero
    by (simp add: bcast_inv_def to_clients_view_def broadcast_at_def slice_read cnc_offsets to_driver_offset_def
        to_clients_offset_def) (simp add: cnc cnc_file_length_def cnc_offsets)
  moreover have "cnc_shape dcap ccap cnc" using f(1) by (simp add: cnc cnc_shape_def)
  ultimately show "cnc_inv dcap ccap cnc [] 0 [] 0"
    by (auto simp: cnc_inv_def ring_holds_def intro!: exI [of _ "[]"])
qed

text \<open>Commands a client writes one after the other, all of them accepted.\<close>

fun client_writes :: "client_cnc \<Rightarrow> byte list \<Rightarrow> message list \<Rightarrow> byte list option" where
  "client_writes client base [] = Some base"
| "client_writes client base (m # ms) =
     (case client_write client base (fst m) (snd m) of Inl err \<Rightarrow> None | Inr base' \<Rightarrow> client_writes client base' ms)"

lemma client_writes_inv:
  assumes "cnc_inv dcap ccap cnc cmds c rsps t" "cc_to_driver_capacity client = dcap" "list_all ring_sendable ms"
    and "client_writes client (dc_base cnc) ms = Some base"
  shows "cnc_inv dcap ccap (cnc\<lparr>dc_base := base\<rparr>) (cmds @ ms) c rsps t"
  using assms(1,3,4)
proof (induction ms arbitrary: cnc cmds)
  case Nil
  then have "cnc\<lparr>dc_base := base\<rparr> = cnc" by auto
  then show ?case using Nil.prems(1) by simp
next
  case (Cons m ms)
  then obtain b where b: "client_write client (dc_base cnc) (fst m) (snd m) = Inr b" "client_writes client b ms = Some base"
    by (auto split: sum.splits)
  have "cnc_inv dcap ccap (cnc\<lparr>dc_base := b\<rparr>) (cmds @ [m]) c rsps t"
    using client_write_inv [OF Cons.prems(1) assms(2), of "fst m" "snd m"] b(1) Cons.prems(2) by simp
  from Cons.IH [OF this] Cons.prems(2) b(2) show ?case by simp
qed

definition client_at :: "client_cnc \<Rightarrow> nat \<Rightarrow> nat \<Rightarrow> nat \<Rightarrow> bool" where
  "client_at client dcap ccap c \<longleftrightarrow> cc_to_driver_capacity client = dcap \<and>
     rx_capacity (cc_to_clients_rx client) = ccap \<and> rx_mask (cc_to_clients_rx client) = ccap - 1 \<and>
     rx_cursor (cc_to_clients_rx client) = of_nat c"

lemma from_ptr_ready:
  assumes "cnc_inv dcap ccap cnc cmds c rsps t" "is_power_of_two dcap" "32 \<le> dcap" "dcap \<le> 2 ^ 30"
    and "bslice 0 4 (dc_base cnc) = le_bytes 4 CNC_VERSION" "bslice 8 4 (dc_base cnc) = le_bytes 4 (of_nat dcap :: i32)"
    and "bslice 12 4 (dc_base cnc) = le_bytes 4 (of_nat ccap :: i32)"
  shows "\<exists>client. from_ptr (dc_base cnc) n = Inr client \<and> client_at client dcap ccap t"
proof -
  have b: "is_power_of_two ccap" "32 \<le> ccap" "ccap \<le> 2 ^ 30" "bm_tail_counter (to_clients_view cnc) = of_nat t"
    "dc_to_driver_capacity cnc = dcap" "dc_to_clients_capacity cnc = ccap"
    using assms(1) by (simp_all add: cnc_inv_def bcast_inv_def cnc_shape_def)
  have "bm_tail_counter (broadcast_at (dc_base cnc) (to_clients_offset dcap) ccap) = of_nat t"
    using b(4-6) by (simp add: to_clients_view_def)
  then show ?thesis
    using assms(2-7) b(1-3)
    by (simp add: from_ptr_def slice_read read_i32_raw_def cnc_offsets CNC_VERSION_def unat_scast_of_nat ring_new_def
        transmitter_new_def ring_constants client_at_def receiver_new_def)
qed



end
