(* ===== verification/Command.thy ===== *)
theory Command
  imports Record_Layout Frame
begin

text \<open>
  The command and response messages between clients and the conductor
  (\<^verbatim>\<open>src/src/cnc/command.rs\<close>).

  A message is encoded field by field into a buffer and decoded from the bytes that the ring buffer or the
  broadcast buffer hands on. The locale \<open>message_codec\<close> is the contract of such a pair; the structs of fixed
  layout meet it because they are wire structs, the two with an inline string by a check of their own.
\<close>

section \<open>The contract\<close>

definition encode_into :: "nat \<Rightarrow> ('h \<Rightarrow> byte list) \<Rightarrow> 'h \<Rightarrow> byte list \<Rightarrow> (byte list \<times> nat) option" where
  "encode_into len bytes h buf = (if length buf < len then None else Some (overwrite buf 0 (bytes h), len))"

locale message_codec =
  fixes len :: nat
    and bytes :: "'h \<Rightarrow> byte list"
    and decode :: "byte list \<Rightarrow> 'h option"
    and wf :: "'h \<Rightarrow> bool"
  assumes encoded_length: "wf h \<Longrightarrow> length (bytes h) = len"
    and decode_encoded: "wf h \<Longrightarrow> decode (bytes h @ rest) = Some h"
    and decode_short: "length buf < len \<Longrightarrow> decode buf = None"
    and decode_wf: "decode buf = Some h \<Longrightarrow> wf h"
begin

lemma encoded_prefix:
  assumes "wf h" "len \<le> length buf"
  shows "encode_into len bytes h buf = Some (bytes h @ drop len buf, len)"
    "take len (bytes h @ drop len buf) = bytes h"
  using assms encoded_length [OF assms(1)] by (simp_all add: encode_into_def overwrite_def)

lemma sent_and_decoded:
  assumes "wf h" "len \<le> length buf"
  shows "\<exists>buf'. encode_into len bytes h buf = Some (buf', len) \<and> decode (take len buf') = Some h"
  using encoded_prefix [OF assms] decode_encoded [OF assms(1), of "[]"] by simp

lemma encode_refused: "length buf < len \<Longrightarrow> encode_into len bytes h buf = None"
  by (simp add: encode_into_def)

end

sublocale wire_struct \<subseteq> codec: message_codec len bytes "struct_parse len view" "\<lambda>h. True"
  by unfold_locales (auto simp: length_bytes view_bytes struct_parse_def)

section \<open>Message types\<close>

definition CMD_ADD_PUBLICATION :: i32 where "CMD_ADD_PUBLICATION = 1"
definition CMD_REMOVE_PUBLICATION :: i32 where "CMD_REMOVE_PUBLICATION = 2"
definition CMD_ADD_SUBSCRIPTION :: i32 where "CMD_ADD_SUBSCRIPTION = 3"
definition CMD_REMOVE_SUBSCRIPTION :: i32 where "CMD_REMOVE_SUBSCRIPTION = 4"
definition CMD_CLIENT_KEEPALIVE :: i32 where "CMD_CLIENT_KEEPALIVE = 5"
definition CMD_CLIENT_CLOSE :: i32 where "CMD_CLIENT_CLOSE = 6"
definition RSP_PUBLICATION_READY :: i32 where "RSP_PUBLICATION_READY = 101"
definition RSP_SUBSCRIPTION_READY :: i32 where "RSP_SUBSCRIPTION_READY = 102"
definition RSP_OPERATION_ERROR :: i32 where "RSP_OPERATION_ERROR = 103"
definition RSP_DRIVER_HEARTBEAT :: i32 where "RSP_DRIVER_HEARTBEAT = 104"

lemmas command_types =
  CMD_ADD_PUBLICATION_def CMD_REMOVE_PUBLICATION_def CMD_ADD_SUBSCRIPTION_def CMD_REMOVE_SUBSCRIPTION_def
  CMD_CLIENT_KEEPALIVE_def CMD_CLIENT_CLOSE_def RSP_PUBLICATION_READY_def RSP_SUBSCRIPTION_READY_def
  RSP_OPERATION_ERROR_def RSP_DRIVER_HEARTBEAT_def

definition MAX_CHANNEL_URI_LENGTH :: nat where "MAX_CHANNEL_URI_LENGTH = 256"
definition ADD_PUBLICATION_LENGTH :: nat where "ADD_PUBLICATION_LENGTH = 8 + 8 + 4 + 4 + MAX_CHANNEL_URI_LENGTH"
definition REMOVE_PUBLICATION_LENGTH :: nat where "REMOVE_PUBLICATION_LENGTH = 8 + 8 + 8"
definition ADD_SUBSCRIPTION_LENGTH :: nat where "ADD_SUBSCRIPTION_LENGTH = ADD_PUBLICATION_LENGTH"
definition REMOVE_SUBSCRIPTION_LENGTH :: nat where "REMOVE_SUBSCRIPTION_LENGTH = REMOVE_PUBLICATION_LENGTH"
definition CLIENT_KEEPALIVE_LENGTH :: nat where "CLIENT_KEEPALIVE_LENGTH = 8 + 8"
definition PUBLICATION_READY_LENGTH :: nat where "PUBLICATION_READY_LENGTH = 8 + 8 + 4 + 4 + 4 + 4"
definition SUBSCRIPTION_READY_LENGTH :: nat where "SUBSCRIPTION_READY_LENGTH = 8 + 4"
definition MAX_ERROR_MSG_LENGTH :: nat where "MAX_ERROR_MSG_LENGTH = 256"
definition OPERATION_ERROR_LENGTH :: nat where "OPERATION_ERROR_LENGTH = 8 + 4 + 4 + MAX_ERROR_MSG_LENGTH"

lemmas command_lengths =
  MAX_CHANNEL_URI_LENGTH_def ADD_PUBLICATION_LENGTH_def REMOVE_PUBLICATION_LENGTH_def ADD_SUBSCRIPTION_LENGTH_def
  REMOVE_SUBSCRIPTION_LENGTH_def CLIENT_KEEPALIVE_LENGTH_def PUBLICATION_READY_LENGTH_def
  SUBSCRIPTION_READY_LENGTH_def MAX_ERROR_MSG_LENGTH_def OPERATION_ERROR_LENGTH_def

text \<open>A length read from the wire: an \<open>i32\<close> cast to \<open>usize\<close>, so that a negative one is huge.\<close>

definition wire_len :: "byte list \<Rightarrow> nat \<Rightarrow> nat" where
  "wire_len buf off = unat (scast (read_i32 buf off) :: 64 word)"

section \<open>AddPublication and AddSubscription\<close>

record add_publication_cmd =
  ap_correlation_id :: i64
  ap_client_id :: i64
  ap_stream_id :: i32
  ap_channel_uri_len :: nat
  ap_channel_uri :: "byte list"

definition add_publication_bytes :: "add_publication_cmd \<Rightarrow> byte list" where
  "add_publication_bytes c =
     le_bytes 8 (ap_correlation_id c) @ le_bytes 8 (ap_client_id c) @ le_bytes 4 (ap_stream_id c) @
     le_bytes 4 (of_nat (ap_channel_uri_len c) :: i32) @ ap_channel_uri c"

definition add_publication_encode :: "add_publication_cmd \<Rightarrow> byte list \<Rightarrow> (byte list \<times> nat) option" where
  "add_publication_encode = encode_into ADD_PUBLICATION_LENGTH add_publication_bytes"

definition add_publication_decode :: "byte list \<Rightarrow> add_publication_cmd option" where
  "add_publication_decode buf =
     (if length buf < ADD_PUBLICATION_LENGTH then None
      else
        let channel_uri_len = wire_len buf 20
        in if MAX_CHANNEL_URI_LENGTH < channel_uri_len then None
           else Some \<lparr>ap_correlation_id = read_i64 buf 0, ap_client_id = read_i64 buf 8,
                      ap_stream_id = read_i32 buf 16, ap_channel_uri_len = channel_uri_len,
                      ap_channel_uri = bslice 24 MAX_CHANNEL_URI_LENGTH buf\<rparr>)"

definition add_publication_from_channel :: "i64 \<Rightarrow> i64 \<Rightarrow> i32 \<Rightarrow> byte list \<Rightarrow> add_publication_cmd option" where
  "add_publication_from_channel correlation_id client_id stream_id channel =
     (if MAX_CHANNEL_URI_LENGTH < length channel then None
      else Some \<lparr>ap_correlation_id = correlation_id, ap_client_id = client_id, ap_stream_id = stream_id,
                 ap_channel_uri_len = length channel,
                 ap_channel_uri = overwrite (replicate MAX_CHANNEL_URI_LENGTH 0) 0 channel\<rparr>)"

record add_subscription =
  as_correlation_id :: i64
  as_client_id :: i64
  as_stream_id :: i32
  as_channel_uri_len :: nat
  as_channel_uri :: "byte list"

definition add_subscription_bytes :: "add_subscription \<Rightarrow> byte list" where
  "add_subscription_bytes c =
     le_bytes 8 (as_correlation_id c) @ le_bytes 8 (as_client_id c) @ le_bytes 4 (as_stream_id c) @
     le_bytes 4 (of_nat (as_channel_uri_len c) :: i32) @ as_channel_uri c"

definition add_subscription_encode :: "add_subscription \<Rightarrow> byte list \<Rightarrow> (byte list \<times> nat) option" where
  "add_subscription_encode = encode_into ADD_SUBSCRIPTION_LENGTH add_subscription_bytes"

definition add_subscription_decode :: "byte list \<Rightarrow> add_subscription option" where
  "add_subscription_decode buf =
     (if length buf < ADD_SUBSCRIPTION_LENGTH then None
      else
        let channel_uri_len = wire_len buf 20
        in if MAX_CHANNEL_URI_LENGTH < channel_uri_len then None
           else Some \<lparr>as_correlation_id = read_i64 buf 0, as_client_id = read_i64 buf 8,
                      as_stream_id = read_i32 buf 16, as_channel_uri_len = channel_uri_len,
                      as_channel_uri = bslice 24 MAX_CHANNEL_URI_LENGTH buf\<rparr>)"

definition add_subscription_from_channel :: "i64 \<Rightarrow> i64 \<Rightarrow> i32 \<Rightarrow> byte list \<Rightarrow> add_subscription option" where
  "add_subscription_from_channel correlation_id client_id stream_id channel =
     (if MAX_CHANNEL_URI_LENGTH < length channel then None
      else Some \<lparr>as_correlation_id = correlation_id, as_client_id = client_id, as_stream_id = stream_id,
                 as_channel_uri_len = length channel,
                 as_channel_uri = overwrite (replicate MAX_CHANNEL_URI_LENGTH 0) 0 channel\<rparr>)"

text \<open>
  A string is its bytes. \<open>utf8_valid\<close> is the check of the standard library's \<open>from_utf8\<close>: the well-formed byte
  sequences of Unicode, without overlong forms, surrogates and values above U+10FFFF. \<open>str_prefix\<close> is the slice
  that the accessors take, which panics when the length is beyond the array, and this check on it.
\<close>

definition utf8_cont :: "byte \<Rightarrow> bool" where
  "utf8_cont b \<longleftrightarrow> 128 \<le> b \<and> b < 192"

fun utf8_valid :: "byte list \<Rightarrow> bool" where
  "utf8_valid [] \<longleftrightarrow> True"
| "utf8_valid (a # as) \<longleftrightarrow>
     (if a < 128 then utf8_valid as
      else if a < 194 then False
      else if a < 224 then (case as of b # bs \<Rightarrow> utf8_cont b \<and> utf8_valid bs | _ \<Rightarrow> False)
      else if a < 240
      then (case as of
              b # c # cs \<Rightarrow>
                utf8_cont b \<and> (a = 224 \<longrightarrow> 160 \<le> b) \<and> (a = 237 \<longrightarrow> b < 160) \<and> utf8_cont c \<and> utf8_valid cs
            | _ \<Rightarrow> False)
      else if a < 245
      then (case as of
              b # c # d # ds \<Rightarrow>
                utf8_cont b \<and> (a = 240 \<longrightarrow> 144 \<le> b) \<and> (a = 244 \<longrightarrow> b < 144) \<and> utf8_cont c \<and> utf8_cont d \<and>
                utf8_valid ds
            | _ \<Rightarrow> False)
      else False)"

definition str_prefix :: "byte list \<Rightarrow> nat \<Rightarrow> (unit, byte list option) outcome" where
  "str_prefix arr len =
     (if length arr < len then Fault else Ok (if utf8_valid (take len arr) then Some (take len arr) else None))"

definition add_publication_channel_str :: "add_publication_cmd \<Rightarrow> (unit, byte list option) outcome" where
  "add_publication_channel_str c = str_prefix (ap_channel_uri c) (ap_channel_uri_len c)"

definition add_subscription_channel_str :: "add_subscription \<Rightarrow> (unit, byte list option) outcome" where
  "add_subscription_channel_str c = str_prefix (as_channel_uri c) (as_channel_uri_len c)"

section \<open>The other commands\<close>

record remove_publication =
  rp_correlation_id :: i64
  rp_client_id :: i64
  rp_registration_id :: i64

definition remove_publication_bytes :: "remove_publication \<Rightarrow> byte list" where
  "remove_publication_bytes c =
     le_bytes 8 (rp_correlation_id c) @ le_bytes 8 (rp_client_id c) @ le_bytes 8 (rp_registration_id c)"

definition remove_publication_view :: "byte list \<Rightarrow> remove_publication" where
  "remove_publication_view buf =
     \<lparr>rp_correlation_id = read_i64 buf 0, rp_client_id = read_i64 buf 8, rp_registration_id = read_i64 buf 16\<rparr>"

definition remove_publication_encode :: "remove_publication \<Rightarrow> byte list \<Rightarrow> (byte list \<times> nat) option" where
  "remove_publication_encode = encode_into REMOVE_PUBLICATION_LENGTH remove_publication_bytes"

definition remove_publication_decode :: "byte list \<Rightarrow> remove_publication option" where
  "remove_publication_decode = struct_parse REMOVE_PUBLICATION_LENGTH remove_publication_view"

record remove_subscription =
  rs_correlation_id :: i64
  rs_client_id :: i64
  rs_registration_id :: i64

definition remove_subscription_bytes :: "remove_subscription \<Rightarrow> byte list" where
  "remove_subscription_bytes c =
     le_bytes 8 (rs_correlation_id c) @ le_bytes 8 (rs_client_id c) @ le_bytes 8 (rs_registration_id c)"

definition remove_subscription_view :: "byte list \<Rightarrow> remove_subscription" where
  "remove_subscription_view buf =
     \<lparr>rs_correlation_id = read_i64 buf 0, rs_client_id = read_i64 buf 8, rs_registration_id = read_i64 buf 16\<rparr>"

definition remove_subscription_encode :: "remove_subscription \<Rightarrow> byte list \<Rightarrow> (byte list \<times> nat) option" where
  "remove_subscription_encode = encode_into REMOVE_SUBSCRIPTION_LENGTH remove_subscription_bytes"

definition remove_subscription_decode :: "byte list \<Rightarrow> remove_subscription option" where
  "remove_subscription_decode = struct_parse REMOVE_SUBSCRIPTION_LENGTH remove_subscription_view"

record client_keepalive =
  ck_correlation_id :: i64
  ck_client_id :: i64

definition client_keepalive_bytes :: "client_keepalive \<Rightarrow> byte list" where
  "client_keepalive_bytes c = le_bytes 8 (ck_correlation_id c) @ le_bytes 8 (ck_client_id c)"

definition client_keepalive_view :: "byte list \<Rightarrow> client_keepalive" where
  "client_keepalive_view buf = \<lparr>ck_correlation_id = read_i64 buf 0, ck_client_id = read_i64 buf 8\<rparr>"

definition client_keepalive_encode :: "client_keepalive \<Rightarrow> byte list \<Rightarrow> (byte list \<times> nat) option" where
  "client_keepalive_encode = encode_into CLIENT_KEEPALIVE_LENGTH client_keepalive_bytes"

definition client_keepalive_decode :: "byte list \<Rightarrow> client_keepalive option" where
  "client_keepalive_decode = struct_parse CLIENT_KEEPALIVE_LENGTH client_keepalive_view"

section \<open>The responses\<close>

record publication_ready =
  pr_correlation_id :: i64
  pr_registration_id :: i64
  pr_session_id :: i32
  pr_stream_id :: i32
  pr_position_limit_counter_id :: i32
  pr_channel_status_indicator_id :: i32

definition publication_ready_bytes :: "publication_ready \<Rightarrow> byte list" where
  "publication_ready_bytes r =
     le_bytes 8 (pr_correlation_id r) @ le_bytes 8 (pr_registration_id r) @ le_bytes 4 (pr_session_id r) @
     le_bytes 4 (pr_stream_id r) @ le_bytes 4 (pr_position_limit_counter_id r) @
     le_bytes 4 (pr_channel_status_indicator_id r)"

definition publication_ready_view :: "byte list \<Rightarrow> publication_ready" where
  "publication_ready_view buf =
     \<lparr>pr_correlation_id = read_i64 buf 0, pr_registration_id = read_i64 buf 8, pr_session_id = read_i32 buf 16,
      pr_stream_id = read_i32 buf 20, pr_position_limit_counter_id = read_i32 buf 24,
      pr_channel_status_indicator_id = read_i32 buf 28\<rparr>"

definition publication_ready_encode :: "publication_ready \<Rightarrow> byte list \<Rightarrow> (byte list \<times> nat) option" where
  "publication_ready_encode = encode_into PUBLICATION_READY_LENGTH publication_ready_bytes"

definition publication_ready_decode :: "byte list \<Rightarrow> publication_ready option" where
  "publication_ready_decode = struct_parse PUBLICATION_READY_LENGTH publication_ready_view"

record subscription_ready =
  sr_correlation_id :: i64
  sr_channel_status_indicator_id :: i32

definition subscription_ready_bytes :: "subscription_ready \<Rightarrow> byte list" where
  "subscription_ready_bytes r = le_bytes 8 (sr_correlation_id r) @ le_bytes 4 (sr_channel_status_indicator_id r)"

definition subscription_ready_view :: "byte list \<Rightarrow> subscription_ready" where
  "subscription_ready_view buf =
     \<lparr>sr_correlation_id = read_i64 buf 0, sr_channel_status_indicator_id = read_i32 buf 8\<rparr>"

definition subscription_ready_encode :: "subscription_ready \<Rightarrow> byte list \<Rightarrow> (byte list \<times> nat) option" where
  "subscription_ready_encode = encode_into SUBSCRIPTION_READY_LENGTH subscription_ready_bytes"

definition subscription_ready_decode :: "byte list \<Rightarrow> subscription_ready option" where
  "subscription_ready_decode = struct_parse SUBSCRIPTION_READY_LENGTH subscription_ready_view"

record operation_error =
  oe_correlation_id :: i64
  oe_error_code :: i32
  oe_error_msg_len :: nat
  oe_error_msg :: "byte list"

definition operation_error_bytes :: "operation_error \<Rightarrow> byte list" where
  "operation_error_bytes r =
     le_bytes 8 (oe_correlation_id r) @ le_bytes 4 (oe_error_code r) @
     le_bytes 4 (of_nat (oe_error_msg_len r) :: i32) @ oe_error_msg r"

definition operation_error_encode :: "operation_error \<Rightarrow> byte list \<Rightarrow> (byte list \<times> nat) option" where
  "operation_error_encode = encode_into OPERATION_ERROR_LENGTH operation_error_bytes"

definition operation_error_decode :: "byte list \<Rightarrow> operation_error option" where
  "operation_error_decode buf =
     (if length buf < OPERATION_ERROR_LENGTH then None
      else
        let error_msg_len = wire_len buf 12
        in if MAX_ERROR_MSG_LENGTH < error_msg_len then None
           else Some \<lparr>oe_correlation_id = read_i64 buf 0, oe_error_code = read_i32 buf 8,
                      oe_error_msg_len = error_msg_len, oe_error_msg = bslice 16 MAX_ERROR_MSG_LENGTH buf\<rparr>)"

definition operation_error_from_message :: "i64 \<Rightarrow> i32 \<Rightarrow> byte list \<Rightarrow> operation_error" where
  "operation_error_from_message correlation_id error_code msg =
     (let len = min (length msg) MAX_ERROR_MSG_LENGTH
      in \<lparr>oe_correlation_id = correlation_id, oe_error_code = error_code, oe_error_msg_len = len,
          oe_error_msg = overwrite (replicate MAX_ERROR_MSG_LENGTH 0) 0 (take len msg)\<rparr>)"

definition error_str :: "operation_error \<Rightarrow> (unit, byte list option) outcome" where
  "error_str r = str_prefix (oe_error_msg r) (oe_error_msg_len r)"

section \<open>The codecs meet the contract\<close>

lemma wire_len_of_nat:
  assumes "bslice off 4 buf = le_bytes 4 (of_nat n :: i32)" "n \<le> 2 ^ 30"
  shows "wire_len buf off = n"
  using assms by (simp add: wire_len_def read_i32_def unat_scast_of_nat)

definition add_publication_wf :: "add_publication_cmd \<Rightarrow> bool" where
  "add_publication_wf c \<longleftrightarrow>
     length (ap_channel_uri c) = MAX_CHANNEL_URI_LENGTH \<and> ap_channel_uri_len c \<le> MAX_CHANNEL_URI_LENGTH"

definition add_subscription_wf :: "add_subscription \<Rightarrow> bool" where
  "add_subscription_wf c \<longleftrightarrow>
     length (as_channel_uri c) = MAX_CHANNEL_URI_LENGTH \<and> as_channel_uri_len c \<le> MAX_CHANNEL_URI_LENGTH"

definition operation_error_wf :: "operation_error \<Rightarrow> bool" where
  "operation_error_wf r \<longleftrightarrow>
     length (oe_error_msg r) = MAX_ERROR_MSG_LENGTH \<and> oe_error_msg_len r \<le> MAX_ERROR_MSG_LENGTH"

interpretation addpub: message_codec ADD_PUBLICATION_LENGTH add_publication_bytes add_publication_decode add_publication_wf
proof unfold_locales
  fix h :: add_publication_cmd and rest
  assume wf: "add_publication_wf h"
  show "length (add_publication_bytes h) = ADD_PUBLICATION_LENGTH"
    using wf by (simp add: add_publication_wf_def add_publication_bytes_def command_lengths)
  have "wire_len (add_publication_bytes h @ rest) 20 = ap_channel_uri_len h"
    using wf by (intro wire_len_of_nat)
      (simp_all add: add_publication_wf_def add_publication_bytes_def command_lengths bslice_def)
  then show "add_publication_decode (add_publication_bytes h @ rest) = Some h"
    using wf
    by (simp add: add_publication_decode_def Let_def add_publication_wf_def add_publication_bytes_def
        command_lengths le_simps bslice_def)
qed (auto simp: add_publication_decode_def add_publication_wf_def command_lengths Let_def split: if_splits)

interpretation addsub: message_codec ADD_SUBSCRIPTION_LENGTH add_subscription_bytes add_subscription_decode add_subscription_wf
proof unfold_locales
  fix h :: add_subscription and rest
  assume wf: "add_subscription_wf h"
  show "length (add_subscription_bytes h) = ADD_SUBSCRIPTION_LENGTH"
    using wf by (simp add: add_subscription_wf_def add_subscription_bytes_def command_lengths)
  have "wire_len (add_subscription_bytes h @ rest) 20 = as_channel_uri_len h"
    using wf by (intro wire_len_of_nat)
      (simp_all add: add_subscription_wf_def add_subscription_bytes_def command_lengths bslice_def)
  then show "add_subscription_decode (add_subscription_bytes h @ rest) = Some h"
    using wf
    by (simp add: add_subscription_decode_def Let_def add_subscription_wf_def add_subscription_bytes_def
        command_lengths le_simps bslice_def)
qed (auto simp: add_subscription_decode_def add_subscription_wf_def command_lengths Let_def split: if_splits)

interpretation operr: message_codec OPERATION_ERROR_LENGTH operation_error_bytes operation_error_decode operation_error_wf
proof unfold_locales
  fix h :: operation_error and rest
  assume wf: "operation_error_wf h"
  show "length (operation_error_bytes h) = OPERATION_ERROR_LENGTH"
    using wf by (simp add: operation_error_wf_def operation_error_bytes_def command_lengths)
  have "wire_len (operation_error_bytes h @ rest) 12 = oe_error_msg_len h"
    using wf by (intro wire_len_of_nat)
      (simp_all add: operation_error_wf_def operation_error_bytes_def command_lengths bslice_def)
  then show "operation_error_decode (operation_error_bytes h @ rest) = Some h"
    using wf
    by (simp add: operation_error_decode_def Let_def operation_error_wf_def operation_error_bytes_def
        command_lengths le_simps bslice_def)
qed (auto simp: operation_error_decode_def operation_error_wf_def command_lengths Let_def split: if_splits)

interpretation rempub: wire_struct REMOVE_PUBLICATION_LENGTH remove_publication_bytes remove_publication_view
  by unfold_locales (simp_all add: remove_publication_bytes_def remove_publication_view_def command_lengths le_simps)

interpretation remsub: wire_struct REMOVE_SUBSCRIPTION_LENGTH remove_subscription_bytes remove_subscription_view
  by unfold_locales (simp_all add: remove_subscription_bytes_def remove_subscription_view_def command_lengths le_simps)

interpretation keepalive: wire_struct CLIENT_KEEPALIVE_LENGTH client_keepalive_bytes client_keepalive_view
  by unfold_locales (simp_all add: client_keepalive_bytes_def client_keepalive_view_def command_lengths le_simps)

interpretation pubready: wire_struct PUBLICATION_READY_LENGTH publication_ready_bytes publication_ready_view
  by unfold_locales (simp_all add: publication_ready_bytes_def publication_ready_view_def command_lengths le_simps)

interpretation subready: wire_struct SUBSCRIPTION_READY_LENGTH subscription_ready_bytes subscription_ready_view
  by unfold_locales (simp_all add: subscription_ready_bytes_def subscription_ready_view_def command_lengths le_simps)

lemmas command_codecs =
  add_publication_encode_def add_subscription_encode_def operation_error_encode_def remove_publication_encode_def
  remove_subscription_encode_def client_keepalive_encode_def publication_ready_encode_def
  subscription_ready_encode_def remove_publication_decode_def remove_subscription_decode_def
  client_keepalive_decode_def publication_ready_decode_def subscription_ready_decode_def

lemma from_channel_wf:
  "add_publication_from_channel cid client stream channel = Some c \<Longrightarrow>
     add_publication_wf c \<and> (utf8_valid channel \<longrightarrow> add_publication_channel_str c = Ok (Some channel))"
  "add_subscription_from_channel cid client stream channel = Some c' \<Longrightarrow>
     add_subscription_wf c' \<and> (utf8_valid channel \<longrightarrow> add_subscription_channel_str c' = Ok (Some channel))"
  by (auto simp: add_publication_from_channel_def add_subscription_from_channel_def add_publication_wf_def
      add_subscription_wf_def add_publication_channel_str_def add_subscription_channel_str_def str_prefix_def
      overwrite_def split: if_splits)

lemma from_message_wf: "operation_error_wf (operation_error_from_message cid code msg)"
  by (simp add: operation_error_from_message_def operation_error_wf_def Let_def)

text \<open>The accessors never panic on a decoded message, whatever the bytes were.\<close>

lemma decoded_strings:
  "add_publication_decode buf = Some c \<Longrightarrow> add_publication_channel_str c \<noteq> Fault"
  "add_subscription_decode buf = Some c' \<Longrightarrow> add_subscription_channel_str c' \<noteq> Fault"
  "operation_error_decode buf = Some r \<Longrightarrow> error_str r \<noteq> Fault"
  using addpub.decode_wf [of buf c] addsub.decode_wf [of buf c'] operr.decode_wf [of buf r]
  by (simp_all add: add_publication_wf_def add_subscription_wf_def operation_error_wf_def str_prefix_def
      add_publication_channel_str_def add_subscription_channel_str_def error_str_def)

lemma from_message_str:
  assumes "utf8_valid msg" "length msg \<le> MAX_ERROR_MSG_LENGTH"
  shows "error_str (operation_error_from_message cid code msg) = Ok (Some msg)"
  using assms by (simp add: error_str_def str_prefix_def operation_error_from_message_def overwrite_def Let_def)

text \<open>A longer message is cut at 256 bytes, which may be inside a character: then the text cannot be read.\<close>

lemma utf8_ascii: "utf8_valid (replicate n 97 @ bs) \<longleftrightarrow> utf8_valid bs"
  by (induction n) simp_all

lemma cut_message_unreadable:
  "utf8_valid (replicate 255 97 @ [195, 169])"
  "error_str (operation_error_from_message cid code (replicate 255 97 @ [195, 169])) = Ok None"
proof -
  show "utf8_valid (replicate 255 97 @ [195, 169])" by (simp add: utf8_ascii utf8_cont_def)
  have "\<not> utf8_valid (replicate 255 97 @ [195])" by (simp add: utf8_ascii)
  then show "error_str (operation_error_from_message cid code (replicate 255 97 @ [195, 169])) = Ok None"
    by (simp add: error_str_def str_prefix_def operation_error_from_message_def overwrite_def
        MAX_ERROR_MSG_LENGTH_def Let_def)
qed



end
