(* ===== verification/Conductor.thy ===== *)
theory Conductor
  imports Cnc_File Command
begin

text \<open>
  The conductor agent (\<^verbatim>\<open>src/src/agent/conductor.rs\<close>): it reads client commands from the mapped ring buffer,
  queues commands for the sender and the receiver agent, and answers on the broadcast buffer.

  The two internal queues are ring buffers of their own; the handles that sender and receiver poll share their
  memory, so a queue is one value that the conductor writes and the agent reads.
\<close>

section \<open>Internal commands\<close>

datatype sender_command =
  AddPublication i64 i32 i32 i32 nat nat
| RemovePublication i64 i64

datatype receiver_command =
  AddSubscription i64 i32
| RemoveSubscription i64 i64

definition INTERNAL_CMD_ADD_PUB :: i32 where "INTERNAL_CMD_ADD_PUB = 1"
definition INTERNAL_CMD_REMOVE_PUB :: i32 where "INTERNAL_CMD_REMOVE_PUB = 2"
definition INTERNAL_CMD_ADD_SUB :: i32 where "INTERNAL_CMD_ADD_SUB = 1"
definition INTERNAL_CMD_REMOVE_SUB :: i32 where "INTERNAL_CMD_REMOVE_SUB = 2"

lemmas internal_types =
  INTERNAL_CMD_ADD_PUB_def INTERNAL_CMD_REMOVE_PUB_def INTERNAL_CMD_ADD_SUB_def INTERNAL_CMD_REMOVE_SUB_def

fun encode_sender_cmd :: "sender_command \<Rightarrow> byte list \<Rightarrow> byte list \<times> i32 \<times> nat" where
  "encode_sender_cmd (AddPublication correlation_id stream_id session_id initial_term_id term_length mtu) buf =
     (overwrite buf 0
        (le_bytes 8 correlation_id @ le_bytes 4 stream_id @ le_bytes 4 session_id @ le_bytes 4 initial_term_id @
         le_bytes 4 (of_nat term_length :: 32 word) @ le_bytes 4 (of_nat mtu :: 32 word)),
      INTERNAL_CMD_ADD_PUB, 28)"
| "encode_sender_cmd (RemovePublication correlation_id registration_id) buf =
     (overwrite buf 0 (le_bytes 8 correlation_id @ le_bytes 8 registration_id), INTERNAL_CMD_REMOVE_PUB, 16)"

definition decode_sender_cmd :: "i32 \<Rightarrow> byte list \<Rightarrow> sender_command option" where
  "decode_sender_cmd msg_type data =
     (if msg_type = INTERNAL_CMD_ADD_PUB \<and> 28 \<le> length data
      then Some (AddPublication (read_i64 data 0) (read_i32 data 8) (read_i32 data 12) (read_i32 data 16)
                   (unat (read_i32 data 20)) (unat (read_i32 data 24)))
      else if msg_type = INTERNAL_CMD_REMOVE_PUB \<and> 16 \<le> length data
      then Some (RemovePublication (read_i64 data 0) (read_i64 data 8))
      else None)"

fun encode_receiver_cmd :: "receiver_command \<Rightarrow> byte list \<Rightarrow> byte list \<times> i32 \<times> nat" where
  "encode_receiver_cmd (AddSubscription correlation_id stream_id) buf =
     (overwrite buf 0 (le_bytes 8 correlation_id @ le_bytes 4 stream_id), INTERNAL_CMD_ADD_SUB, 12)"
| "encode_receiver_cmd (RemoveSubscription correlation_id registration_id) buf =
     (overwrite buf 0 (le_bytes 8 correlation_id @ le_bytes 8 registration_id), INTERNAL_CMD_REMOVE_SUB, 16)"

definition decode_receiver_cmd :: "i32 \<Rightarrow> byte list \<Rightarrow> receiver_command option" where
  "decode_receiver_cmd msg_type data =
     (if msg_type = INTERNAL_CMD_ADD_SUB \<and> 12 \<le> length data
      then Some (AddSubscription (read_i64 data 0) (read_i32 data 8))
      else if msg_type = INTERNAL_CMD_REMOVE_SUB \<and> 16 \<le> length data
      then Some (RemoveSubscription (read_i64 data 0) (read_i64 data 8))
      else None)"

section \<open>The agent\<close>

definition INTERNAL_QUEUE_CAPACITY :: nat where "INTERNAL_QUEUE_CAPACITY = 4096"
definition MAX_CLIENTS :: nat where "MAX_CLIENTS = 64"
definition MAX_CMDS_PER_CYCLE :: nat where "MAX_CMDS_PER_CYCLE = 32"

record client_entry =
  ce_client_id :: i64
  ce_last_keepalive_ns :: i64
  ce_active :: bool

record conductor_agent =
  ca_cnc :: driver_cnc
  ca_to_sender :: mpsc_ring_buffer
  ca_to_receiver :: mpsc_ring_buffer
  ca_next_registration_id :: i64
  ca_next_session_id :: i32
  ca_clients :: "client_entry list"
  ca_client_count :: nat
  ca_driver_timeout_ns :: i64
  ca_scratch :: "byte list"

definition conductor_new :: "driver_cnc \<Rightarrow> i64 \<Rightarrow> ring_buffer_error + conductor_agent" where
  "conductor_new cnc driver_timeout_ns =
     (case new_heap_ring_buffer INTERNAL_QUEUE_CAPACITY of
        Inl err \<Rightarrow> Inl err
      | Inr to_sender \<Rightarrow>
          (case new_heap_ring_buffer INTERNAL_QUEUE_CAPACITY of
             Inl err \<Rightarrow> Inl err
           | Inr to_receiver \<Rightarrow>
               Inr \<lparr>ca_cnc = cnc, ca_to_sender = to_sender, ca_to_receiver = to_receiver,
                    ca_next_registration_id = 1, ca_next_session_id = 1,
                    ca_clients = replicate MAX_CLIENTS \<lparr>ce_client_id = 0, ce_last_keepalive_ns = 0, ce_active = False\<rparr>,
                    ca_client_count = 0, ca_driver_timeout_ns = driver_timeout_ns,
                    ca_scratch = replicate 512 0\<rparr>))"

definition alloc_registration_id :: "conductor_agent \<Rightarrow> conductor_agent \<times> i64" where
  "alloc_registration_id ca =
     (ca\<lparr>ca_next_registration_id := ca_next_registration_id ca + 1\<rparr>, ca_next_registration_id ca)"

definition alloc_session_id :: "conductor_agent \<Rightarrow> conductor_agent \<times> i32" where
  "alloc_session_id ca = (ca\<lparr>ca_next_session_id := ca_next_session_id ca + 1\<rparr>, ca_next_session_id ca)"

definition touch_client :: "conductor_agent \<Rightarrow> i64 \<Rightarrow> i64 \<Rightarrow> conductor_agent" where
  "touch_client ca client_id now_ns =
     (case find (\<lambda>i. ce_active (ca_clients ca ! i) \<and> ce_client_id (ca_clients ca ! i) = client_id)
             [0..<ca_client_count ca] of
        Some i \<Rightarrow>
          ca\<lparr>ca_clients := (ca_clients ca)[i := (ca_clients ca ! i)\<lparr>ce_last_keepalive_ns := now_ns\<rparr>]\<rparr>
      | None \<Rightarrow>
          if ca_client_count ca < MAX_CLIENTS
          then ca\<lparr>ca_clients := (ca_clients ca)[ca_client_count ca :=
                     \<lparr>ce_client_id = client_id, ce_last_keepalive_ns = now_ns, ce_active = True\<rparr>],
                  ca_client_count := ca_client_count ca + 1\<rparr>
          else ca)"

text \<open>\<open>let _ = queue.write(..)\<close>: a refused write is dropped.\<close>

definition queue_write :: "mpsc_ring_buffer \<Rightarrow> i32 \<Rightarrow> byte list \<Rightarrow> mpsc_ring_buffer" where
  "queue_write rb msg_type payload = (case ring_write rb msg_type payload of Inl err \<Rightarrow> rb | Inr rb' \<Rightarrow> rb')"

definition queue_sender_cmd :: "conductor_agent \<Rightarrow> sender_command \<Rightarrow> conductor_agent" where
  "queue_sender_cmd ca cmd =
     (let (buf, msg_type, len) = encode_sender_cmd cmd (replicate 64 0)
      in ca\<lparr>ca_to_sender := queue_write (ca_to_sender ca) msg_type (take len buf)\<rparr>)"

definition queue_receiver_cmd :: "conductor_agent \<Rightarrow> receiver_command \<Rightarrow> conductor_agent" where
  "queue_receiver_cmd ca cmd =
     (let (buf, msg_type, len) = encode_receiver_cmd cmd (replicate 64 0)
      in ca\<lparr>ca_to_receiver := queue_write (ca_to_receiver ca) msg_type (take len buf)\<rparr>)"

text \<open>A response is encoded into the scratch buffer and transmitted; a refused transmission is dropped.\<close>

definition respond :: "conductor_agent \<Rightarrow> i32 \<Rightarrow> (byte list \<Rightarrow> (byte list \<times> nat) option) \<Rightarrow> conductor_agent" where
  "respond ca msg_type encode =
     (case encode (ca_scratch ca) of
        None \<Rightarrow> ca
      | Some (scratch, len) \<Rightarrow>
          (case cnc_transmit (ca_cnc ca) msg_type (take len scratch) of
             Inl err \<Rightarrow> ca\<lparr>ca_scratch := scratch\<rparr>
           | Inr cnc \<Rightarrow> ca\<lparr>ca_scratch := scratch, ca_cnc := cnc\<rparr>))"

definition handle_add_publication :: "conductor_agent \<Rightarrow> add_publication_cmd \<Rightarrow> i64 \<Rightarrow> conductor_agent" where
  "handle_add_publication ca cmd now_ns =
     (let ca1 = touch_client ca (ap_client_id cmd) now_ns;
          (ca2, registration_id) = alloc_registration_id ca1;
          (ca3, session_id) = alloc_session_id ca2;
          ca4 = queue_sender_cmd ca3
                  (AddPublication (ap_correlation_id cmd) (ap_stream_id cmd) session_id 0 (64 * 1024) 1408)
      in respond ca4 RSP_PUBLICATION_READY
           (publication_ready_encode
              \<lparr>pr_correlation_id = ap_correlation_id cmd, pr_registration_id = registration_id,
               pr_session_id = session_id, pr_stream_id = ap_stream_id cmd,
               pr_position_limit_counter_id = 0, pr_channel_status_indicator_id = 0\<rparr>))"

definition handle_remove_publication :: "conductor_agent \<Rightarrow> remove_publication \<Rightarrow> conductor_agent" where
  "handle_remove_publication ca cmd =
     queue_sender_cmd ca (RemovePublication (rp_correlation_id cmd) (rp_registration_id cmd))"

definition handle_add_subscription :: "conductor_agent \<Rightarrow> add_subscription \<Rightarrow> i64 \<Rightarrow> conductor_agent" where
  "handle_add_subscription ca cmd now_ns =
     (let ca1 = touch_client ca (as_client_id cmd) now_ns;
          ca2 = queue_receiver_cmd ca1 (AddSubscription (as_correlation_id cmd) (as_stream_id cmd))
      in respond ca2 RSP_SUBSCRIPTION_READY
           (subscription_ready_encode
              \<lparr>sr_correlation_id = as_correlation_id cmd, sr_channel_status_indicator_id = 0\<rparr>))"

definition handle_remove_subscription :: "conductor_agent \<Rightarrow> remove_subscription \<Rightarrow> conductor_agent" where
  "handle_remove_subscription ca cmd =
     queue_receiver_cmd ca (RemoveSubscription (rs_correlation_id cmd) (rs_registration_id cmd))"

definition process_command :: "conductor_agent \<Rightarrow> i32 \<Rightarrow> byte list \<Rightarrow> i64 \<Rightarrow> conductor_agent" where
  "process_command ca msg_type payload now_ns =
     (if msg_type = CMD_ADD_PUBLICATION then
        (case add_publication_decode payload of Some cmd \<Rightarrow> handle_add_publication ca cmd now_ns | None \<Rightarrow> ca)
      else if msg_type = CMD_REMOVE_PUBLICATION then
        (case remove_publication_decode payload of Some cmd \<Rightarrow> handle_remove_publication ca cmd | None \<Rightarrow> ca)
      else if msg_type = CMD_ADD_SUBSCRIPTION then
        (case add_subscription_decode payload of Some cmd \<Rightarrow> handle_add_subscription ca cmd now_ns | None \<Rightarrow> ca)
      else if msg_type = CMD_REMOVE_SUBSCRIPTION then
        (case remove_subscription_decode payload of Some cmd \<Rightarrow> handle_remove_subscription ca cmd | None \<Rightarrow> ca)
      else if msg_type = CMD_CLIENT_KEEPALIVE then
        (case client_keepalive_decode payload of Some cmd \<Rightarrow> touch_client ca (ck_client_id cmd) now_ns | None \<Rightarrow> ca)
      else ca)"

text \<open>The commands a cycle collects from the callback of the read: the first 32, each cut at 512 bytes.\<close>

definition collect_commands :: "message list \<Rightarrow> message list" where
  "collect_commands msgs = map (\<lambda>(t, data). (t, take 512 data)) (take MAX_CMDS_PER_CYCLE msgs)"

definition conductor_do_work ::
  "conductor_agent \<Rightarrow> i64 \<Rightarrow> i64 \<Rightarrow> (unit, conductor_agent \<times> i32) outcome option" where
  "conductor_do_work ca now_ns now_ms =
     map_option (\<lambda>r. outcome_bind r (\<lambda>(cnc, msgs).
         let ca1 = foldl (\<lambda>ca (msg_type, payload). process_command ca msg_type payload now_ns)
                     (ca\<lparr>ca_cnc := cnc\<rparr>) (collect_commands msgs)
         in Ok (ca1\<lparr>ca_cnc := update_heartbeat (ca_cnc ca1) now_ms\<rparr>, of_nat (length msgs))))
       (cnc_read (ca_cnc ca))"

section \<open>The agents' ends of the queues\<close>

definition poll_sender_queue :: "mpsc_ring_buffer \<Rightarrow> (unit, mpsc_ring_buffer \<times> sender_command list) outcome option" where
  "poll_sender_queue rb =
     map_option (\<lambda>r. outcome_bind r (\<lambda>(rb', msgs).
         Ok (rb', List.map_filter (\<lambda>(msg_type, data). decode_sender_cmd msg_type data) msgs)))
       (ring_read rb)"

definition poll_receiver_queue :: "mpsc_ring_buffer \<Rightarrow> (unit, mpsc_ring_buffer \<times> receiver_command list) outcome option" where
  "poll_receiver_queue rb =
     map_option (\<lambda>r. outcome_bind r (\<lambda>(rb', msgs).
         Ok (rb', List.map_filter (\<lambda>(msg_type, data). decode_receiver_cmd msg_type data) msgs)))
       (ring_read rb)"

section \<open>What clients ask for and what follows from it\<close>

datatype client_command =
  ClientAddPublication add_publication_cmd
| ClientRemovePublication remove_publication
| ClientAddSubscription add_subscription
| ClientRemoveSubscription remove_subscription
| ClientKeepalive client_keepalive
| ClientClose client_keepalive

fun command_message :: "client_command \<Rightarrow> message" where
  "command_message (ClientAddPublication c) = (CMD_ADD_PUBLICATION, add_publication_bytes c)"
| "command_message (ClientRemovePublication c) = (CMD_REMOVE_PUBLICATION, remove_publication_bytes c)"
| "command_message (ClientAddSubscription c) = (CMD_ADD_SUBSCRIPTION, add_subscription_bytes c)"
| "command_message (ClientRemoveSubscription c) = (CMD_REMOVE_SUBSCRIPTION, remove_subscription_bytes c)"
| "command_message (ClientKeepalive c) = (CMD_CLIENT_KEEPALIVE, client_keepalive_bytes c)"
| "command_message (ClientClose c) = (CMD_CLIENT_CLOSE, client_keepalive_bytes c)"

fun command_wf :: "client_command \<Rightarrow> bool" where
  "command_wf (ClientAddPublication c) \<longleftrightarrow> add_publication_wf c"
| "command_wf (ClientAddSubscription c) \<longleftrightarrow> add_subscription_wf c"
| "command_wf _ \<longleftrightarrow> True"

text \<open>
  The specification of the conductor: the commands for the sender, the commands for the receiver and the responses,
  with registration and session ids counted up from the given ones.
\<close>

definition ready_response :: "add_publication_cmd \<Rightarrow> i64 \<Rightarrow> i32 \<Rightarrow> message" where
  "ready_response c reg sess =
     (RSP_PUBLICATION_READY, publication_ready_bytes
        \<lparr>pr_correlation_id = ap_correlation_id c, pr_registration_id = reg, pr_session_id = sess,
         pr_stream_id = ap_stream_id c, pr_position_limit_counter_id = 0, pr_channel_status_indicator_id = 0\<rparr>)"

definition subscribed_response :: "add_subscription \<Rightarrow> message" where
  "subscribed_response c =
     (RSP_SUBSCRIPTION_READY, subscription_ready_bytes
        \<lparr>sr_correlation_id = as_correlation_id c, sr_channel_status_indicator_id = 0\<rparr>)"

fun dispatch :: "i64 \<Rightarrow> i32 \<Rightarrow> client_command list \<Rightarrow> sender_command list \<times> receiver_command list \<times> message list" where
  "dispatch reg sess [] = ([], [], [])"
| "dispatch reg sess (ClientAddPublication c # cs) =
     (let (s, r, out) = dispatch (reg + 1) (sess + 1) cs
      in (AddPublication (ap_correlation_id c) (ap_stream_id c) sess 0 65536 1408 # s, r, ready_response c reg sess # out))"
| "dispatch reg sess (ClientRemovePublication c # cs) =
     (let (s, r, out) = dispatch reg sess cs
      in (RemovePublication (rp_correlation_id c) (rp_registration_id c) # s, r, out))"
| "dispatch reg sess (ClientAddSubscription c # cs) =
     (let (s, r, out) = dispatch reg sess cs
      in (s, AddSubscription (as_correlation_id c) (as_stream_id c) # r, subscribed_response c # out))"
| "dispatch reg sess (ClientRemoveSubscription c # cs) =
     (let (s, r, out) = dispatch reg sess cs
      in (s, RemoveSubscription (rs_correlation_id c) (rs_registration_id c) # r, out))"
| "dispatch reg sess (ClientKeepalive c # cs) = dispatch reg sess cs"
| "dispatch reg sess (ClientClose c # cs) = dispatch reg sess cs"

section \<open>The internal queues carry commands\<close>

definition sender_message :: "sender_command \<Rightarrow> message" where
  "sender_message cmd = (let (buf, msg_type, len) = encode_sender_cmd cmd (replicate 64 0) in (msg_type, take len buf))"

definition receiver_message :: "receiver_command \<Rightarrow> message" where
  "receiver_message cmd = (let (buf, msg_type, len) = encode_receiver_cmd cmd (replicate 64 0) in (msg_type, take len buf))"

fun sender_cmd_wf :: "sender_command \<Rightarrow> bool" where
  "sender_cmd_wf (AddPublication c st se i term_length mtu) \<longleftrightarrow> term_length < 2 ^ 32 \<and> mtu < 2 ^ 32"
| "sender_cmd_wf (RemovePublication c r) \<longleftrightarrow> True"

lemma read_single: "read_i32 (le_bytes 4 w) 0 = w" "read_i64 (le_bytes 8 v) 0 = v"
  using read_i32_head [of w "[]"] read_i64_head [of v "[]"] by simp_all

lemma decode_sender_message:
  "sender_cmd_wf cmd \<Longrightarrow> decode_sender_cmd (fst (sender_message cmd)) (snd (sender_message cmd)) = Some cmd"
  by (cases cmd) (simp_all add: sender_message_def decode_sender_cmd_def internal_types overwrite_def le_simps read_single unat_of_nat_lt)

lemma decode_receiver_message:
  "decode_receiver_cmd (fst (receiver_message cmd)) (snd (receiver_message cmd)) = Some cmd"
  by (cases cmd) (simp_all add: receiver_message_def decode_receiver_cmd_def internal_types overwrite_def le_simps read_single)

lemma internal_message_size:
  "length (snd (sender_message cmd)) \<le> 28" "length (snd (receiver_message cmd')) \<le> 28"
  "fst (sender_message cmd) \<noteq> 0" "fst (sender_message cmd) \<noteq> MSG_TYPE_PADDING"
  "fst (receiver_message cmd') \<noteq> 0" "fst (receiver_message cmd') \<noteq> MSG_TYPE_PADDING"
  by (cases cmd; cases cmd'; simp add: sender_message_def receiver_message_def internal_types MSG_TYPE_PADDING_def)+

lemma map_filter_decode:
  "(\<And>x. x \<in> set xs \<Longrightarrow> f (g x) = Some x) \<Longrightarrow> List.map_filter f (map g xs) = xs"
  by (induction xs) (simp_all add: List.map_filter_simps)

text \<open>The state of a queue: the commands in it and a bound on the bytes in use.\<close>

definition queue_at :: "mpsc_ring_buffer \<Rightarrow> message list \<Rightarrow> nat \<Rightarrow> bool" where
  "queue_at rb q u \<longleftrightarrow> ring_load rb q u \<and> rb_capacity rb = INTERNAL_QUEUE_CAPACITY"

lemma queue_write_at:
  assumes "queue_at rb q u" "length p \<le> 56" "m \<noteq> 0" "m \<noteq> MSG_TYPE_PADDING" "u + 128 \<le> INTERNAL_QUEUE_CAPACITY"
  shows "queue_at (queue_write rb m p) (q @ [(m, p)]) (u + 128)"
proof -
  have a: "align_record (length p + 8) \<le> 64"
    using assms(2) align_least [of "length p + 8" 64] by (simp add: align_record_eq)
  have i: "ring_load rb q u" "rb_capacity rb = INTERNAL_QUEUE_CAPACITY" using assms(1) by (simp_all add: queue_at_def)
  from ring_load_write [OF i(1) _ _ assms(3,4), of p] i(2) a assms(2,5) obtain rb' where
    "ring_write rb m p = Inr rb'" "ring_load rb' (q @ [(m, p)]) (u + 2 * align_record (length p + 8))"
    "rb_capacity rb' = rb_capacity rb"
    by (auto simp: INTERNAL_QUEUE_CAPACITY_def)
  then show ?thesis using a i(2) by (fastforce simp: queue_at_def queue_write_def ring_load_def)
qed

section \<open>One command\<close>

text \<open>
  The state after some commands of a cycle: what is queued for sender and receiver, what a client at position \<open>c\<close> will
  receive, and bounds on the bytes used in the two queues and in the broadcast buffer since the client's position.
\<close>

definition conductor_at ::
  "nat \<Rightarrow> nat \<Rightarrow> conductor_agent \<Rightarrow> message list \<Rightarrow> sender_command list \<Rightarrow> receiver_command list \<Rightarrow> nat \<Rightarrow> message list \<Rightarrow>
   nat \<times> nat \<times> nat \<Rightarrow> i64 \<Rightarrow> i32 \<Rightarrow> bool" where
  "conductor_at dcap ccap ca cmds sq rq c out u reg sess \<longleftrightarrow>
     queue_at (ca_to_sender ca) (map sender_message sq) (fst u) \<and> list_all sender_cmd_wf sq \<and>
     queue_at (ca_to_receiver ca) (map receiver_message rq) (fst (snd u)) \<and>
     (\<exists>rsps t. cnc_inv dcap ccap (ca_cnc ca) cmds c rsps t \<and> messages_of rsps = out \<and> t \<le> c + snd (snd u)) \<and>
     length (ca_scratch ca) = 512 \<and> ca_next_registration_id ca = reg \<and> ca_next_session_id ca = sess"

lemma queue_at_mono: "queue_at rb q u \<Longrightarrow> u \<le> v \<Longrightarrow> queue_at rb q v"
  by (fastforce simp: queue_at_def ring_load_def)

lemma conductor_at_mono:
  assumes "conductor_at dcap ccap ca cmds sq rq c out (us, ur, ub) reg sess" "us \<le> us'" "ur \<le> ur'" "ub \<le> ub'"
  shows "conductor_at dcap ccap ca cmds sq rq c out (us', ur', ub') reg sess"
proof -
  obtain rsps t where "cnc_inv dcap ccap (ca_cnc ca) cmds c rsps t" "messages_of rsps = out" "t \<le> c + ub'"
    using assms(1,4) by (force simp: conductor_at_def)
  then show ?thesis using assms queue_at_mono by (auto simp: conductor_at_def)
qed

lemma touch_client_at [simp]:
  "conductor_at dcap ccap (touch_client ca client now) cmds sq rq c out u reg sess =
   conductor_at dcap ccap ca cmds sq rq c out u reg sess"
  by (auto simp: touch_client_def conductor_at_def split: option.split)

lemma alloc_at:
  assumes "conductor_at dcap ccap ca cmds sq rq c out u reg sess"
  shows "conductor_at dcap ccap (fst (alloc_session_id (fst (alloc_registration_id ca)))) cmds sq rq c out u (reg + 1) (sess + 1)"
    "snd (alloc_registration_id ca) = reg" "snd (alloc_session_id (fst (alloc_registration_id ca))) = sess"
  using assms by (simp_all add: conductor_at_def alloc_registration_id_def alloc_session_id_def)

lemma queue_sender_at:
  assumes "conductor_at dcap ccap ca cmds sq rq c out (us, ur, ub) reg sess" "sender_cmd_wf cmd" "us + 128 \<le> 4096"
  shows "conductor_at dcap ccap (queue_sender_cmd ca cmd) cmds (sq @ [cmd]) rq c out (us + 128, ur, ub) reg sess"
proof -
  let ?m = "sender_message cmd"
  have "queue_at (queue_write (ca_to_sender ca) (fst ?m) (snd ?m)) (map sender_message sq @ [?m]) (us + 128)"
    using queue_write_at [of "ca_to_sender ca" "map sender_message sq" us "snd ?m" "fst ?m"] assms(1,3)
      internal_message_size(1,3,4) [of cmd] by (simp add: conductor_at_def INTERNAL_QUEUE_CAPACITY_def)
  moreover have "queue_sender_cmd ca cmd = ca\<lparr>ca_to_sender := queue_write (ca_to_sender ca) (fst ?m) (snd ?m)\<rparr>"
    by (simp add: queue_sender_cmd_def sender_message_def case_prod_beta)
  ultimately show ?thesis using assms(1,2) by (simp add: conductor_at_def)
qed

lemma queue_receiver_at:
  assumes "conductor_at dcap ccap ca cmds sq rq c out (us, ur, ub) reg sess" "ur + 128 \<le> 4096"
  shows "conductor_at dcap ccap (queue_receiver_cmd ca cmd) cmds sq (rq @ [cmd]) c out (us, ur + 128, ub) reg sess"
proof -
  let ?m = "receiver_message cmd"
  have "queue_at (queue_write (ca_to_receiver ca) (fst ?m) (snd ?m)) (map receiver_message rq @ [?m]) (ur + 128)"
    using queue_write_at [of "ca_to_receiver ca" "map receiver_message rq" ur "snd ?m" "fst ?m"] assms
      internal_message_size(2,5,6) [of cmd] by (simp add: conductor_at_def INTERNAL_QUEUE_CAPACITY_def)
  moreover have "queue_receiver_cmd ca cmd = ca\<lparr>ca_to_receiver := queue_write (ca_to_receiver ca) (fst ?m) (snd ?m)\<rparr>"
    by (simp add: queue_receiver_cmd_def receiver_message_def case_prod_beta)
  ultimately show ?thesis using assms(1) by (simp add: conductor_at_def)
qed

lemma next_tail_bound:
  assumes "n \<le> 56" "t \<le> c + u"
  shows "next_tail cap t n \<le> c + (u + 128)"
proof -
  have "align_record (n + 8) \<le> 64" using assms(1) align_least [of "n + 8" 64] by (simp add: align_record_eq)
  then show ?thesis using assms(2) by (auto simp: next_tail_def ring_constants Let_def)
qed

lemma respond_at:
  assumes at: "conductor_at dcap ccap ca cmds sq rq c out (us, ur, ub) reg sess"
    and enc: "encode (ca_scratch ca) = Some (scratch, n)" "length scratch = 512" "take n scratch = p" "length p \<le> 56"
    and room: "ub + 128 \<le> ccap" "m \<noteq> MSG_TYPE_PADDING"
  shows "conductor_at dcap ccap (respond ca m encode) cmds sq rq c (out @ [(m, p)]) (us, ur, ub + 128) reg sess"
proof -
  obtain rsps t where i: "cnc_inv dcap ccap (ca_cnc ca) cmds c rsps t" "messages_of rsps = out" "t \<le> c + ub"
    using at by (auto simp: conductor_at_def)
  have nt: "next_tail ccap t (length p) \<le> c + (ub + 128)" by (rule next_tail_bound [OF enc(4) i(3)])
  have "length p + RECORD_HEADER_LENGTH \<le> ccap" "next_tail ccap t (length p) \<le> c + ccap"
    using enc(4) room(1) nt by (simp_all add: ring_constants)
  from cnc_transmit_inv [OF i(1) this(1) room(2) this(2)] obtain cnc pads where
    t: "cnc_transmit (ca_cnc ca) m p = Inr cnc"
      "cnc_inv dcap ccap cnc cmds c (rsps @ pads @ [Msg m p]) (next_tail ccap t (length p))" "messages_of pads = []" by blast
  have "\<exists>rsps t. cnc_inv dcap ccap cnc cmds c rsps t \<and> messages_of rsps = out @ [(m, p)] \<and> t \<le> c + (ub + 128)"
    using t(2,3) i(2) nt by (intro exI [of _ "rsps @ pads @ [Msg m p]"] exI [of _ "next_tail ccap t (length p)"]) simp
  then show ?thesis using at enc(1-3) t(1) by (simp add: conductor_at_def respond_def)
qed

lemma scratch_encode:
  assumes "length scratch = 512"
  shows "publication_ready_encode r scratch = Some (publication_ready_bytes r @ drop 32 scratch, 32)"
    "take 32 (publication_ready_bytes r @ drop 32 scratch) = publication_ready_bytes r"
    "length (publication_ready_bytes r) = 32"
    "subscription_ready_encode s scratch = Some (subscription_ready_bytes s @ drop 12 scratch, 12)"
    "take 12 (subscription_ready_bytes s @ drop 12 scratch) = subscription_ready_bytes s"
    "length (subscription_ready_bytes s) = 12"
  using assms pubready.codec.encoded_prefix [where h = r and buf = scratch] pubready.length_bytes [of r]
    subready.codec.encoded_prefix [where h = s and buf = scratch] subready.length_bytes [of s]
  by (simp_all add: command_codecs command_lengths)

lemma respond_ready_at:
  assumes at: "conductor_at dcap ccap ca cmds sq rq c out (us, ur, ub) reg sess" and room: "ub + 128 \<le> ccap"
  shows "conductor_at dcap ccap (respond ca RSP_PUBLICATION_READY (publication_ready_encode r)) cmds sq rq c
      (out @ [(RSP_PUBLICATION_READY, publication_ready_bytes r)]) (us, ur, ub + 128) reg sess"
    "conductor_at dcap ccap (respond ca RSP_SUBSCRIPTION_READY (subscription_ready_encode s)) cmds sq rq c
      (out @ [(RSP_SUBSCRIPTION_READY, subscription_ready_bytes s)]) (us, ur, ub + 128) reg sess"
proof -
  have l: "length (ca_scratch ca) = 512" using at by (simp add: conductor_at_def)
  note e = scratch_encode [OF l]
  show "conductor_at dcap ccap (respond ca RSP_PUBLICATION_READY (publication_ready_encode r)) cmds sq rq c
      (out @ [(RSP_PUBLICATION_READY, publication_ready_bytes r)]) (us, ur, ub + 128) reg sess"
    by (rule respond_at [where encode = "publication_ready_encode r", OF at e(1) _ e(2) _ room])
      (simp_all add: e(3) l command_types MSG_TYPE_PADDING_def)
  show "conductor_at dcap ccap (respond ca RSP_SUBSCRIPTION_READY (subscription_ready_encode s)) cmds sq rq c
      (out @ [(RSP_SUBSCRIPTION_READY, subscription_ready_bytes s)]) (us, ur, ub + 128) reg sess"
    by (rule respond_at [where encode = "subscription_ready_encode s", OF at e(4) _ e(5) _ room])
      (simp_all add: e(6) l command_types MSG_TYPE_PADDING_def)
qed

lemma add_publication_at:
  assumes "conductor_at dcap ccap ca cmds sq rq c out (us, ur, ub) reg sess" "us + 128 \<le> 4096" "ub + 128 \<le> ccap"
  shows "conductor_at dcap ccap (handle_add_publication ca cmd now) cmds
    (sq @ [AddPublication (ap_correlation_id cmd) (ap_stream_id cmd) sess 0 65536 1408]) rq c
    (out @ [ready_response cmd reg sess]) (us + 128, ur, ub + 128) (reg + 1) (sess + 1)"
proof -
  let ?ca = "touch_client ca (ap_client_id cmd) now"
  let ?ca3 = "fst (alloc_session_id (fst (alloc_registration_id ?ca)))"
  let ?sc = "AddPublication (ap_correlation_id cmd) (ap_stream_id cmd) sess 0 65536 1408"
  have a: "conductor_at dcap ccap ?ca cmds sq rq c out (us, ur, ub) reg sess" using assms(1) by simp
  have q: "conductor_at dcap ccap (queue_sender_cmd ?ca3 ?sc) cmds (sq @ [?sc]) rq c out (us + 128, ur, ub) (reg + 1) (sess + 1)"
    using queue_sender_at [OF alloc_at(1) [OF a], of ?sc] assms(2) by simp
  show ?thesis
    unfolding handle_add_publication_def ready_response_def Let_def case_prod_beta alloc_at(2,3) [OF a]
    using respond_ready_at(1) [OF q assms(3)] by simp
qed

lemma add_subscription_at:
  assumes "conductor_at dcap ccap ca cmds sq rq c out (us, ur, ub) reg sess" "ur + 128 \<le> 4096" "ub + 128 \<le> ccap"
  shows "conductor_at dcap ccap (handle_add_subscription ca cmd now) cmds sq
    (rq @ [AddSubscription (as_correlation_id cmd) (as_stream_id cmd)]) c
    (out @ [subscribed_response cmd]) (us, ur + 128, ub + 128) reg sess"
proof -
  let ?rc = "AddSubscription (as_correlation_id cmd) (as_stream_id cmd)"
  let ?ca = "queue_receiver_cmd (touch_client ca (as_client_id cmd) now) ?rc"
  have q: "conductor_at dcap ccap ?ca cmds sq (rq @ [?rc]) c out (us, ur + 128, ub) reg sess"
    using queue_receiver_at [of dcap ccap "touch_client ca (as_client_id cmd) now"] assms(1,2) by simp
  show ?thesis
    unfolding handle_add_subscription_def subscribed_response_def Let_def by (rule respond_ready_at(2) [OF q assms(3)])
qed

text \<open>Whatever the command, it is carried out as specified and takes at most 128 bytes in each buffer.\<close>

lemma command_message_size:
  "command_wf cmd \<Longrightarrow> length (snd (command_message cmd)) \<le> 280"
  using addpub.encoded_length addsub.encoded_length rempub.length_bytes remsub.length_bytes keepalive.length_bytes
  by (cases cmd) (simp_all add: command_lengths)

lemma command_sendable: "ring_sendable (command_message cmd)"
  by (cases cmd) (simp_all add: ring_sendable_def command_types MSG_TYPE_PADDING_def)

lemma process_command_at:
  assumes "conductor_at dcap ccap ca cmds sq rq c out (u, u, u) reg sess" "u + 128 \<le> 4096" "u + 128 \<le> ccap" "command_wf cmd"
    and "dispatch reg sess [cmd] = (s, r, o')"
  shows "\<exists>reg' sess'. conductor_at dcap ccap (process_command ca (fst (command_message cmd)) (snd (command_message cmd)) now)
    cmds (sq @ s) (rq @ r) c (out @ o') (u + 128, u + 128, u + 128) reg' sess' \<and>
    (\<forall>cs. dispatch reg sess (cmd # cs) = (case dispatch reg' sess' cs of (s', r', o'') \<Rightarrow> (s @ s', r @ r', o' @ o'')))"
proof -
  note mono = conductor_at_mono [of dcap ccap _ cmds _ _ c]
  show ?thesis
  proof (cases cmd)
    case (ClientAddPublication x)
    then have "add_publication_decode (add_publication_bytes x) = Some x"
      using addpub.decode_encoded [of x "[]"] assms(4) by simp
    then show ?thesis using add_publication_at [OF assms(1,2,3), of x now] ClientAddPublication assms(5)
      by (intro exI [of _ "reg + 1"] exI [of _ "sess + 1"])
        (auto simp: process_command_def command_types case_prod_beta intro: mono)
  next
    case (ClientRemovePublication x)
    then have "remove_publication_decode (remove_publication_bytes x) = Some x"
      using rempub.parse_bytes [of x "[]"] by (simp add: command_codecs)
    then show ?thesis using queue_sender_at [OF assms(1) _ assms(2), of "RemovePublication (rp_correlation_id x) (rp_registration_id x)"]
        ClientRemovePublication assms(5)
      by (intro exI [of _ reg] exI [of _ sess])
        (auto simp: process_command_def handle_remove_publication_def command_types case_prod_beta intro: mono)
  next
    case (ClientAddSubscription x)
    then have "add_subscription_decode (add_subscription_bytes x) = Some x"
      using addsub.decode_encoded [of x "[]"] assms(4) by simp
    then show ?thesis using add_subscription_at [OF assms(1,2,3), of x now] ClientAddSubscription assms(5)
      by (intro exI [of _ reg] exI [of _ sess])
        (auto simp: process_command_def command_types case_prod_beta intro: mono)
  next
    case (ClientRemoveSubscription x)
    then have "remove_subscription_decode (remove_subscription_bytes x) = Some x"
      using remsub.parse_bytes [of x "[]"] by (simp add: command_codecs)
    then show ?thesis using queue_receiver_at [OF assms(1,2), of "RemoveSubscription (rs_correlation_id x) (rs_registration_id x)"]
        ClientRemoveSubscription assms(5)
      by (intro exI [of _ reg] exI [of _ sess])
        (auto simp: process_command_def handle_remove_subscription_def command_types case_prod_beta intro: mono)
  next
    case (ClientKeepalive x)
    then have "client_keepalive_decode (client_keepalive_bytes x) = Some x"
      using keepalive.parse_bytes [of x "[]"] by (simp add: command_codecs)
    then show ?thesis using assms(1,5) ClientKeepalive
      by (intro exI [of _ reg] exI [of _ sess])
        (auto simp: process_command_def command_types case_prod_beta intro: mono)
  next
    case ClientClose
    then show ?thesis using assms(1,5)
      by (intro exI [of _ reg] exI [of _ sess])
        (auto simp: process_command_def command_types case_prod_beta intro: mono)
  qed
qed

section \<open>One cycle\<close>

lemma process_commands_at:
  assumes "conductor_at dcap ccap ca cmds sq rq c out (u, u, u) reg sess" "list_all command_wf cs"
    and "u + 128 * length cs \<le> 4096" "u + 128 * length cs \<le> ccap" "dispatch reg sess cs = (s, r, o')"
  shows "\<exists>reg' sess'. conductor_at dcap ccap
    (foldl (\<lambda>ca (msg_type, payload). process_command ca msg_type payload now) ca (map command_message cs))
    cmds (sq @ s) (rq @ r) c (out @ o') (u + 128 * length cs, u + 128 * length cs, u + 128 * length cs) reg' sess'"
  using assms
proof (induction cs arbitrary: ca sq rq out u reg sess s r o')
  case (Cons cmd cs)
  obtain s1 r1 o1 where d1: "dispatch reg sess [cmd] = (s1, r1, o1)" by (metis prod_cases3)
  from process_command_at [OF Cons.prems(1) _ _ _ d1, of now] Cons.prems(2-4) obtain reg' sess' where
    p: "conductor_at dcap ccap (process_command ca (fst (command_message cmd)) (snd (command_message cmd)) now)
      cmds (sq @ s1) (rq @ r1) c (out @ o1) (u + 128, u + 128, u + 128) reg' sess'"
    "dispatch reg sess (cmd # cs) = (case dispatch reg' sess' cs of (s', r', o'') \<Rightarrow> (s1 @ s', r1 @ r', o1 @ o''))"
    by auto
  obtain s2 r2 o2 where d2: "dispatch reg' sess' cs = (s2, r2, o2)" by (metis prod_cases3)
  have "s = s1 @ s2" "r = r1 @ r2" "o' = o1 @ o2" using p(2) d2 Cons.prems(5) by simp_all
  with Cons.IH [OF p(1) _ _ _ d2] Cons.prems(2-4) show ?case
    by (auto simp: case_prod_beta algebra_simps)
qed auto

lemma collect_command_messages:
  "list_all command_wf cs \<Longrightarrow> collect_commands (map command_message cs) = map command_message (take MAX_CMDS_PER_CYCLE cs)"
proof -
  assume wf: "list_all command_wf cs"
  have "take 512 (snd (command_message c)) = snd (command_message c)" if "c \<in> set cs" for c
    using command_message_size [of c] wf that by (simp add: list_all_iff)
  then have "map (\<lambda>c. (fst (command_message c), take 512 (snd (command_message c)))) (take n cs) =
      map command_message (take n cs)" for n
    by (intro map_cong refl) (metis in_set_takeD prod.collapse)
  then show ?thesis by (simp add: collect_commands_def take_map comp_def case_prod_beta)
qed

lemma conductor_cycle:
  assumes "conductor_at dcap ccap ca (map command_message cs) [] [] c [] (0, 0, 0) reg sess"
    and "list_all command_wf cs" "4096 \<le> ccap" "dispatch reg sess (take MAX_CMDS_PER_CYCLE cs) = (s, r, o')"
  shows "\<exists>ca' u reg' sess'. conductor_do_work ca now_ns now_ms = Some (Ok (ca', of_nat (length cs))) \<and>
    conductor_at dcap ccap ca' [] s r c o' (u, u, u) reg' sess'"
proof -
  obtain rsps t where i: "cnc_inv dcap ccap (ca_cnc ca) (map command_message cs) c rsps t" "messages_of rsps = []" "t \<le> c"
    using assms(1) by (auto simp: conductor_at_def)
  from cnc_read_inv [OF i(1)] obtain cnc where
    cnc: "cnc_read (ca_cnc ca) = Some (Ok (cnc, map command_message cs))" "cnc_inv dcap ccap cnc [] c rsps t" by blast
  have at: "conductor_at dcap ccap (ca\<lparr>ca_cnc := cnc\<rparr>) [] [] [] c [] (0, 0, 0) reg sess"
    using assms(1) cnc(2) i(2,3) by (auto simp: conductor_at_def)
  let ?cs = "take MAX_CMDS_PER_CYCLE cs"
  let ?ca = "foldl (\<lambda>ca (msg_type, payload). process_command ca msg_type payload now_ns) (ca\<lparr>ca_cnc := cnc\<rparr>)
    (map command_message ?cs)"
  have len: "128 * length ?cs \<le> 4096" by (simp add: MAX_CMDS_PER_CYCLE_def)
  have "list_all command_wf ?cs" using assms(2) by (auto simp: list_all_iff dest: in_set_takeD)
  from process_commands_at [OF at this _ _ assms(4), of now_ns] len assms(3) obtain u reg' sess' where
    p: "conductor_at dcap ccap ?ca [] s r c o' (u, u, u) reg' sess'" by fastforce
  then have "conductor_at dcap ccap (?ca\<lparr>ca_cnc := update_heartbeat (ca_cnc ?ca) now_ms\<rparr>) [] s r c o' (u, u, u) reg' sess'"
    using update_heartbeat_inv(1) by (fastforce simp: conductor_at_def)
  moreover have "conductor_do_work ca now_ns now_ms =
      Some (Ok (?ca\<lparr>ca_cnc := update_heartbeat (ca_cnc ?ca) now_ms\<rparr>, of_nat (length cs)))"
    by (simp add: conductor_do_work_def cnc(1) collect_command_messages [OF assms(2)] Let_def)
  ultimately show ?thesis by blast
qed

lemma polled_commands:
  assumes "conductor_at dcap ccap ca cmds s r c o' u reg sess"
  shows "\<exists>rb. poll_sender_queue (ca_to_sender ca) = Some (Ok (rb, s))"
    "\<exists>rb. poll_receiver_queue (ca_to_receiver ca) = Some (Ok (rb, r))"
proof -
  have q: "ring_load (ca_to_sender ca) (map sender_message s) (fst u)" "list_all sender_cmd_wf s"
    "ring_load (ca_to_receiver ca) (map receiver_message r) (fst (snd u))"
    using assms by (auto simp: conductor_at_def queue_at_def)
  have "List.map_filter (\<lambda>(msg_type, data). decode_sender_cmd msg_type data) (map sender_message s) = s"
    using q(2) decode_sender_message by (intro map_filter_decode) (auto simp: list_all_iff case_prod_beta)
  then show "\<exists>rb. poll_sender_queue (ca_to_sender ca) = Some (Ok (rb, s))"
    using ring_load_read [OF q(1)] by (auto simp: poll_sender_queue_def)
  have "List.map_filter (\<lambda>(msg_type, data). decode_receiver_cmd msg_type data) (map receiver_message r) = r"
    using decode_receiver_message by (intro map_filter_decode) (auto simp: case_prod_beta)
  then show "\<exists>rb. poll_receiver_queue (ca_to_receiver ca) = Some (Ok (rb, r))"
    using ring_load_read [OF q(3)] by (auto simp: poll_receiver_queue_def)
qed

section \<open>Properties\<close>

lemma client_writes_at:
  assumes "conductor_at dcap ccap ca [] sq rq c out u reg sess" "cc_to_driver_capacity client = dcap"
    and "client_writes client (dc_base (ca_cnc ca)) (map command_message cs) = Some base"
  shows "conductor_at dcap ccap (ca\<lparr>ca_cnc := (ca_cnc ca)\<lparr>dc_base := base\<rparr>\<rparr>) (map command_message cs) sq rq c out u reg sess"
proof -
  obtain rsps t where i: "cnc_inv dcap ccap (ca_cnc ca) [] c rsps t" "messages_of rsps = out" "t \<le> c + snd (snd u)"
    using assms(1) by (auto simp: conductor_at_def)
  have "list_all ring_sendable (map command_message cs)" by (simp add: list_all_iff command_sendable)
  from client_writes_inv [OF i(1) assms(2) this assms(3)] show ?thesis
    using assms(1) i(2,3) by (auto simp: conductor_at_def)
qed

lemma conductor_client_receives:
  assumes "conductor_at dcap ccap ca cmds sq rq c out u reg sess" "client_at client dcap ccap c"
  shows "\<exists>client'. client_receive client (dc_base (ca_cnc ca)) = Some (Ok (client', out))"
proof -
  obtain rsps t where "cnc_inv dcap ccap (ca_cnc ca) cmds c rsps t" "messages_of rsps = out"
    using assms(1) by (auto simp: conductor_at_def)
  then show ?thesis using client_receive_all [of dcap ccap "ca_cnc ca" cmds c rsps t client] assms(2)
    by (auto simp: client_at_def)
qed

text \<open>
  C7: Commands are carried out end to end. Start from any state in which the two internal queues are drained and a
  client has read all responses. The client writes up to 32 well-formed commands into the mapped ring buffer.
  One cycle of the conductor consumes them; the sender agent then polls exactly the add and remove commands for
  publications, the receiver agent those for subscriptions, in order, and the client receives one ready response
  per add command with its correlation id, consecutive registration ids and the session id that the sender
  got.
\<close>

theorem conductor_serves_client:
  assumes "conductor_at dcap ccap ca [] [] [] c [] (0, 0, 0) reg sess" "client_at client dcap ccap c" "4096 \<le> ccap"
    and "list_all command_wf cs" "length cs \<le> MAX_CMDS_PER_CYCLE"
    and "client_writes client (dc_base (ca_cnc ca)) (map command_message cs) = Some base"
    and "dispatch reg sess cs = (s, r, out)"
  shows "\<exists>ca' sq rq client'.
    conductor_do_work (ca\<lparr>ca_cnc := (ca_cnc ca)\<lparr>dc_base := base\<rparr>\<rparr>) now_ns now_ms = Some (Ok (ca', of_nat (length cs))) \<and>
    poll_sender_queue (ca_to_sender ca') = Some (Ok (sq, s)) \<and>
    poll_receiver_queue (ca_to_receiver ca') = Some (Ok (rq, r)) \<and>
    client_receive client (dc_base (ca_cnc ca')) = Some (Ok (client', out))"
proof -
  have cap: "cc_to_driver_capacity client = dcap" using assms(2) by (simp add: client_at_def)
  have d: "dispatch reg sess (take MAX_CMDS_PER_CYCLE cs) = (s, r, out)" using assms(5,7) by simp
  from conductor_cycle [OF client_writes_at [OF assms(1) cap assms(6)] assms(4,3) d, of now_ns now_ms]
  obtain ca' u reg' sess' where
    w: "conductor_do_work (ca\<lparr>ca_cnc := (ca_cnc ca)\<lparr>dc_base := base\<rparr>\<rparr>) now_ns now_ms = Some (Ok (ca', of_nat (length cs)))"
    and at: "conductor_at dcap ccap ca' [] s r c out (u, u, u) reg' sess'" by blast
  show ?thesis using w polled_commands [OF at] conductor_client_receives [OF at assms(2)] by blast
qed

text \<open>
  C37: Commands beyond the thirty-second of a cycle are lost. The cycle takes all waiting commands out of the ring
  buffer and counts them as work, but only the first 32 are carried out; the next cycle finds nothing, so the
  others reach neither agent and get no response.
\<close>

theorem excess_commands_lost:
  assumes "conductor_at dcap ccap ca [] [] [] c [] (0, 0, 0) reg sess" "client_at client dcap ccap c" "4096 \<le> ccap"
    and "list_all command_wf cs" "MAX_CMDS_PER_CYCLE < length cs"
    and "client_writes client (dc_base (ca_cnc ca)) (map command_message cs) = Some base"
    and "dispatch reg sess (take MAX_CMDS_PER_CYCLE cs) = (s, r, out)"
  shows "\<exists>ca' ca'' sq rq client'.
    conductor_do_work (ca\<lparr>ca_cnc := (ca_cnc ca)\<lparr>dc_base := base\<rparr>\<rparr>) now_ns now_ms = Some (Ok (ca', of_nat (length cs))) \<and>
    conductor_do_work ca' now_ns' now_ms' = Some (Ok (ca'', 0)) \<and>
    poll_sender_queue (ca_to_sender ca'') = Some (Ok (sq, s)) \<and>
    poll_receiver_queue (ca_to_receiver ca'') = Some (Ok (rq, r)) \<and>
    client_receive client (dc_base (ca_cnc ca'')) = Some (Ok (client', out))"
proof -
  have cap: "cc_to_driver_capacity client = dcap" using assms(2) by (simp add: client_at_def)
  from conductor_cycle [OF client_writes_at [OF assms(1) cap assms(6)] assms(4,3,7), of now_ns now_ms]
  obtain ca' u reg' sess' where
    w: "conductor_do_work (ca\<lparr>ca_cnc := (ca_cnc ca)\<lparr>dc_base := base\<rparr>\<rparr>) now_ns now_ms = Some (Ok (ca', of_nat (length cs)))"
    and at: "conductor_at dcap ccap ca' [] s r c out (u, u, u) reg' sess'" by blast
  from at obtain rsps t where i: "cnc_inv dcap ccap (ca_cnc ca') [] c rsps t" "messages_of rsps = out" "t \<le> c + u"
    by (auto simp: conductor_at_def)
  from cnc_read_inv [OF i(1)] obtain cnc where
    cnc: "cnc_read (ca_cnc ca') = Some (Ok (cnc, []))" "cnc_inv dcap ccap cnc [] c rsps t" by blast
  let ?ca = "ca'\<lparr>ca_cnc := update_heartbeat cnc now_ms'\<rparr>"
  have w': "conductor_do_work ca' now_ns' now_ms' = Some (Ok (?ca, 0))"
    by (simp add: conductor_do_work_def cnc(1) collect_commands_def)
  have at': "conductor_at dcap ccap ?ca [] s r c out (u, u, u) reg' sess'"
    using at update_heartbeat_inv(1) [OF cnc(2)] i(2,3) by (auto simp: conductor_at_def)
  show ?thesis using w w' polled_commands [OF at'] conductor_client_receives [OF at' assms(2)] by blast
qed

text \<open>A new conductor with a client that has mapped the region.\<close>

lemma conductor_new_at:
  assumes "create_anonymous mmap pid now dcap ccap = Inr cnc" "dcap \<le> 2 ^ 30" "ccap \<le> 2 ^ 30"
    "conductor_new cnc timeout = Inr ca"
  shows "conductor_at dcap ccap ca [] [] [] 0 [] (0, 0, 0) 1 1"
proof -
  have init: "cnc_init (cnc_file_length dcap ccap) dcap ccap pid now = Inr cnc"
    using assms(1) by (auto simp: create_anonymous_def Let_def split: option.splits)
  obtain rb where rb: "new_heap_ring_buffer INTERNAL_QUEUE_CAPACITY = Inr rb" "ca_to_sender ca = rb" "ca_to_receiver ca = rb"
      "ca_cnc ca = cnc" "length (ca_scratch ca) = 512" "ca_next_registration_id ca = 1" "ca_next_session_id ca = 1"
    using assms(4) by (auto simp: conductor_new_def split: sum.splits)
  have "ring_inv rb 0 [] 0" by (rule ring_new_inv [OF rb(1)]) (simp add: INTERNAL_QUEUE_CAPACITY_def)
  moreover have "rb_capacity rb = INTERNAL_QUEUE_CAPACITY"
    using rb(1) by (auto simp: new_heap_ring_buffer_def ring_new_def split: if_splits)
  ultimately have "queue_at rb [] 0"
    unfolding queue_at_def ring_load_def by (intro conjI exI [of _ 0] exI [of _ "[]"]) simp_all
  moreover have "\<exists>rsps t. cnc_inv dcap ccap cnc [] 0 rsps t \<and> messages_of rsps = [] \<and> t \<le> 0"
    using cnc_init_inv(1) [OF init assms(2,3)] by (intro exI [of _ "[]"] exI [of _ 0]) simp
  ultimately show ?thesis using rb by (simp add: conductor_at_def)
qed

text \<open>Commands whose aligned lengths fit twice are accepted.\<close>

definition command_load :: "message list \<Rightarrow> nat" where
  "command_load ms = sum_list (map (\<lambda>m. 2 * align_record (length (snd m) + 8)) ms)"

lemma client_writes_accepted:
  assumes "cnc_shape dcap ccap cnc" "ring_load (to_driver_view cnc) q u" "cc_to_driver_capacity client = dcap"
    and "list_all (\<lambda>m. ring_sendable m \<and> length (snd m) \<le> 512) ms" "u + command_load ms \<le> dcap"
  shows "\<exists>base. client_writes client (dc_base cnc) ms = Some base"
  using assms(1,2,4,5)
proof (induction ms arbitrary: cnc q u)
  case (Cons m ms)
  let ?a = "align_record (length (snd m) + 8)"
  have dcap: "dc_to_driver_capacity cnc = dcap" using Cons.prems(1) by (simp add: cnc_shape_def)
  have a: "length (snd m) + 8 \<le> ?a" "u + 2 * ?a + command_load ms \<le> dcap"
    using Cons.prems(3,4) align_ge [of "length (snd m) + 8"] by (simp_all add: align_record_eq command_load_def)
  from ring_load_write [OF Cons.prems(2), of "snd m" "fst m"] Cons.prems(3) a dcap obtain rb where
    rb: "ring_write (to_driver_view cnc) (fst m) (snd m) = Inr rb" "ring_load rb (q @ [m]) (u + 2 * ?a)"
    by (auto simp: ring_sendable_def)
  let ?cnc = "cnc\<lparr>dc_base := store_ring (dc_base cnc) to_driver_offset rb\<rparr>"
  have "length (rb_data rb) = rb_capacity rb" using rb(2) by (auto simp: ring_load_def ring_inv_def)
  then have v: "cnc_shape dcap ccap ?cnc" "to_driver_view ?cnc = rb"
    using store_ring_views [OF Cons.prems(1), of rb ?cnc] ring_write_shape [OF rb(1)] dcap by simp_all
  have "\<exists>base. client_writes client (dc_base ?cnc) ms = Some base"
    by (rule Cons.IH [OF v(1), of "q @ [m]" "u + 2 * ?a"]) (use v(2) rb(2) Cons.prems(3) a(2) in simp_all)
  moreover have "client_write client (dc_base cnc) (fst m) (snd m) = Inr (dc_base ?cnc)"
    using rb(1) assms(3) dcap by (simp add: client_write_def to_driver_view_def)
  ultimately show ?case by simp
qed simp

lemma sample_conductor:
  "\<exists>cnc ca client. create_anonymous (\<lambda>n. None) 42 1000 4096 4096 = Inr cnc \<and> conductor_new cnc 0 = Inr ca \<and> ca_cnc ca = cnc \<and>
    conductor_at 4096 4096 ca [] [] [] 0 [] (0, 0, 0) 1 1 \<and>
    from_ptr (dc_base cnc) (dc_length cnc) = Inr client \<and> client_at client 4096 4096 0 \<and>
    cnc_shape 4096 4096 cnc \<and> ring_load (to_driver_view cnc) [] 0"
proof -
  have p: "is_power_of_two 4096" by (simp add: is_power_of_two.simps)
  obtain cnc where cnc: "create_anonymous (\<lambda>n. None) 42 1000 4096 4096 = Inr cnc"
    by (simp add: create_anonymous_def validate_capacities_def cnc_init_def ring_new_def transmitter_new_def
        ring_constants p Let_def)
  then have init: "cnc_init (cnc_file_length 4096 4096) 4096 4096 42 1000 = Inr cnc"
    by (simp add: create_anonymous_def validate_capacities_def p Let_def)
  note i = cnc_init_inv [OF init, simplified]
  obtain ca where ca: "conductor_new cnc 0 = Inr ca" "ca_cnc ca = cnc"
    by (simp add: conductor_new_def new_heap_ring_buffer_def ring_new_def ring_constants INTERNAL_QUEUE_CAPACITY_def p)
  obtain client where "from_ptr (dc_base cnc) (dc_length cnc) = Inr client" "client_at client 4096 4096 0"
    using from_ptr_ready [OF i(1), of "dc_length cnc"] i p by auto
  moreover have "cnc_shape 4096 4096 cnc" using i(1) by (simp add: cnc_inv_def)
  ultimately show ?thesis using cnc ca i(11) conductor_new_at [OF cnc _ _ ca(1)] by fastforce
qed

text \<open>
  A client that adds a publication on stream 10, adds a subscription for it and sends a keepalive receives both
  answers, and the sender and the receiver receive one command each.
\<close>

definition sample_commands :: "client_command list" where
  "sample_commands =
     [ClientAddPublication \<lparr>ap_correlation_id = 7, ap_client_id = 1, ap_stream_id = 10, ap_channel_uri_len = 0,
        ap_channel_uri = replicate MAX_CHANNEL_URI_LENGTH 0\<rparr>,
      ClientAddSubscription \<lparr>as_correlation_id = 8, as_client_id = 1, as_stream_id = 10, as_channel_uri_len = 0,
        as_channel_uri = replicate MAX_CHANNEL_URI_LENGTH 0\<rparr>,
      ClientKeepalive \<lparr>ck_correlation_id = 9, ck_client_id = 1\<rparr>]"

theorem conductor_serves_client_witness:
  "\<exists>ca client base ca' sq rq client' m m'.
    client_writes client (dc_base (ca_cnc ca)) (map command_message sample_commands) = Some base \<and>
    conductor_do_work (ca\<lparr>ca_cnc := (ca_cnc ca)\<lparr>dc_base := base\<rparr>\<rparr>) 5 6 = Some (Ok (ca', 3)) \<and>
    poll_sender_queue (ca_to_sender ca') = Some (Ok (sq, [AddPublication 7 10 1 0 65536 1408])) \<and>
    poll_receiver_queue (ca_to_receiver ca') = Some (Ok (rq, [AddSubscription 8 10])) \<and>
    client_receive client (dc_base (ca_cnc ca')) =
      Some (Ok (client', [(RSP_PUBLICATION_READY, m), (RSP_SUBSCRIPTION_READY, m')]))"
proof -
  let ?ms = "map command_message sample_commands"
  obtain cnc ca client where s: "ca_cnc ca = cnc" "conductor_at 4096 4096 ca [] [] [] 0 [] (0, 0, 0) 1 1"
    "client_at client 4096 4096 0" "cnc_shape 4096 4096 cnc" "ring_load (to_driver_view cnc) [] 0"
    using sample_conductor by blast
  have cap: "cc_to_driver_capacity client = 4096" using s(3) by (simp add: client_at_def)
  have "list_all (\<lambda>m. ring_sendable m \<and> length (snd m) \<le> 512) ?ms" "0 + command_load ?ms \<le> 4096"
    by (simp_all add: sample_commands_def ring_sendable_def command_types MSG_TYPE_PADDING_def command_load_def
        align_record_eq align_eq add_publication_bytes_def add_subscription_bytes_def client_keepalive_bytes_def
        MAX_CHANNEL_URI_LENGTH_def)
  then obtain base where base: "client_writes client (dc_base (ca_cnc ca)) ?ms = Some base"
    using client_writes_accepted [OF s(4,5) cap] s(1) by blast
  obtain m m' where d: "dispatch 1 1 sample_commands =
      ([AddPublication 7 10 1 0 65536 1408], [AddSubscription 8 10], [(RSP_PUBLICATION_READY, m), (RSP_SUBSCRIPTION_READY, m')])"
    by (simp add: sample_commands_def ready_response_def subscribed_response_def)
  have "list_all command_wf sample_commands" "length sample_commands \<le> MAX_CMDS_PER_CYCLE"
    by (simp_all add: sample_commands_def add_publication_wf_def add_subscription_wf_def MAX_CMDS_PER_CYCLE_def)
  moreover have "length sample_commands = 3" by (simp add: sample_commands_def)
  ultimately obtain ca' sq rq client' where
    "conductor_do_work (ca\<lparr>ca_cnc := (ca_cnc ca)\<lparr>dc_base := base\<rparr>\<rparr>) 5 6 = Some (Ok (ca', 3))"
    "poll_sender_queue (ca_to_sender ca') = Some (Ok (sq, [AddPublication 7 10 1 0 65536 1408]))"
    "poll_receiver_queue (ca_to_receiver ca') = Some (Ok (rq, [AddSubscription 8 10]))"
    "client_receive client (dc_base (ca_cnc ca')) =
       Some (Ok (client', [(RSP_PUBLICATION_READY, m), (RSP_SUBSCRIPTION_READY, m')]))"
    using conductor_serves_client [OF s(2,3) _ _ _ base d, of 5 6] by auto
  with base show ?thesis by (intro exI conjI)
qed

text \<open>
  A client announces 32 times that it closes and then removes a publication: the removal never reaches the sender.
\<close>

definition late_commands :: "client_command list" where
  "late_commands = replicate 32 (ClientClose \<lparr>ck_correlation_id = 0, ck_client_id = 1\<rparr>) @
     [ClientRemovePublication \<lparr>rp_correlation_id = 7, rp_client_id = 1, rp_registration_id = 1\<rparr>]"

lemma dispatch_close: "dispatch reg sess (replicate n (ClientClose c)) = ([], [], [])"
  by (induction n) simp_all

theorem excess_commands_lost_witness:
  "\<exists>ca client base ca' ca'' sq rq client'.
    client_writes client (dc_base (ca_cnc ca)) (map command_message late_commands) = Some base \<and>
    conductor_do_work (ca\<lparr>ca_cnc := (ca_cnc ca)\<lparr>dc_base := base\<rparr>\<rparr>) 5 6 = Some (Ok (ca', 33)) \<and>
    conductor_do_work ca' 7 8 = Some (Ok (ca'', 0)) \<and> poll_sender_queue (ca_to_sender ca'') = Some (Ok (sq, [])) \<and>
    poll_receiver_queue (ca_to_receiver ca'') = Some (Ok (rq, [])) \<and>
    client_receive client (dc_base (ca_cnc ca'')) = Some (Ok (client', []))"
proof -
  let ?ms = "map command_message late_commands"
  obtain cnc ca client where s: "ca_cnc ca = cnc" "conductor_at 4096 4096 ca [] [] [] 0 [] (0, 0, 0) 1 1"
    "client_at client 4096 4096 0" "cnc_shape 4096 4096 cnc" "ring_load (to_driver_view cnc) [] 0"
    using sample_conductor by blast
  have cap: "cc_to_driver_capacity client = 4096" using s(3) by (simp add: client_at_def)
  have "list_all (\<lambda>m. ring_sendable m \<and> length (snd m) \<le> 512) ?ms" "0 + command_load ?ms \<le> 4096"
    by (simp_all add: late_commands_def ring_sendable_def command_types MSG_TYPE_PADDING_def command_load_def
        align_record_eq align_eq remove_publication_bytes_def client_keepalive_bytes_def sum_list_replicate list_all_iff)
  then obtain base where base: "client_writes client (dc_base (ca_cnc ca)) ?ms = Some base"
    using client_writes_accepted [OF s(4,5) cap] s(1) by blast
  have d: "dispatch 1 1 (take MAX_CMDS_PER_CYCLE late_commands) = ([], [], [])"
    by (simp add: late_commands_def MAX_CMDS_PER_CYCLE_def dispatch_close)
  have "list_all command_wf late_commands" "MAX_CMDS_PER_CYCLE < length late_commands"
    by (simp_all add: late_commands_def MAX_CMDS_PER_CYCLE_def list_all_iff)
  moreover have "length late_commands = 33" by (simp add: late_commands_def)
  ultimately obtain ca' ca'' sq rq client' where
    "conductor_do_work (ca\<lparr>ca_cnc := (ca_cnc ca)\<lparr>dc_base := base\<rparr>\<rparr>) 5 6 = Some (Ok (ca', 33))"
    "conductor_do_work ca' 7 8 = Some (Ok (ca'', 0))" "poll_sender_queue (ca_to_sender ca'') = Some (Ok (sq, []))"
    "poll_receiver_queue (ca_to_receiver ca'') = Some (Ok (rq, []))"
    "client_receive client (dc_base (ca_cnc ca'')) = Some (Ok (client', []))"
    using excess_commands_lost [OF s(2,3) _ _ _ base d, of 5 6 7 8] by auto
  with base show ?thesis by (intro exI conjI)
qed

end
