(* ===== verification/Slot_Pool.thy ===== *)
theory Slot_Pool
  imports Prelude
begin

text \<open>
  The pre-allocated receive and send slots of \<^verbatim>\<open>src/src/media/buffer_pool.rs\<close>.

  A slot keeps what the kernel reads through its raw pointers: for a send slot the bytes of the datagram and
  the destination, for a receive slot the buffer. Slot numbers are \<open>u16\<close>, so numbering a pool reduces the
  position modulo \<open>2 ^ 16\<close>. The two free lists are stacks. \<open>None\<close> is a panic: an index outside the slots or a
  debug assertion. The locale \<open>slot_allocator\<close> is the contract of a pool half.
\<close>

section \<open>Slots\<close>

definition MAX_RECV_BUFFER :: nat where "MAX_RECV_BUFFER = 65536"

datatype slot_state = SlotFree | InFlight

record recv_slot =
  rs_addr :: sockaddr_storage
  rs_control :: "byte list"
  rs_buffer :: "byte list"
  rs_iov_len :: nat
  rs_namelen :: nat
  rs_controllen :: nat
  rs_flags :: i32
  rs_transport_idx :: nat
  rs_state :: slot_state

record send_slot =
  ss_data :: "byte list"
  ss_addr :: sockaddr_storage
  ss_named :: bool
  ss_namelen :: nat
  ss_state :: slot_state

definition recv_slot_new :: recv_slot where
  "recv_slot_new =
     \<lparr>rs_addr = replicate 128 0, rs_control = replicate 128 0, rs_buffer = replicate MAX_RECV_BUFFER 0, rs_iov_len = 0,
      rs_namelen = 0, rs_controllen = 0, rs_flags = 0, rs_transport_idx = 0, rs_state = SlotFree\<rparr>"

definition init_stable_pointers :: "recv_slot \<Rightarrow> recv_slot" where
  "init_stable_pointers s = s\<lparr>rs_iov_len := MAX_RECV_BUFFER, rs_controllen := length (rs_control s)\<rparr>"

definition prepare_recv :: "recv_slot \<Rightarrow> recv_slot" where
  "prepare_recv s = s\<lparr>rs_namelen := 128, rs_flags := 0, rs_state := InFlight\<rparr>"

definition received_data :: "recv_slot \<Rightarrow> nat \<Rightarrow> byte list" where
  "received_data s bytes = take (min bytes MAX_RECV_BUFFER) (rs_buffer s)"

definition send_slot_new :: send_slot where
  "send_slot_new = \<lparr>ss_data = [], ss_addr = replicate 128 0, ss_named = False, ss_namelen = 0, ss_state = SlotFree\<rparr>"

text \<open>The family is the first field of the address, two bytes wide; 2 and 10 are AF_INET and AF_INET6.\<close>

definition addr_storage_len :: "sockaddr_storage \<Rightarrow> nat" where
  "addr_storage_len addr =
     (let family = (of_le (take 2 addr) :: u16) in if family = 2 then 16 else if family = 10 then 28 else 0)"

definition prepare_send :: "send_slot \<Rightarrow> byte list \<Rightarrow> sockaddr_storage option \<Rightarrow> send_slot" where
  "prepare_send s data dest =
     (case dest of
        Some dest_addr \<Rightarrow>
          s\<lparr>ss_data := data, ss_addr := dest_addr, ss_named := True, ss_namelen := addr_storage_len dest_addr,
            ss_state := InFlight\<rparr>
      | None \<Rightarrow> s\<lparr>ss_data := data, ss_named := False, ss_namelen := 0, ss_state := InFlight\<rparr>)"

section \<open>The pool\<close>

record slot_pool =
  sp_recv_slots :: "recv_slot list"
  sp_send_slots :: "send_slot list"
  sp_recv_free :: "nat list"
  sp_send_free :: "nat list"
  sp_recv_capacity :: nat
  sp_send_capacity :: nat

definition slot_pool_new :: "nat \<Rightarrow> nat \<Rightarrow> slot_pool" where
  "slot_pool_new max_recv max_send =
     \<lparr>sp_recv_slots = map (\<lambda>i. init_stable_pointers recv_slot_new) [0..<max_recv],
      sp_send_slots = map (\<lambda>i. send_slot_new) [0..<max_send],
      sp_recv_free = map (\<lambda>i. i mod 2 ^ 16) [0..<max_recv], sp_send_free = map (\<lambda>i. i mod 2 ^ 16) [0..<max_send],
      sp_recv_capacity = max_recv, sp_send_capacity = max_send\<rparr>"

definition alloc_recv :: "slot_pool \<Rightarrow> (slot_pool \<times> nat) option" where
  "alloc_recv pool =
     (if sp_recv_free pool = [] then None
      else Some (pool\<lparr>sp_recv_free := butlast (sp_recv_free pool)\<rparr>, last (sp_recv_free pool)))"

definition free_recv :: "slot_pool \<Rightarrow> nat \<Rightarrow> slot_pool option" where
  "free_recv pool idx =
     (if length (sp_recv_slots pool) \<le> idx \<or> rs_state (sp_recv_slots pool ! idx) \<noteq> SlotFree \<or>
         sp_recv_capacity pool \<le> length (sp_recv_free pool) then None
      else Some (pool\<lparr>sp_recv_slots := (sp_recv_slots pool)[idx := (sp_recv_slots pool ! idx)\<lparr>rs_state := SlotFree\<rparr>],
                      sp_recv_free := sp_recv_free pool @ [idx]\<rparr>))"

definition alloc_send :: "slot_pool \<Rightarrow> (slot_pool \<times> nat) option" where
  "alloc_send pool =
     (if sp_send_free pool = [] then None
      else Some (pool\<lparr>sp_send_free := butlast (sp_send_free pool)\<rparr>, last (sp_send_free pool)))"

definition free_send :: "slot_pool \<Rightarrow> nat \<Rightarrow> slot_pool option" where
  "free_send pool idx =
     (if length (sp_send_slots pool) \<le> idx \<or> ss_state (sp_send_slots pool ! idx) \<noteq> SlotFree \<or>
         sp_send_capacity pool \<le> length (sp_send_free pool) then None
      else Some (pool\<lparr>sp_send_slots := (sp_send_slots pool)[idx := (sp_send_slots pool ! idx)\<lparr>ss_state := SlotFree\<rparr>],
                      sp_send_free := sp_send_free pool @ [idx]\<rparr>))"

definition recv_available :: "slot_pool \<Rightarrow> nat" where
  "recv_available pool = length (sp_recv_free pool)"

definition send_available :: "slot_pool \<Rightarrow> nat" where
  "send_available pool = length (sp_send_free pool)"

text \<open>A completed send: the poller marks the slot and returns it.\<close>

definition complete_send :: "slot_pool \<Rightarrow> nat \<Rightarrow> slot_pool option" where
  "complete_send pool idx =
     (if length (sp_send_slots pool) \<le> idx then None
      else free_send
             (pool\<lparr>sp_send_slots := (sp_send_slots pool)[idx := (sp_send_slots pool ! idx)\<lparr>ss_state := SlotFree\<rparr>]\<rparr>) idx)"

section \<open>The contract of an allocator\<close>

datatype slot_op = AllocSlot | ReleaseSlot nat

text \<open>A client that releases only slots it holds; \<open>ReleaseSlot k\<close> names the \<open>k\<close>-th slot it holds.\<close>

fun slot_run ::
  "('p \<Rightarrow> ('p \<times> nat) option) \<Rightarrow> ('p \<Rightarrow> nat \<Rightarrow> 'p option) \<Rightarrow> 'p \<times> nat list \<Rightarrow> slot_op list \<Rightarrow> ('p \<times> nat list) option" where
  "slot_run alloc release st [] = Some st"
| "slot_run alloc release (p, held) (AllocSlot # ops) =
     (case alloc p of None \<Rightarrow> slot_run alloc release (p, held) ops | Some (p', i) \<Rightarrow> slot_run alloc release (p', held @ [i]) ops)"
| "slot_run alloc release (p, held) (ReleaseSlot k # ops) =
     (if length held \<le> k then slot_run alloc release (p, held) ops
      else case release p (held ! k) of
             None \<Rightarrow> None
           | Some p' \<Rightarrow> slot_run alloc release (p', take k held @ drop (Suc k) held) ops)"

locale slot_allocator =
  fixes inv :: "nat \<Rightarrow> 'p \<Rightarrow> bool"
    and avail :: "'p \<Rightarrow> nat set"
    and alloc :: "'p \<Rightarrow> ('p \<times> nat) option"
    and release :: "'p \<Rightarrow> nat \<Rightarrow> 'p option"
  assumes avail_bound: "inv n p \<Longrightarrow> avail p \<subseteq> {..<n}"
    and alloc_none: "inv n p \<Longrightarrow> alloc p = None \<longleftrightarrow> avail p = {}"
    and alloc_some: "inv n p \<Longrightarrow> alloc p = Some (p', i) \<Longrightarrow> inv n p' \<and> i \<in> avail p \<and> avail p' = avail p - {i}"
    and release_held: "inv n p \<Longrightarrow> i < n \<Longrightarrow> i \<notin> avail p \<Longrightarrow>
      \<exists>p'. release p i = Some p' \<and> inv n p' \<and> avail p' = insert i (avail p)"
begin

lemma set_remove_nth:
  assumes "distinct xs" "k < length xs"
  shows "set (take k xs @ drop (Suc k) xs) = set xs - {xs ! k}" "distinct (take k xs @ drop (Suc k) xs)"
proof -
  have xs: "xs = take k xs @ xs ! k # drop (Suc k) xs" using assms(2) by (simp add: id_take_nth_drop)
  have d: "distinct (take k xs @ xs ! k # drop (Suc k) xs)" using assms(1) xs by simp
  then show "distinct (take k xs @ drop (Suc k) xs)" by simp
  have "set xs = set (take k xs @ xs ! k # drop (Suc k) xs)" using xs by simp
  then show "set (take k xs @ drop (Suc k) xs) = set xs - {xs ! k}" using d by auto
qed

lemma slots_partitioned:
  assumes "inv n p" "distinct held" "set held \<inter> avail p = {}" "set held \<union> avail p = {..<n}"
  shows "\<exists>p' held'. slot_run alloc release (p, held) ops = Some (p', held') \<and> inv n p' \<and> distinct held' \<and>
    set held' \<inter> avail p' = {} \<and> set held' \<union> avail p' = {..<n}"
  using assms
proof (induction ops arbitrary: p held)
  case (Cons op ops)
  show ?case
  proof (cases op)
    case AllocSlot
    show ?thesis
    proof (cases "alloc p")
      case None
      then show ?thesis using AllocSlot Cons by simp
    next
      case (Some r)
      obtain p' i where r: "r = (p', i)" by (cases r)
      have a: "inv n p'" "i \<in> avail p" "avail p' = avail p - {i}"
        using alloc_some [OF Cons.prems(1) Some [unfolded r]] by simp_all
      have "\<exists>p'' held'. slot_run alloc release (p', held @ [i]) ops = Some (p'', held') \<and> inv n p'' \<and> distinct held' \<and>
        set held' \<inter> avail p'' = {} \<and> set held' \<union> avail p'' = {..<n}"
        by (rule Cons.IH) (use a Cons.prems in auto)
      then show ?thesis using AllocSlot Some r by simp
    qed
  next
    case (ReleaseSlot k)
    show ?thesis
    proof (cases "length held \<le> k")
      case True
      then show ?thesis using ReleaseSlot Cons by simp
    next
      case False
      then have k: "k < length held" "held ! k \<in> set held" by simp_all
      then have i: "held ! k < n" "held ! k \<notin> avail p" using Cons.prems(3,4) by blast+
      from release_held [OF Cons.prems(1) i] obtain p' where
        p': "release p (held ! k) = Some p'" "inv n p'" "avail p' = insert (held ! k) (avail p)" by blast
      note s = set_remove_nth [OF Cons.prems(2) k(1)]
      have "\<exists>p'' held'. slot_run alloc release (p', take k held @ drop (Suc k) held) ops = Some (p'', held') \<and> inv n p'' \<and>
        distinct held' \<and> set held' \<inter> avail p'' = {} \<and> set held' \<union> avail p'' = {..<n}"
        by (rule Cons.IH [OF p'(2) s(2)], unfold s(1) p'(3)) (use k(2) i Cons.prems(3,4) in auto)
      then show ?thesis using ReleaseSlot False p'(1) by simp
    qed
  qed
qed simp

end

section \<open>Both halves of the pool meet the contract\<close>

definition send_pool_inv :: "nat \<Rightarrow> slot_pool \<Rightarrow> bool" where
  "send_pool_inv n pool \<longleftrightarrow>
     length (sp_send_slots pool) = n \<and> sp_send_capacity pool = n \<and> distinct (sp_send_free pool) \<and>
     set (sp_send_free pool) \<subseteq> {..<n}"

definition recv_pool_inv :: "nat \<Rightarrow> slot_pool \<Rightarrow> bool" where
  "recv_pool_inv n pool \<longleftrightarrow>
     length (sp_recv_slots pool) = n \<and> sp_recv_capacity pool = n \<and> distinct (sp_recv_free pool) \<and>
     set (sp_recv_free pool) \<subseteq> {..<n} \<and> list_all (\<lambda>s. rs_state s = SlotFree) (sp_recv_slots pool)"

lemma pop_last:
  assumes "distinct xs" "xs \<noteq> []"
  shows "set (butlast xs) = set xs - {last xs}" "distinct (butlast xs)" "last xs \<in> set xs"
proof -
  have "xs = butlast xs @ [last xs]" using assms(2) by simp
  then have d: "distinct (butlast xs @ [last xs])" "set xs = set (butlast xs @ [last xs])" using assms(1) by simp_all
  then show "set (butlast xs) = set xs - {last xs}" "distinct (butlast xs)" "last xs \<in> set xs" by auto
qed

lemma stack_has_room:
  assumes "distinct xs" "set xs \<subseteq> {..<n}" "i < n" "i \<notin> set xs"
  shows "length xs < n"
proof -
  have "length xs = card (set xs)" using assms(1) by (simp add: distinct_card)
  also have "\<dots> < card {..<n}" by (rule psubset_card_mono) (use assms in auto)
  finally show ?thesis by simp
qed

lemma complete_send_held:
  assumes "send_pool_inv n pool" "i < n" "i \<notin> set (sp_send_free pool)"
  shows "complete_send pool i =
    Some (pool\<lparr>sp_send_slots := (sp_send_slots pool)[i := (sp_send_slots pool ! i)\<lparr>ss_state := SlotFree\<rparr>],
               sp_send_free := sp_send_free pool @ [i]\<rparr>)"
  using assms stack_has_room [of "sp_send_free pool" n i]
  by (simp add: complete_send_def free_send_def send_pool_inv_def)

interpretation send_pool: slot_allocator send_pool_inv "\<lambda>pool. set (sp_send_free pool)" alloc_send complete_send
proof unfold_locales
  show "send_pool_inv n p' \<and> i \<in> set (sp_send_free p) \<and> set (sp_send_free p') = set (sp_send_free p) - {i}"
    if "send_pool_inv n p" "alloc_send p = Some (p', i)" for n p p' i
  proof -
    have ne: "sp_send_free p \<noteq> []" "p' = p\<lparr>sp_send_free := butlast (sp_send_free p)\<rparr>" "i = last (sp_send_free p)"
      using that(2) by (auto simp: alloc_send_def split: if_splits)
    show ?thesis using that(1) ne pop_last [of "sp_send_free p"] by (auto simp: send_pool_inv_def)
  qed
  show "\<exists>p'. complete_send p i = Some p' \<and> send_pool_inv n p' \<and> set (sp_send_free p') = insert i (set (sp_send_free p))"
    if "send_pool_inv n p" "i < n" "i \<notin> set (sp_send_free p)" for n p i
    using complete_send_held [OF that] that by (auto simp: send_pool_inv_def)
qed (auto simp: send_pool_inv_def alloc_send_def)

interpretation recv_pool: slot_allocator recv_pool_inv "\<lambda>pool. set (sp_recv_free pool)" alloc_recv free_recv
proof unfold_locales
  show "recv_pool_inv n p' \<and> i \<in> set (sp_recv_free p) \<and> set (sp_recv_free p') = set (sp_recv_free p) - {i}"
    if "recv_pool_inv n p" "alloc_recv p = Some (p', i)" for n p p' i
  proof -
    have ne: "sp_recv_free p \<noteq> []" "p' = p\<lparr>sp_recv_free := butlast (sp_recv_free p)\<rparr>" "i = last (sp_recv_free p)"
      using that(2) by (auto simp: alloc_recv_def split: if_splits)
    show ?thesis using that(1) ne pop_last [of "sp_recv_free p"] by (auto simp: recv_pool_inv_def)
  qed
  show "\<exists>p'. free_recv p i = Some p' \<and> recv_pool_inv n p' \<and> set (sp_recv_free p') = insert i (set (sp_recv_free p))"
    if "recv_pool_inv n p" "i < n" "i \<notin> set (sp_recv_free p)" for n p i
    using that stack_has_room [of "sp_recv_free p" n i]
    by (auto simp: recv_pool_inv_def free_recv_def list_all_length nth_list_update)
qed (auto simp: recv_pool_inv_def alloc_recv_def)

lemma partition_empty: "A \<inter> B = {} \<Longrightarrow> A \<union> B = C \<Longrightarrow> B = {} \<longleftrightarrow> A = C"
  by auto

lemma numbered:
  assumes "n \<le> 2 ^ 16"
  shows "map (\<lambda>i. i mod 2 ^ 16) [0..<n] = [0..<n]"
  using assms by (intro map_idI) simp

lemma slot_pool_new_inv:
  "s \<le> 2 ^ 16 \<Longrightarrow> send_pool_inv s (slot_pool_new r s) \<and> set (sp_send_free (slot_pool_new r s)) = {..<s}"
  "r \<le> 2 ^ 16 \<Longrightarrow> recv_pool_inv r (slot_pool_new r s) \<and> set (sp_recv_free (slot_pool_new r s)) = {..<r}"
  using numbered [of s] numbered [of r]
  by (auto simp: slot_pool_new_def send_pool_inv_def recv_pool_inv_def list_all_iff recv_slot_new_def
      init_stable_pointers_def)

text \<open>
  Slots are never handed out twice. From a new pool of at most \<open>2 ^ 16\<close> slots on each side, a client may
  allocate and release in any order: no call panics, the slots it holds are distinct, none of them is in the
  free list, and together with the free list they are all slots; an allocation fails exactly when all slots
  are held.
\<close>

theorem slots_never_shared:
  assumes "max_send \<le> 2 ^ 16" "max_recv \<le> 2 ^ 16"
  shows "(\<exists>pool held. slot_run alloc_send complete_send (slot_pool_new max_recv max_send, []) ops = Some (pool, held) \<and>
      distinct held \<and> set held \<inter> set (sp_send_free pool) = {} \<and> set held \<union> set (sp_send_free pool) = {..<max_send} \<and>
      (alloc_send pool = None \<longleftrightarrow> set held = {..<max_send})) \<and>
    (\<exists>pool held. slot_run alloc_recv free_recv (slot_pool_new max_recv max_send, []) ops = Some (pool, held) \<and>
      distinct held \<and> set held \<inter> set (sp_recv_free pool) = {} \<and> set held \<union> set (sp_recv_free pool) = {..<max_recv} \<and>
      (alloc_recv pool = None \<longleftrightarrow> set held = {..<max_recv}))"
proof (intro conjI)
  note s = slot_pool_new_inv(1) [OF assms(1), of max_recv]
  have "\<exists>pool held. slot_run alloc_send complete_send (slot_pool_new max_recv max_send, []) ops = Some (pool, held) \<and> send_pool_inv max_send pool \<and>
    distinct held \<and> set held \<inter> set (sp_send_free pool) = {} \<and> set held \<union> set (sp_send_free pool) = {..<max_send}"
    by (rule send_pool.slots_partitioned) (use s in simp_all)
  then obtain pool held where r: "slot_run alloc_send complete_send (slot_pool_new max_recv max_send, []) ops = Some (pool, held)"
    "send_pool_inv max_send pool" "distinct held" "set held \<inter> set (sp_send_free pool) = {}"
    "set held \<union> set (sp_send_free pool) = {..<max_send}" by blast
  have a: "alloc_send pool = None \<longleftrightarrow> set held = {..<max_send}"
    unfolding send_pool.alloc_none [OF r(2)] by (rule partition_empty [OF r(4,5)])
  show "\<exists>pool held. slot_run alloc_send complete_send (slot_pool_new max_recv max_send, []) ops = Some (pool, held) \<and>
      distinct held \<and> set held \<inter> set (sp_send_free pool) = {} \<and> set held \<union> set (sp_send_free pool) = {..<max_send} \<and>
      (alloc_send pool = None \<longleftrightarrow> set held = {..<max_send})"
    by (intro exI conjI) (rule r a)+
next
  note s = slot_pool_new_inv(2) [OF assms(2), of max_send]
  have "\<exists>pool held. slot_run alloc_recv free_recv (slot_pool_new max_recv max_send, []) ops = Some (pool, held) \<and> recv_pool_inv max_recv pool \<and>
    distinct held \<and> set held \<inter> set (sp_recv_free pool) = {} \<and> set held \<union> set (sp_recv_free pool) = {..<max_recv}"
    by (rule recv_pool.slots_partitioned) (use s in simp_all)
  then obtain pool held where r: "slot_run alloc_recv free_recv (slot_pool_new max_recv max_send, []) ops = Some (pool, held)"
    "recv_pool_inv max_recv pool" "distinct held" "set held \<inter> set (sp_recv_free pool) = {}"
    "set held \<union> set (sp_recv_free pool) = {..<max_recv}" by blast
  have a: "alloc_recv pool = None \<longleftrightarrow> set held = {..<max_recv}"
    unfolding recv_pool.alloc_none [OF r(2)] by (rule partition_empty [OF r(4,5)])
  show "\<exists>pool held. slot_run alloc_recv free_recv (slot_pool_new max_recv max_send, []) ops = Some (pool, held) \<and>
      distinct held \<and> set held \<inter> set (sp_recv_free pool) = {} \<and> set held \<union> set (sp_recv_free pool) = {..<max_recv} \<and>
      (alloc_recv pool = None \<longleftrightarrow> set held = {..<max_recv})"
    by (intro exI conjI) (rule r a)+
qed

theorem slots_never_shared_witness:
  "\<exists>pool held. slot_run alloc_send complete_send (slot_pool_new 0 4, []) [AllocSlot, AllocSlot, ReleaseSlot 0, AllocSlot] = Some (pool, held) \<and>
    distinct held"
  using slots_never_shared [of 4 0 "[AllocSlot, AllocSlot, ReleaseSlot 0, AllocSlot]"] by auto

text \<open>A pool of more than \<open>2 ^ 16\<close> send slots lists slot 0 twice.\<close>

lemma oversized_pool_repeats:
  assumes "2 ^ 16 < n"
  shows "\<not> distinct (sp_send_free (slot_pool_new r n))"
proof -
  let ?f = "sp_send_free (slot_pool_new r n)"
  have f: "?f ! 0 = ?f ! (2 ^ 16)" "length ?f = n" using assms by (simp_all add: slot_pool_new_def)
  show ?thesis
  proof
    assume "distinct ?f"
    from nth_eq_iff_index_eq [OF this, of 0 "2 ^ 16"] f assms show False by simp
  qed
qed

end
