(* ===== verification/Agent_Runner.thy ===== *)
theory Agent_Runner
  imports Prelude
begin

text \<open>
  The duty-cycle runner of the agents (\<^verbatim>\<open>src/src/agent/runner.rs\<close>, \<^verbatim>\<open>src/src/agent/mod.rs\<close>) and its idle strategies
  (\<^verbatim>\<open>src/src/agent/idle_strategy.rs\<close>).

  An agent is its three operations over a state; a result is an error or a work count. What the idle step asks
  of the operating system is a value of \<open>idle_action\<close>. The shared running flag is the function that gives its value
  at the \<open>n\<close>-th check. The loop may run for ever, so it is a partial function.
\<close>

section \<open>Idle strategies\<close>

datatype idle_strategy =
  BusySpin
| Noop
| Sleeping nat
| Backoff nat nat nat nat

record idle_strategy_state =
  is_spin_count :: nat
  is_yield_count :: nat
  is_park_ns :: nat

datatype idle_action = NoIdle | SpinLoop | YieldNow | ParkTimeout nat

definition default_backoff :: idle_strategy where
  "default_backoff = Backoff 10 5 1000 1000000"

definition new_state :: "idle_strategy \<Rightarrow> idle_strategy_state" where
  "new_state strategy =
     \<lparr>is_spin_count = 0, is_yield_count = 0,
      is_park_ns = (case strategy of Backoff max_spins max_yields min_park_ns max_park_ns \<Rightarrow> min_park_ns | _ \<Rightarrow> 0)\<rparr>"

definition u64_max :: nat where "u64_max = 2 ^ 64 - 1"

fun idle :: "idle_strategy \<Rightarrow> idle_strategy_state \<Rightarrow> i32 \<Rightarrow> idle_strategy_state \<times> idle_action" where
  "idle Noop st work_count = (st, NoIdle)"
| "idle BusySpin st work_count = (st, if work_count = 0 then SpinLoop else NoIdle)"
| "idle (Sleeping period_ns) st work_count = (st, if work_count = 0 then ParkTimeout period_ns else NoIdle)"
| "idle (Backoff max_spins max_yields min_park_ns max_park_ns) st work_count =
     (if 0 < sint work_count
      then (st\<lparr>is_spin_count := 0, is_yield_count := 0, is_park_ns := min_park_ns\<rparr>, NoIdle)
      else if is_spin_count st < max_spins then (st\<lparr>is_spin_count := is_spin_count st + 1\<rparr>, SpinLoop)
      else if is_yield_count st < max_yields then (st\<lparr>is_yield_count := is_yield_count st + 1\<rparr>, YieldNow)
      else let next = min (is_park_ns st + min_park_ns) u64_max
           in (st\<lparr>is_park_ns := if max_park_ns < next then max_park_ns else next\<rparr>, ParkTimeout (is_park_ns st)))"

fun idle_all :: "idle_strategy \<Rightarrow> idle_strategy_state \<Rightarrow> i32 list \<Rightarrow> idle_strategy_state \<times> idle_action list" where
  "idle_all strategy st [] = (st, [])"
| "idle_all strategy st (w # ws) =
     (let (st', act) = idle strategy st w; (st'', acts) = idle_all strategy st' ws in (st'', act # acts))"

text \<open>The schedule of a backoff: spin, then yield, then park for a time that grows by the minimum up to the maximum.\<close>

definition backoff_action :: "nat \<Rightarrow> nat \<Rightarrow> nat \<Rightarrow> nat \<Rightarrow> nat \<Rightarrow> idle_action" where
  "backoff_action max_spins max_yields min_park max_park k =
     (if k < max_spins then SpinLoop
      else if k < max_spins + max_yields then YieldNow
      else ParkTimeout (min max_park (Suc (k - max_spins - max_yields) * min_park)))"

definition backoff_state :: "nat \<Rightarrow> nat \<Rightarrow> nat \<Rightarrow> nat \<Rightarrow> nat \<Rightarrow> idle_strategy_state" where
  "backoff_state max_spins max_yields min_park max_park k =
     \<lparr>is_spin_count = min k max_spins, is_yield_count = min (k - max_spins) max_yields,
      is_park_ns = min max_park (Suc (k - max_spins - max_yields) * min_park)\<rparr>"

lemma idle_step:
  assumes "min_park \<le> max_park" "max_park \<le> u64_max" "sint w \<le> 0"
  shows "idle (Backoff s y min_park max_park) (backoff_state s y min_park max_park k) w =
    (backoff_state s y min_park max_park (Suc k), backoff_action s y min_park max_park k)"
proof (cases "k < s + y")
  case True
  then show ?thesis using assms by (auto simp: backoff_state_def backoff_action_def min_def Suc_diff_le)
next
  case False
  define p where "p = Suc (k - s - y) * min_park"
  have st: "backoff_state s y min_park max_park k = \<lparr>is_spin_count = s, is_yield_count = y, is_park_ns = min max_park p\<rparr>"
    using False by (auto simp: backoff_state_def p_def)
  have "Suc (Suc k - s - y) * min_park = p + min_park" using False by (simp add: p_def Suc_diff_le)
  then have st': "backoff_state s y min_park max_park (Suc k) =
      \<lparr>is_spin_count = s, is_yield_count = y, is_park_ns = min max_park (p + min_park)\<rparr>"
    using False by (auto simp: backoff_state_def)
  have act: "backoff_action s y min_park max_park k = ParkTimeout (min max_park p)"
    using False by (simp add: backoff_action_def p_def)
  have "(if max_park < min (min max_park p + min_park) u64_max then max_park else min (min max_park p + min_park) u64_max) =
    min max_park (p + min_park)"
    using assms(1,2) by (auto simp: min_def)
  then show ?thesis unfolding st st' act using assms(3) by (simp add: Let_def)
qed

lemma idle_all_schedule:
  assumes "min_park \<le> max_park" "max_park \<le> u64_max" "\<forall>w \<in> set ws. sint w \<le> 0"
  shows "idle_all (Backoff s y min_park max_park) (backoff_state s y min_park max_park k) ws =
    (backoff_state s y min_park max_park (k + length ws), map (backoff_action s y min_park max_park) [k..<k + length ws])"
  using assms(3)
proof (induction ws arbitrary: k)
  case (Cons w ws)
  have "[k..<k + length (w # ws)] = k # [Suc k..<Suc k + length ws]" by (simp add: upt_conv_Cons del: upt_Suc)
  moreover have "idle_all (Backoff s y min_park max_park) (backoff_state s y min_park max_park (Suc k)) ws =
    (backoff_state s y min_park max_park (Suc k + length ws),
     map (backoff_action s y min_park max_park) [Suc k..<Suc k + length ws])"
    by (rule Cons.IH) (use Cons.prems in simp)
  ultimately show ?case
    using idle_step [OF assms(1,2), of w s y k] Cons.prems by (simp add: Let_def)
qed simp

lemma idle_all_append:
  "idle_all strategy st (us @ ws) =
     (let (st', as) = idle_all strategy st us; (st'', bs) = idle_all strategy st' ws in (st'', as @ bs))"
  by (induction us arbitrary: st) (auto simp: Let_def split: prod.splits)

lemma idle_work_resets:
  assumes "0 < sint w" "min_park \<le> max_park"
  shows "idle (Backoff s y min_park max_park) st w = (backoff_state s y min_park max_park 0, NoIdle)"
  using assms by (simp add: backoff_state_def min_def)

text \<open>
  C28: The backoff follows its schedule. After a cycle that did work, whatever the strategy did before, the
  following cycles without work spin \<open>max_spins\<close> times, then yield \<open>max_yields\<close> times, then park, the first time for the
  minimum and each time longer by the minimum until the maximum is reached; so no park is ever longer than
  the maximum, and the maximum is reached.
\<close>

theorem backoff_schedule:
  assumes "0 < min_park" "min_park \<le> max_park" "max_park < 2 ^ 64"
    and "0 < sint w" "\<forall>v \<in> set ws. sint v \<le> 0"
  shows "\<exists>st' before.
    idle_all (Backoff max_spins max_yields min_park max_park) st (us @ w # ws) =
      (st', before @ NoIdle # map (backoff_action max_spins max_yields min_park max_park) [0..<length ws]) \<and>
    length before = length us \<and>
    (\<forall>k. max_spins + max_yields + max_park \<le> k \<longrightarrow>
      backoff_action max_spins max_yields min_park max_park k = ParkTimeout max_park)"
proof -
  let ?b = "Backoff max_spins max_yields min_park max_park"
  have bound: "max_park \<le> u64_max" using assms(3) by (simp add: u64_max_def)
  obtain st1 before where us: "idle_all ?b st us = (st1, before)" by fastforce
  have len: "length before = length us" using us
    by (induction us arbitrary: st before) (auto simp: Let_def split: prod.splits)
  have "idle_all ?b st (us @ w # ws) =
    (backoff_state max_spins max_yields min_park max_park (length ws),
     before @ NoIdle # map (backoff_action max_spins max_yields min_park max_park) [0..<length ws])"
    using idle_work_resets [OF assms(4,2), of max_spins max_yields st1] idle_all_schedule [OF assms(2) bound assms(5), of max_spins max_yields 0]
    by (simp add: idle_all_append us Let_def del: idle.simps)
  moreover have "backoff_action max_spins max_yields min_park max_park k = ParkTimeout max_park"
    if "max_spins + max_yields + max_park \<le> k" for k
  proof -
    have "max_park \<le> Suc (k - max_spins - max_yields) * 1" using that by simp
    also have "\<dots> \<le> Suc (k - max_spins - max_yields) * min_park" using assms(1) by (intro mult_le_mono) simp_all
    finally show ?thesis using that assms(1,2) by (simp add: backoff_action_def min_def)
  qed
  ultimately show ?thesis using len by blast
qed

theorem backoff_schedule_witness:
  "\<exists>st' before. idle_all (Backoff 2 1 1000 3000) (new_state Noop) ([0] @ 1 # [0, 0, 0, 0, 0, 0, 0]) =
    (st', before @ NoIdle # [SpinLoop, SpinLoop, YieldNow, ParkTimeout 1000, ParkTimeout 2000, ParkTimeout 3000, ParkTimeout 3000])"
proof -
  have "map (backoff_action 2 1 1000 3000) [0..<7] =
    [SpinLoop, SpinLoop, YieldNow, ParkTimeout 1000, ParkTimeout 2000, ParkTimeout 3000, ParkTimeout 3000]"
    by (simp add: backoff_action_def upt_rec)
  moreover have "\<exists>st' before. idle_all (Backoff 2 1 1000 3000) (new_state Noop) ([0] @ 1 # [0, 0, 0, 0, 0, 0, 0]) =
      (st', before @ NoIdle # map (backoff_action 2 1 1000 3000) [0..<length ([0, 0, 0, 0, 0, 0, 0] :: i32 list)]) \<and>
      length before = length ([0] :: i32 list) \<and>
      (\<forall>k. 2 + 1 + 3000 \<le> k \<longrightarrow> backoff_action 2 1 1000 3000 k = ParkTimeout 3000)"
    by (rule backoff_schedule) simp_all
  moreover have "length ([0, 0, 0, 0, 0, 0, 0] :: i32 list) = 7" by simp
  ultimately show ?thesis by metis
qed

section \<open>The runner\<close>

record ('a, 'e) agent =
  ag_on_start :: "'a \<Rightarrow> 'a \<times> 'e option"
  ag_do_work :: "'a \<Rightarrow> 'a \<times> ('e + i32)"
  ag_on_close :: "'a \<Rightarrow> 'a \<times> 'e option"

record 'a agent_runner =
  ar_agent :: 'a
  ar_idle_strategy :: idle_strategy
  ar_idle_state :: idle_strategy_state

definition runner_new :: "'a \<Rightarrow> idle_strategy \<Rightarrow> 'a agent_runner" where
  "runner_new agent strategy =
     \<lparr>ar_agent = agent, ar_idle_strategy = strategy, ar_idle_state = new_state strategy\<rparr>"

text \<open>The loop, from the \<open>n\<close>-th check of the flag on; the idle actions taken are collected.\<close>

partial_function (option) run_loop ::
  "('a \<Rightarrow> 'a \<times> ('e + i32)) \<Rightarrow> (nat \<Rightarrow> bool) \<Rightarrow> nat \<Rightarrow> 'a agent_runner \<Rightarrow> idle_action list \<Rightarrow>
   ('a agent_runner \<times> 'e option \<times> idle_action list) option" where
  "run_loop do_work running n r acts =
     (if \<not> running n then Some (r, None, acts)
      else
        let (a, res) = do_work (ar_agent r)
        in case res of
             Inl e \<Rightarrow> Some (r\<lparr>ar_agent := a\<rparr>, Some e, acts)
           | Inr work_count \<Rightarrow>
               (let (st, act) = idle (ar_idle_strategy r) (ar_idle_state r) work_count
                in run_loop do_work running (Suc n) (r\<lparr>ar_agent := a, ar_idle_state := st\<rparr>) (acts @ [act])))"

declare run_loop.simps [code]

definition runner_run ::
  "('a, 'e) agent \<Rightarrow> (nat \<Rightarrow> bool) \<Rightarrow> 'a agent_runner \<Rightarrow> ('a agent_runner \<times> 'e option \<times> idle_action list) option" where
  "runner_run ops running r =
     (case ag_on_start ops (ar_agent r) of
        (a, Some e) \<Rightarrow> Some (r\<lparr>ar_agent := a\<rparr>, Some e, [])
      | (a, None) \<Rightarrow>
          (case run_loop (ag_do_work ops) running 0 (r\<lparr>ar_agent := a\<rparr>) [] of
             None \<Rightarrow> None
           | Some (r', work_err, acts) \<Rightarrow>
               (let (a', close_result) = ag_on_close ops (ar_agent r')
                in Some (r'\<lparr>ar_agent := a'\<rparr>,
                         case work_err of Some e \<Rightarrow> Some e | None \<Rightarrow> close_result, acts))))"

text \<open>
  The handle: \<open>stop\<close> clears the flag, which the checks see from some point on; \<open>join\<close> gives the result of the
  run, or the error for a thread that panicked.
\<close>

definition stop_at :: "nat \<Rightarrow> (nat \<Rightarrow> bool) \<Rightarrow> nat \<Rightarrow> bool" where
  "stop_at n running i \<longleftrightarrow> i < n \<and> running i"

definition join_result :: "'e \<Rightarrow> ('a agent_runner \<times> 'e option \<times> idle_action list) option option \<Rightarrow> 'e option option" where
  "join_result panicked thread =
     (case thread of None \<Rightarrow> Some (Some panicked) | Some run \<Rightarrow> map_option (\<lambda>(r, res, acts). res) run)"

text \<open>The reference: at most \<open>n\<close> cycles, until the first error.\<close>

fun work_cycles :: "('a \<Rightarrow> 'a \<times> ('e + i32)) \<Rightarrow> nat \<Rightarrow> 'a \<Rightarrow> 'a \<times> 'e option \<times> i32 list" where
  "work_cycles do_work 0 a = (a, None, [])"
| "work_cycles do_work (Suc n) a =
     (case do_work a of
        (a', Inl e) \<Rightarrow> (a', Some e, [])
      | (a', Inr w) \<Rightarrow> (let (a'', err, ws) = work_cycles do_work n a' in (a'', err, w # ws)))"

lemma run_loop_cycles:
  assumes "\<forall>i < m. running (n + i)" "\<not> running (n + m)"
    and "work_cycles do_work m (ar_agent r) = (a', err, ws)"
  shows "run_loop do_work running n r acts =
    Some (r\<lparr>ar_agent := a', ar_idle_state := fst (idle_all (ar_idle_strategy r) (ar_idle_state r) ws)\<rparr>, err,
          acts @ snd (idle_all (ar_idle_strategy r) (ar_idle_state r) ws))"
  using assms
proof (induction m arbitrary: n r acts ws)
  case 0
  then show ?case by (simp add: run_loop.simps)
next
  case (Suc m)
  have run: "running n" using Suc.prems(1) by force
  obtain a res where w: "do_work (ar_agent r) = (a, res)" by fastforce
  show ?case
  proof (cases res)
    case (Inl e)
    then show ?thesis using Suc.prems(3) run w by (simp add: run_loop.simps [of _ _ n])
  next
    case (Inr wc)
    obtain vs where c: "work_cycles do_work m a = (a', err, vs)" "ws = wc # vs"
      using Suc.prems(3) w Inr by (auto split: prod.splits)
    obtain st act where i: "idle (ar_idle_strategy r) (ar_idle_state r) wc = (st, act)" by fastforce
    let ?r = "r\<lparr>ar_agent := a, ar_idle_state := st\<rparr>"
    have "run_loop do_work running n r acts = run_loop do_work running (Suc n) ?r (acts @ [act])"
      using run w Inr i by (simp add: run_loop.simps [of _ _ n])
    also have "\<dots> = Some (?r\<lparr>ar_agent := a', ar_idle_state := fst (idle_all (ar_idle_strategy ?r) (ar_idle_state ?r) vs)\<rparr>, err,
        (acts @ [act]) @ snd (idle_all (ar_idle_strategy ?r) (ar_idle_state ?r) vs))"
      by (rule Suc.IH) (use Suc.prems(1,2) c(1) in auto)
    finally show ?thesis using c(2) i by (simp add: Let_def split: prod.splits)
  qed
qed

text \<open>
  C27: A stopped agent ends, and is closed. Once the running flag is cleared, a run returns: it has called the
  duty cycle once per check that found the flag set, or up to its first error; then it has closed the agent,
  also after an error; it reports the error of the duty cycle if there was one, else that of closing. An agent
  whose start fails runs no cycle and is not closed.
\<close>

theorem stopped_agent_returns:
  assumes "\<forall>i < n. running i" "\<not> running n"
  shows "(\<forall>a e. ag_on_start ops (ar_agent r) = (a, Some e) \<longrightarrow>
      runner_run ops running r = Some (r\<lparr>ar_agent := a\<rparr>, Some e, [])) \<and>
    (\<forall>a a' err ws a'' close_err. ag_on_start ops (ar_agent r) = (a, None) \<longrightarrow>
      work_cycles (ag_do_work ops) n a = (a', err, ws) \<longrightarrow> ag_on_close ops a' = (a'', close_err) \<longrightarrow>
      (\<exists>r' acts. runner_run ops running r = Some (r', if err = None then close_err else err, acts) \<and>
        ar_agent r' = a'' \<and> acts = snd (idle_all (ar_idle_strategy r) (ar_idle_state r) ws)))"
proof (intro conjI allI impI)
  fix a e
  assume "ag_on_start ops (ar_agent r) = (a, Some e)"
  then show "runner_run ops running r = Some (r\<lparr>ar_agent := a\<rparr>, Some e, [])" by (simp add: runner_run_def)
next
  fix a a' err ws a'' close_err
  assume s: "ag_on_start ops (ar_agent r) = (a, None)" "work_cycles (ag_do_work ops) n a = (a', err, ws)"
    "ag_on_close ops a' = (a'', close_err)"
  have "run_loop (ag_do_work ops) running 0 (r\<lparr>ar_agent := a\<rparr>) [] =
    Some (r\<lparr>ar_agent := a', ar_idle_state := fst (idle_all (ar_idle_strategy r) (ar_idle_state r) ws)\<rparr>, err,
          snd (idle_all (ar_idle_strategy r) (ar_idle_state r) ws))"
    using run_loop_cycles [of n running 0 "ag_do_work ops" "r\<lparr>ar_agent := a\<rparr>" a' err ws "[]"] assms s(2) by simp
  then show "\<exists>r' acts. runner_run ops running r = Some (r', if err = None then close_err else err, acts) \<and>
      ar_agent r' = a'' \<and> acts = snd (idle_all (ar_idle_strategy r) (ar_idle_state r) ws)"
    using s by (cases err) (simp_all add: runner_run_def)
qed

definition counting_agent :: "(nat, bool) agent" where
  "counting_agent = \<lparr>ag_on_start = (\<lambda>a. (a, None)), ag_do_work = (\<lambda>a. (Suc a, if a = 5 then Inl True else Inr 0)),
     ag_on_close = (\<lambda>a. (a + 100, None))\<rparr>"

theorem stopped_agent_returns_witness:
  "(\<exists>r' acts. runner_run counting_agent (\<lambda>i. i < 3) (runner_new 0 default_backoff) = Some (r', None, acts) \<and> ar_agent r' = 103) \<and>
   (\<exists>r' acts. runner_run counting_agent (\<lambda>i. i < 9) (runner_new 0 default_backoff) = Some (r', Some True, acts) \<and> ar_agent r' = 106)"
proof -
  have "work_cycles (ag_do_work counting_agent) 3 0 = (3, None, [0, 0, 0])"
    "work_cycles (ag_do_work counting_agent) 9 0 = (6, Some True, [0, 0, 0, 0, 0])"
    by (simp_all add: counting_agent_def eval_nat_numeral)
  then have c: "work_cycles (ag_do_work counting_agent) 3 (ar_agent (runner_new 0 default_backoff)) = (3, None, [0, 0, 0])"
    "work_cycles (ag_do_work counting_agent) 9 (ar_agent (runner_new 0 default_backoff)) = (6, Some True, [0, 0, 0, 0, 0])"
    by (simp_all add: runner_new_def)
  have s: "ag_on_start counting_agent a = (a, None)" "ag_on_close counting_agent a = (a + 100, None)" for a
    by (simp_all add: counting_agent_def)
  show ?thesis
    using stopped_agent_returns [of 3 "\<lambda>i. i < 3" counting_agent "runner_new 0 default_backoff", THEN conjunct2, rule_format, OF _ _ s(1) c(1) s(2)]
      stopped_agent_returns [of 9 "\<lambda>i. i < 9" counting_agent "runner_new 0 default_backoff", THEN conjunct2, rule_format, OF _ _ s(1) c(2) s(2)]
    by (simp del: idle_all.simps) blast
qed

end
