(* ===== verification/Driver_Context.thy ===== *)
theory Driver_Context
  imports Slot_Pool Agent_Runner Concurrent_Publication Network_Publication
begin

text \<open>
  The driver configuration and its validation (\<^verbatim>\<open>src/src/context.rs\<close>). Unsigned fields are natural numbers,
  the \<open>i64\<close> intervals are signed words.
\<close>

datatype context_validation_error =
  RingSizeNotPowerOfTwo
| BufRingEntriesNotPowerOfTwo
| BufRingEntriesTooLarge
| BufRingEntriesZero
| SendSlotsZero
| MtuOutOfRange
| HeartbeatIntervalZero
| SmIntervalNegative
| NakDelayZero
| TimerIntervalZero
| SocketRcvbufZero
| SocketSndbufZero
| TermBufferLengthInvalid
| RetransmitLingerZero
| RttmIntervalZero
| MaxReceiverImagesInvalid
| IdleMinParkZero
| IdleMaxParkLessThanMin

record driver_context =
  socket_rcvbuf :: nat
  socket_sndbuf :: nat
  mtu_length :: nat
  multicast_ttl :: u8
  uring_ring_size :: nat
  uring_recv_slots_per_transport :: nat
  uring_send_slots :: nat
  uring_buf_ring_entries :: nat
  uring_sqpoll :: bool
  uring_sqpoll_idle_ms :: nat
  send_duty_cycle_ratio :: nat
  retransmit_unicast_delay_ns :: i64
  retransmit_unicast_linger_ns :: i64
  heartbeat_interval_ns :: i64
  term_buffer_length :: nat
  sm_interval_ns :: i64
  nak_delay_ns :: i64
  rttm_interval_ns :: i64
  max_receiver_images :: nat
  receiver_window :: "i32 option"
  send_sm_on_data :: bool
  driver_timeout_ns :: i64
  timer_interval_ns :: i64
  idle_strategy_max_spins :: nat
  idle_strategy_max_yields :: nat
  idle_strategy_min_park_ns :: nat
  idle_strategy_max_park_ns :: nat

definition driver_context_default :: driver_context where
  "driver_context_default =
     \<lparr>socket_rcvbuf = 2 * 1024 * 1024, socket_sndbuf = 2 * 1024 * 1024, mtu_length = 1408, multicast_ttl = 0,
      uring_ring_size = 512, uring_recv_slots_per_transport = 16, uring_send_slots = 128,
      uring_buf_ring_entries = 256, uring_sqpoll = False, uring_sqpoll_idle_ms = 1000,
      send_duty_cycle_ratio = 4, retransmit_unicast_delay_ns = 0, retransmit_unicast_linger_ns = 60 * 1000000,
      heartbeat_interval_ns = 100 * 1000000, term_buffer_length = 64 * 1024,
      sm_interval_ns = 200 * 1000000, nak_delay_ns = 60 * 1000000, rttm_interval_ns = 1000000000,
      max_receiver_images = 256, receiver_window = None, send_sm_on_data = False,
      driver_timeout_ns = 10 * 1000000000, timer_interval_ns = 1000000,
      idle_strategy_max_spins = 10, idle_strategy_max_yields = 5,
      idle_strategy_min_park_ns = 1000, idle_strategy_max_park_ns = 1000000\<rparr>"

definition validate :: "driver_context \<Rightarrow> context_validation_error option" where
  "validate ctx =
     (if uring_ring_size ctx = 0 \<or> \<not> is_power_of_two (uring_ring_size ctx) then Some RingSizeNotPowerOfTwo
      else if uring_buf_ring_entries ctx = 0 then Some BufRingEntriesZero
      else if \<not> is_power_of_two (uring_buf_ring_entries ctx) then Some BufRingEntriesNotPowerOfTwo
      else if 32768 < uring_buf_ring_entries ctx then Some BufRingEntriesTooLarge
      else if uring_send_slots ctx = 0 then Some SendSlotsZero
      else if mtu_length ctx < 64 \<or> MAX_RECV_BUFFER < mtu_length ctx then Some MtuOutOfRange
      else if sint (heartbeat_interval_ns ctx) \<le> 0 then Some HeartbeatIntervalZero
      else if sint (sm_interval_ns ctx) < 0 then Some SmIntervalNegative
      else if sint (nak_delay_ns ctx) \<le> 0 then Some NakDelayZero
      else if sint (timer_interval_ns ctx) \<le> 0 then Some TimerIntervalZero
      else if socket_rcvbuf ctx = 0 then Some SocketRcvbufZero
      else if socket_sndbuf ctx = 0 then Some SocketSndbufZero
      else if term_buffer_length ctx < 32 \<or> \<not> is_power_of_two (term_buffer_length ctx) then Some TermBufferLengthInvalid
      else if sint (retransmit_unicast_linger_ns ctx) \<le> 0 then Some RetransmitLingerZero
      else if sint (rttm_interval_ns ctx) \<le> 0 then Some RttmIntervalZero
      else if max_receiver_images ctx = 0 \<or> 256 < max_receiver_images ctx then Some MaxReceiverImagesInvalid
      else if idle_strategy_min_park_ns ctx = 0 then Some IdleMinParkZero
      else if idle_strategy_max_park_ns ctx < idle_strategy_min_park_ns ctx then Some IdleMaxParkLessThanMin
      else None)"

definition context_idle_strategy :: "driver_context \<Rightarrow> idle_strategy" where
  "context_idle_strategy ctx =
     Backoff (idle_strategy_max_spins ctx) (idle_strategy_max_yields ctx) (idle_strategy_min_park_ns ctx)
       (idle_strategy_max_park_ns ctx)"

lemma default_context_valid: "validate driver_context_default = None"
  by (simp add: validate_def driver_context_default_def MAX_RECV_BUFFER_def is_power_of_two.simps)

lemma validated:
  assumes "validate ctx = None"
  shows "is_power_of_two (uring_buf_ring_entries ctx)" "uring_buf_ring_entries ctx \<le> 32768" "0 < uring_send_slots ctx"
    "64 \<le> mtu_length ctx" "mtu_length ctx \<le> MAX_RECV_BUFFER" "32 \<le> term_buffer_length ctx"
    "is_power_of_two (term_buffer_length ctx)" "0 < max_receiver_images ctx" "max_receiver_images ctx \<le> 256"
    "0 < idle_strategy_min_park_ns ctx" "idle_strategy_min_park_ns ctx \<le> idle_strategy_max_park_ns ctx"
    "0 < sint (nak_delay_ns ctx)" "0 < sint (retransmit_unicast_linger_ns ctx)" "0 < sint (heartbeat_interval_ns ctx)"
  using assms by (auto simp: validate_def split: if_splits)

text \<open>A publication with the parameters of a valid context can always be created.\<close>

lemma validated_publication:
  assumes "validate ctx = None"
  shows "new_concurrent session stream initial (term_buffer_length ctx) (mtu_length ctx) \<noteq> None"
    "network_publication_new session stream initial (term_buffer_length ctx) (mtu_length ctx) \<noteq> None"
  using validated [OF assms]
  by (simp_all add: new_concurrent_def network_publication_new_def shared_log_buffer_new_def raw_log_new_def
      MIN_TERM_LENGTH_def term_constants DATA_HEADER_LENGTH_def split: option.splits)

text \<open>
  The send slots are not bounded above, although their numbers are 16 bits wide: a context that passes the
  validation makes a pool in which slots are listed twice.
\<close>

lemma valid_context_oversized_pool:
  "validate (driver_context_default\<lparr>uring_send_slots := 65537\<rparr>) = None"
  "\<not> distinct (sp_send_free (slot_pool_new 0 65537))"
  using oversized_pool_repeats [of 65537 0]
  by (simp_all add: validate_def driver_context_default_def MAX_RECV_BUFFER_def is_power_of_two.simps)

end
