(* ===== verification/Uring_Poller.thy ===== *)
theory Uring_Poller
  imports Driver_Context Endpoints
begin

text \<open>
  The io_uring transport poller of \<^verbatim>\<open>src/src/media/uring_poller.rs\<close>.

  The ring belongs to a library and the kernel: its state is a type variable, \<open>push\<close> and \<open>submit\<close> are arguments, and
  the completions waiting when a poll starts are an argument too, with what the accessors of the library say of
  each. So is \<open>parse\<close>, which splits a received buffer into name, payload and name length. \<open>None\<close> is a panic.
\<close>

unbundle bit_operations_syntax

section \<open>The provided buffer ring\<close>

definition RECV_MSG_OVERHEAD :: nat where "RECV_MSG_OVERHEAD = 16 + 128"
definition BUF_ENTRY_SIZE :: nat where "BUF_ENTRY_SIZE = MAX_RECV_BUFFER + RECV_MSG_OVERHEAD"

record buf_ring_entry =
  be_addr :: nat
  be_len :: nat
  be_bid :: u16

text \<open>Addresses are offsets into the buffer memory; the tail is the word the kernel reads.\<close>

record buf_ring_pool =
  br_ring :: "buf_ring_entry list"
  br_tail :: u16
  br_bufs :: "byte list"
  br_buf_size :: nat
  br_mask :: u16
  br_local_tail :: u16

definition buf_ring_entry_for :: "nat \<Rightarrow> nat \<Rightarrow> buf_ring_entry" where
  "buf_ring_entry_for buf_size i = \<lparr>be_addr = i * buf_size, be_len = buf_size, be_bid = of_nat i\<rparr>"

text \<open>Allocation and registration may fail with an error number.\<close>

definition buf_ring_new :: "i32 option \<Rightarrow> i32 option \<Rightarrow> i32 option \<Rightarrow> nat \<Rightarrow> nat \<Rightarrow> i32 + buf_ring_pool" where
  "buf_ring_new ring_alloc bufs_alloc register entries buf_size =
     (case ring_alloc of
        Some e \<Rightarrow> Inl e
      | None \<Rightarrow>
          (case bufs_alloc of
             Some e \<Rightarrow> Inl e
           | None \<Rightarrow>
               (case register of
                  Some e \<Rightarrow> Inl e
                | None \<Rightarrow>
                    Inr \<lparr>br_ring = map (buf_ring_entry_for buf_size) [0..<entries], br_tail = of_nat entries,
                         br_bufs = replicate (buf_size * entries) 0, br_buf_size = buf_size,
                         br_mask = of_nat entries - 1, br_local_tail = of_nat entries\<rparr>)))"

definition buf_data :: "buf_ring_pool \<Rightarrow> u16 \<Rightarrow> nat \<Rightarrow> byte list" where
  "buf_data br bid len =
     (if br_mask br < bid then []
      else bslice (unat bid * br_buf_size br) (min len (br_buf_size br)) (br_bufs br))"

definition return_buf_local :: "buf_ring_pool \<Rightarrow> u16 \<Rightarrow> buf_ring_pool" where
  "return_buf_local br bid =
     (if br_mask br < bid then br
      else
        let idx = unat (br_local_tail br AND br_mask br);
            entry = \<lparr>be_addr = unat bid * br_buf_size br, be_len = br_buf_size br, be_bid = bid\<rparr>
        in br\<lparr>br_ring := (br_ring br)[idx := entry], br_local_tail := br_local_tail br + 1\<rparr>)"

definition publish_tail :: "buf_ring_pool \<Rightarrow> buf_ring_pool" where
  "publish_tail br = br\<lparr>br_tail := br_local_tail br\<rparr>"

section \<open>User data\<close>

definition OP_RECV :: u8 where "OP_RECV = 1"
definition OP_SEND :: u8 where "OP_SEND = 2"

definition user_data_encode :: "u16 \<Rightarrow> u8 \<Rightarrow> u16 \<Rightarrow> 64 word" where
  "user_data_encode transport_idx op slot_idx =
     push_bit 48 (ucast transport_idx) OR push_bit 40 (ucast op) OR push_bit 24 (ucast slot_idx)"

definition ud_transport_idx :: "64 word \<Rightarrow> u16" where "ud_transport_idx ud = ucast (drop_bit 48 ud)"
definition ud_op :: "64 word \<Rightarrow> u8" where "ud_op ud = ucast (drop_bit 40 ud)"
definition ud_slot_idx :: "64 word \<Rightarrow> u16" where "ud_slot_idx ud = ucast (drop_bit 24 ud)"

section \<open>The poller\<close>

record transport_entry =
  te_recv_fd :: i32
  te_send_fd :: i32
  te_dispatch_clientd :: nat
  te_destination_clientd :: nat
  te_multishot_active :: bool
  te_active :: bool

datatype sqe =
  RecvMsgMulti i32 "64 word"
| SendMsg i32 send_slot "64 word"
| AsyncCancel "64 word" "64 word"

record cqe =
  cqe_user_data :: "64 word"
  cqe_result :: i32
  cqe_more :: bool
  cqe_buffer :: "u16 option"

record 'r uring_poller =
  up_ring :: 'r
  up_buf_ring :: buf_ring_pool
  up_pool :: slot_pool
  up_transports :: "transport_entry list"

record uring_message = recv_message +
  um_dispatch_clientd :: nat
  um_destination_clientd :: nat
  um_source_addr_len :: nat

record poll_result =
  res_bytes_received :: i64
  res_bytes_sent :: i64
  res_messages_received :: nat
  res_send_completions :: nat
  res_recv_errors :: nat
  res_send_errors :: nat
  res_cq_overflows :: nat

definition poll_result_default :: poll_result where
  "poll_result_default =
     \<lparr>res_bytes_received = 0, res_bytes_sent = 0, res_messages_received = 0, res_send_completions = 0,
      res_recv_errors = 0, res_send_errors = 0, res_cq_overflows = 0\<rparr>"

datatype uring_new_error = InvalidContext context_validation_error | UringOs i32

definition uring_poller_new ::
  "(nat \<Rightarrow> i32 + 'r) \<Rightarrow> i32 option \<Rightarrow> i32 option \<Rightarrow> i32 option \<Rightarrow> driver_context \<Rightarrow> uring_new_error + 'r uring_poller" where
  "uring_poller_new build ring_alloc bufs_alloc register ctx =
     (case validate ctx of
        Some e \<Rightarrow> Inl (InvalidContext e)
      | None \<Rightarrow>
          (case build (uring_ring_size ctx) of
             Inl e \<Rightarrow> Inl (UringOs e)
           | Inr ring \<Rightarrow>
               (case buf_ring_new ring_alloc bufs_alloc register (uring_buf_ring_entries ctx) BUF_ENTRY_SIZE of
                  Inl e \<Rightarrow> Inl (UringOs e)
                | Inr buf_ring \<Rightarrow>
                    Inr \<lparr>up_ring = ring, up_buf_ring = buf_ring, up_pool = slot_pool_new 0 (uring_send_slots ctx),
                         up_transports = []\<rparr>)))"

type_synonym 'r push = "'r \<Rightarrow> sqe \<Rightarrow> 'r option"
type_synonym 'r submit_ring = "'r \<Rightarrow> 'r \<times> i32 option"

definition submit_multishot_recv :: "'r push \<Rightarrow> 'r uring_poller \<Rightarrow> nat \<Rightarrow> ('r uring_poller \<times> poll_error option) option" where
  "submit_multishot_recv push p transport_idx =
     (if length (up_transports p) \<le> transport_idx then None
      else
        let entry = up_transports p ! transport_idx;
            ud = user_data_encode (of_nat transport_idx) OP_RECV 0
        in if \<not> te_active entry then Some (p, None)
           else case push (up_ring p) (RecvMsgMulti (te_recv_fd entry) ud) of
                  None \<Rightarrow> Some (p, Some RingFull)
                | Some ring \<Rightarrow>
                    Some (p\<lparr>up_ring := ring,
                            up_transports := (up_transports p)[transport_idx := entry\<lparr>te_multishot_active := True\<rparr>]\<rparr>, None))"

definition submit_send_sqe ::
  "'r push \<Rightarrow> 'r uring_poller \<Rightarrow> nat \<Rightarrow> nat \<Rightarrow> byte list \<Rightarrow> sockaddr_storage option \<Rightarrow>
   ('r uring_poller \<times> poll_error option) option" where
  "submit_send_sqe push p transport_idx slot_idx data dest =
     (if length (up_transports p) \<le> transport_idx then None
      else
        let entry = up_transports p ! transport_idx
        in if \<not> te_active entry then Some (p, None)
           else if length (sp_send_slots (up_pool p)) \<le> slot_idx then None
           else
             let slot = prepare_send (sp_send_slots (up_pool p) ! slot_idx) data dest;
                 p1 = p\<lparr>up_pool := (up_pool p)\<lparr>sp_send_slots := (sp_send_slots (up_pool p))[slot_idx := slot]\<rparr>\<rparr>;
                 ud = user_data_encode (of_nat transport_idx) OP_SEND (of_nat slot_idx)
             in case push (up_ring p1) (SendMsg (te_send_fd entry) slot ud) of
                  None \<Rightarrow> Some (p1, Some RingFull)
                | Some ring \<Rightarrow> Some (p1\<lparr>up_ring := ring\<rparr>, None))"

definition uring_submit_send ::
  "'r push \<Rightarrow> 'r uring_poller \<Rightarrow> nat \<Rightarrow> byte list \<Rightarrow> sockaddr_storage option \<Rightarrow> ('r uring_poller \<times> poll_error option) option" where
  "uring_submit_send push p transport_idx data dest =
     (case alloc_send (up_pool p) of
        None \<Rightarrow> Some (p, Some NoSendSlot)
      | Some (pool, slot_idx) \<Rightarrow>
          submit_send_sqe push (p\<lparr>up_pool := pool\<rparr>) (transport_idx mod 2 ^ 16) slot_idx data dest)"

fun recover_slots :: "nat list \<Rightarrow> slot_pool \<Rightarrow> slot_pool option" where
  "recover_slots [] pool = Some pool"
| "recover_slots (i # is) pool =
     (if ss_state (sp_send_slots pool ! i) = InFlight
      then Option.bind (complete_send pool i) (recover_slots is)
      else recover_slots is pool)"

definition recover_leaked_send_slots :: "'r uring_poller \<Rightarrow> 'r uring_poller option" where
  "recover_leaked_send_slots p =
     map_option (\<lambda>pool. p\<lparr>up_pool := pool\<rparr>) (recover_slots [0..<length (sp_send_slots (up_pool p))] (up_pool p))"

definition uring_send_available :: "'r uring_poller \<Rightarrow> nat" where
  "uring_send_available p = send_available (up_pool p)"

definition CQE_BATCH_SIZE :: nat where "CQE_BATCH_SIZE = 256"

text \<open>A transport as the poller reads it: the two descriptors and the two cookies.\<close>

definition uring_add_transport ::
  "'r push \<Rightarrow> 'r submit_ring \<Rightarrow> 'r uring_poller \<Rightarrow> i32 \<Rightarrow> i32 \<Rightarrow> nat \<Rightarrow> nat \<Rightarrow>
   ('r uring_poller \<times> (poll_error + nat)) option" where
  "uring_add_transport push submit p recv_fd send_fd dispatch_clientd destination_clientd =
     (let idx = length (up_transports p);
          p1 = p\<lparr>up_transports := up_transports p @
                   [\<lparr>te_recv_fd = recv_fd, te_send_fd = send_fd, te_dispatch_clientd = dispatch_clientd,
                     te_destination_clientd = destination_clientd, te_multishot_active = False, te_active = True\<rparr>]\<rparr>
      in case submit_multishot_recv push p1 (idx mod 2 ^ 16) of
           None \<Rightarrow> None
         | Some (p2, Some e) \<Rightarrow> Some (p2, Inl e)
         | Some (p2, None) \<Rightarrow>
             (case submit (up_ring p2) of
                (ring, Some e) \<Rightarrow> Some (p2\<lparr>up_ring := ring\<rparr>, Inl (Os e))
              | (ring, None) \<Rightarrow> Some (p2\<lparr>up_ring := ring\<rparr>, Inr idx)))"

definition uring_remove_transport :: "'r push \<Rightarrow> 'r submit_ring \<Rightarrow> 'r uring_poller \<Rightarrow> nat \<Rightarrow> 'r uring_poller" where
  "uring_remove_transport push submit p transport_idx =
     (if length (up_transports p) \<le> transport_idx then p
      else
        let entry = (up_transports p ! transport_idx)\<lparr>te_active := False, te_multishot_active := False\<rparr>;
            ud = user_data_encode (of_nat transport_idx) OP_RECV 0;
            ring = (case push (up_ring p) (AsyncCancel ud 0) of None \<Rightarrow> up_ring p | Some ring \<Rightarrow> ring)
        in p\<lparr>up_transports := (up_transports p)[transport_idx := entry], up_ring := fst (submit ring)\<rparr>)"

section \<open>Polling\<close>

text \<open>
  The completions taken into the batch and those left behind: the loop stops at the first one beyond the batch,
  after the iterator has already moved past it.
\<close>

definition harvest :: "cqe list \<Rightarrow> cqe list \<times> cqe list" where
  "harvest cq = (take CQE_BATCH_SIZE cq, drop (Suc CQE_BATCH_SIZE) cq)"

record 'r poll_state =
  ps_poller :: "'r uring_poller"
  ps_messages :: "uring_message list"
  ps_result :: poll_result
  ps_bufs_returned :: bool
  ps_needs_submit :: bool

definition count_recv_error :: "i32 \<Rightarrow> poll_result \<Rightarrow> poll_result" where
  "count_recv_error ret res =
     (let err = - ret
      in if err \<noteq> 11 \<and> err \<noteq> 4 \<and> err \<noteq> 125 then res\<lparr>res_recv_errors := res_recv_errors res + 1\<rparr> else res)"

definition source_address :: "byte list \<Rightarrow> sockaddr_storage" where
  "source_address name = (let copy_len = min (length name) 128 in take copy_len name @ replicate (128 - copy_len) 0)"

type_synonym recv_parser = "byte list \<Rightarrow> (byte list \<times> byte list \<times> nat) option"

text \<open>The message that a receive completion with a buffer brings, if any.\<close>

definition recv_message_of :: "recv_parser \<Rightarrow> 'r uring_poller \<Rightarrow> nat \<Rightarrow> u16 \<Rightarrow> i32 \<Rightarrow> uring_message option" where
  "recv_message_of parse p tidx bid ret =
     (case parse (buf_data (up_buf_ring p) bid (unat ret)) of
        None \<Rightarrow> None
      | Some (name, payload, name_len) \<Rightarrow>
          Some \<lparr>msg_transport_idx = tidx, msg_data = payload, msg_source_addr = source_address name,
                um_dispatch_clientd = te_dispatch_clientd (up_transports p ! tidx),
                um_destination_clientd = te_destination_clientd (up_transports p ! tidx), um_source_addr_len = name_len\<rparr>)"

definition transport_active :: "'r uring_poller \<Rightarrow> nat \<Rightarrow> bool" where
  "transport_active p tidx \<longleftrightarrow> tidx < length (up_transports p) \<and> te_active (up_transports p ! tidx)"

definition deliver_message :: "uring_message \<Rightarrow> 'r poll_state \<Rightarrow> 'r poll_state" where
  "deliver_message m st =
     st\<lparr>ps_messages := ps_messages st @ [m],
        ps_result := (ps_result st)\<lparr>res_bytes_received := res_bytes_received (ps_result st) + of_nat (length (msg_data m)),
                       res_messages_received := res_messages_received (ps_result st) + 1\<rparr>\<rparr>"

definition on_recv_buffer :: "recv_parser \<Rightarrow> nat \<Rightarrow> i32 \<Rightarrow> u16 option \<Rightarrow> 'r poll_state \<Rightarrow> 'r poll_state" where
  "on_recv_buffer parse tidx ret buffer st =
     (case buffer of
        Some bid \<Rightarrow>
          (let st1 =
                 (if 0 < sint ret \<and> transport_active (ps_poller st) tidx
                  then case recv_message_of parse (ps_poller st) tidx bid ret of
                         None \<Rightarrow> st
                       | Some m \<Rightarrow> deliver_message m st
                  else if sint ret < 0 then st\<lparr>ps_result := count_recv_error ret (ps_result st)\<rparr>
                  else st);
               p = ps_poller st1
           in st1\<lparr>ps_poller := p\<lparr>up_buf_ring := return_buf_local (up_buf_ring p) bid\<rparr>, ps_bufs_returned := True\<rparr>)
      | None \<Rightarrow>
          if sint ret < 0 then st\<lparr>ps_result := count_recv_error ret (ps_result st)\<rparr> else st)"

text \<open>A multishot receive that has ended is started again; an error of that is dropped.\<close>

definition rearm_recv :: "'r push \<Rightarrow> nat \<Rightarrow> 'r poll_state \<Rightarrow> 'r poll_state option" where
  "rearm_recv push tidx st =
     (let p = ps_poller st;
          p1 = p\<lparr>up_transports := (up_transports p)[tidx := (up_transports p ! tidx)\<lparr>te_multishot_active := False\<rparr>]\<rparr>
      in map_option (\<lambda>(p2, e). st\<lparr>ps_poller := p2, ps_needs_submit := True\<rparr>) (submit_multishot_recv push p1 tidx))"

definition on_recv_cqe :: "'r push \<Rightarrow> recv_parser \<Rightarrow> cqe \<Rightarrow> 'r poll_state \<Rightarrow> 'r poll_state option" where
  "on_recv_cqe push parse c st =
     (let tidx = unat (ud_transport_idx (cqe_user_data c));
          active = transport_active (ps_poller st) tidx;
          st1 = on_recv_buffer parse tidx (cqe_result c) (cqe_buffer c) st
      in if \<not> cqe_more c \<and> active then rearm_recv push tidx st1 else Some st1)"

definition on_send_cqe :: "cqe \<Rightarrow> 'r poll_state \<Rightarrow> 'r poll_state option" where
  "on_send_cqe c st =
     (let sidx = unat (ud_slot_idx (cqe_user_data c));
          res = ps_result st;
          res1 = (if 0 \<le> sint (cqe_result c)
                  then res\<lparr>res_bytes_sent := res_bytes_sent res + scast (cqe_result c),
                           res_send_completions := res_send_completions res + 1\<rparr>
                  else res\<lparr>res_send_errors := res_send_errors res + 1\<rparr>);
          p = ps_poller st
      in map_option (\<lambda>pool. st\<lparr>ps_poller := p\<lparr>up_pool := pool\<rparr>, ps_result := res1\<rparr>) (complete_send (up_pool p) sidx))"

definition on_cqe :: "'r push \<Rightarrow> recv_parser \<Rightarrow> cqe \<Rightarrow> 'r poll_state \<Rightarrow> 'r poll_state option" where
  "on_cqe push parse c st =
     (let op = ud_op (cqe_user_data c)
      in if op = OP_RECV then on_recv_cqe push parse c st
         else if op = OP_SEND then on_send_cqe c st
         else Some st)"

fun on_cqes :: "'r push \<Rightarrow> recv_parser \<Rightarrow> cqe list \<Rightarrow> 'r poll_state \<Rightarrow> 'r poll_state option" where
  "on_cqes push parse [] st = Some st"
| "on_cqes push parse (c # cs) st = Option.bind (on_cqe push parse c st) (on_cqes push parse cs)"

text \<open>A whole poll: the new poller, the completions left, the messages handed to the callback, the result.\<close>

definition uring_poll_recv ::
  "'r push \<Rightarrow> 'r submit_ring \<Rightarrow> recv_parser \<Rightarrow> nat \<Rightarrow> cqe list \<Rightarrow> 'r uring_poller \<Rightarrow>
   ('r uring_poller \<times> cqe list \<times> uring_message list \<times> (poll_error + poll_result)) option" where
  "uring_poll_recv push submit parse overflow cq p =
     (let (batch, left) = harvest cq;
          res = (if 0 < overflow then poll_result_default\<lparr>res_cq_overflows := overflow\<rparr> else poll_result_default)
      in case on_cqes push parse batch
                \<lparr>ps_poller = p, ps_messages = [], ps_result = res, ps_bufs_returned = False, ps_needs_submit = False\<rparr> of
           None \<Rightarrow> None
         | Some st \<Rightarrow>
             (let p1 = ps_poller st;
                  p2 = (if ps_bufs_returned st then p1\<lparr>up_buf_ring := publish_tail (up_buf_ring p1)\<rparr> else p1)
              in case (if 0 < res_cq_overflows (ps_result st) then recover_leaked_send_slots p2 else Some p2) of
                   None \<Rightarrow> None
                 | Some p3 \<Rightarrow>
                     if ps_needs_submit st
                     then (case submit (up_ring p3) of
                             (ring, Some e) \<Rightarrow> Some (p3\<lparr>up_ring := ring\<rparr>, left, ps_messages st, Inl (Os e))
                           | (ring, None) \<Rightarrow> Some (p3\<lparr>up_ring := ring\<rparr>, left, ps_messages st, Inr (ps_result st)))
                     else Some (p3, left, ps_messages st, Inr (ps_result st))))"

definition uring_flush :: "'r submit_ring \<Rightarrow> 'r uring_poller \<Rightarrow> 'r uring_poller \<times> poll_error option" where
  "uring_flush submit p =
     (case submit (up_ring p) of (ring, e) \<Rightarrow> (p\<lparr>up_ring := ring\<rparr>, map_option Os e))"

section \<open>User data is read back\<close>

lemma user_data_roundtrip:
  "ud_transport_idx (user_data_encode t op s) = t"
  "ud_op (user_data_encode t op s) = op"
  "ud_slot_idx (user_data_encode t op s) = s"
proof -
  show "ud_transport_idx (user_data_encode t op s) = t"
    by (rule bit_word_eqI)
      (auto simp: ud_transport_idx_def user_data_encode_def bit_simps dest: bit_imp_le_length)
  show "ud_op (user_data_encode t op s) = op"
    by (rule bit_word_eqI) (auto simp: ud_op_def user_data_encode_def bit_simps dest: bit_imp_le_length)
  show "ud_slot_idx (user_data_encode t op s) = s"
    by (rule bit_word_eqI) (auto simp: ud_slot_idx_def user_data_encode_def bit_simps dest: bit_imp_le_length)
qed

section \<open>What the kernel has\<close>

text \<open>
  The sends the kernel has not completed, by the slot that their user data names, with the datagram and the
  destination submitted; the buffers it has filled and not yet been given back; and how many ring entries it has
  consumed.
\<close>

record kernel =
  k_sends :: "nat \<rightharpoonup> byte list \<times> sockaddr_storage option"
  k_bufs :: "nat set"
  k_head :: nat

definition cqe_slot :: "cqe \<Rightarrow> nat option" where
  "cqe_slot c = (if ud_op (cqe_user_data c) = OP_SEND then Some (unat (ud_slot_idx (cqe_user_data c))) else None)"

definition cqe_bid :: "cqe \<Rightarrow> nat option" where
  "cqe_bid c = (if ud_op (cqe_user_data c) = OP_RECV then map_option unat (cqe_buffer c) else None)"

definition k_after :: "kernel \<Rightarrow> cqe \<Rightarrow> kernel" where
  "k_after k c = k\<lparr>k_sends := (k_sends k) |` (- set_option (cqe_slot c)), k_bufs := k_bufs k - set_option (cqe_bid c)\<rparr>"

text \<open>Completions that the kernel may post: each for a send or a buffer it has, no one twice.\<close>

fun owes :: "kernel \<Rightarrow> cqe list \<Rightarrow> bool" where
  "owes k [] \<longleftrightarrow> True"
| "owes k (c # cs) \<longleftrightarrow>
     set_option (cqe_slot c) \<subseteq> dom (k_sends k) \<and> set_option (cqe_bid c) \<subseteq> k_bufs k \<and> owes (k_after k c) cs"

section \<open>Send slots\<close>

definition slot_holds :: "send_slot \<Rightarrow> byte list \<times> sockaddr_storage option \<Rightarrow> bool" where
  "slot_holds s d \<longleftrightarrow> ss_data s = fst d \<and>
     (case snd d of None \<Rightarrow> \<not> ss_named s | Some a \<Rightarrow> ss_named s \<and> ss_addr s = a)"

definition slot_status :: "send_slot \<Rightarrow> (byte list \<times> sockaddr_storage option) option \<Rightarrow> bool" where
  "slot_status s o' \<longleftrightarrow> (case o' of None \<Rightarrow> ss_state s = SlotFree | Some d \<Rightarrow> ss_state s = InFlight \<and> slot_holds s d)"

definition sends_inv :: "nat \<Rightarrow> slot_pool \<Rightarrow> (nat \<rightharpoonup> byte list \<times> sockaddr_storage option) \<Rightarrow> bool" where
  "sends_inv n pool sends \<longleftrightarrow>
     send_pool_inv n pool \<and> set (sp_send_free pool) \<inter> dom sends = {} \<and> set (sp_send_free pool) \<union> dom sends = {..<n} \<and>
     (\<forall>i < n. slot_status (sp_send_slots pool ! i) (sends i))"

lemma prepared_slot: "slot_status (prepare_send s data dest) (Some (data, dest))"
  by (simp add: prepare_send_def slot_holds_def slot_status_def split: option.splits)

lemma freed_slot: "slot_status (s\<lparr>ss_state := SlotFree\<rparr>) None"
  by (simp add: slot_status_def)

lemma sends_submit:
  assumes "sends_inv n pool sends" "alloc_send pool = Some (pool', i)"
  shows "sends_inv n (pool'\<lparr>sp_send_slots := (sp_send_slots pool')[i := prepare_send (sp_send_slots pool' ! i) data dest]\<rparr>)
      (sends(i \<mapsto> (data, dest)))" "i < n" "length (sp_send_slots pool') = n" "i \<notin> dom sends"
proof -
  have inv: "send_pool_inv n pool" "set (sp_send_free pool) \<inter> dom sends = {}" "set (sp_send_free pool) \<union> dom sends = {..<n}"
    and st: "\<forall>i < n. slot_status (sp_send_slots pool ! i) (sends i)"
    using assms(1) by (simp_all add: sends_inv_def)
  have p: "send_pool_inv n pool'" "i \<in> set (sp_send_free pool)" "set (sp_send_free pool') = set (sp_send_free pool) - {i}"
    using send_pool.alloc_some [OF inv(1) assms(2)] by simp_all
  have slots: "sp_send_slots pool' = sp_send_slots pool" using assms(2) by (auto simp: alloc_send_def split: if_splits)
  show i: "i < n" "length (sp_send_slots pool') = n" "i \<notin> dom sends"
    using p(1,2) inv by (auto simp: send_pool_inv_def)
  let ?pool = "pool'\<lparr>sp_send_slots := (sp_send_slots pool')[i := prepare_send (sp_send_slots pool' ! i) data dest]\<rparr>"
  have "send_pool_inv n ?pool" using p(1) by (simp add: send_pool_inv_def)
  moreover have "set (sp_send_free ?pool) \<inter> dom (sends(i \<mapsto> (data, dest))) = {}"
    "set (sp_send_free ?pool) \<union> dom (sends(i \<mapsto> (data, dest))) = {..<n}"
    using inv(2,3) p(2,3) by auto
  moreover have "\<forall>j < n. slot_status (sp_send_slots ?pool ! j) ((sends(i \<mapsto> (data, dest))) j)"
    using st i by (simp add: slots nth_list_update prepared_slot)
  ultimately show "sends_inv n ?pool (sends(i \<mapsto> (data, dest)))" by (simp add: sends_inv_def)
qed

lemma sends_complete:
  assumes "sends_inv n pool sends" "i \<in> dom sends"
  shows "\<exists>pool'. complete_send pool i = Some pool' \<and> sends_inv n pool' (sends |` (- {i}))"
proof -
  have inv: "send_pool_inv n pool" "set (sp_send_free pool) \<inter> dom sends = {}" "set (sp_send_free pool) \<union> dom sends = {..<n}"
    and st: "\<forall>i < n. slot_status (sp_send_slots pool ! i) (sends i)"
    using assms(1) by (simp_all add: sends_inv_def)
  have i: "i < n" "i \<notin> set (sp_send_free pool)" using inv(2,3) assms(2) by auto
  let ?pool = "pool\<lparr>sp_send_slots := (sp_send_slots pool)[i := (sp_send_slots pool ! i)\<lparr>ss_state := SlotFree\<rparr>],
      sp_send_free := sp_send_free pool @ [i]\<rparr>"
  have "send_pool_inv n ?pool" using inv(1) i by (simp add: send_pool_inv_def)
  moreover have "set (sp_send_free ?pool) \<inter> dom (sends |` (- {i})) = {}"
    "set (sp_send_free ?pool) \<union> dom (sends |` (- {i})) = {..<n}"
    using inv(2,3) i assms(2) by auto
  moreover have "length (sp_send_slots pool) = n" using inv(1) by (simp add: send_pool_inv_def)
  then have "\<forall>j < n. slot_status (sp_send_slots ?pool ! j) ((sends |` (- {i})) j)"
    using st i by (simp add: nth_list_update freed_slot restrict_map_def)
  ultimately have "sends_inv n ?pool (sends |` (- {i}))" by (simp add: sends_inv_def)
  then show ?thesis using complete_send_held [OF inv(1) i] by simp
qed

section \<open>Buffers\<close>

text \<open>
  Ring positions are counted without bound: the kernel has consumed the entries below \<open>h\<close>, the poller has written
  those below \<open>t\<close>. The entries between and the buffers in use are all buffers, each once.
\<close>

definition live_bids :: "nat \<Rightarrow> buf_ring_pool \<Rightarrow> nat \<Rightarrow> nat \<Rightarrow> nat list" where
  "live_bids m br h t = map (\<lambda>i. unat (be_bid (br_ring br ! (i mod m)))) [h..<t]"

definition buf_inv :: "nat \<Rightarrow> buf_ring_pool \<Rightarrow> nat \<Rightarrow> nat \<Rightarrow> nat set \<Rightarrow> bool" where
  "buf_inv m br h t used \<longleftrightarrow>
     is_power_of_two m \<and> m \<le> 2 ^ 15 \<and> length (br_ring br) = m \<and> br_mask br = of_nat (m - 1) \<and>
     br_local_tail br = of_nat t \<and> h \<le> t \<and>
     distinct (live_bids m br h t) \<and> set (live_bids m br h t) \<inter> used = {} \<and> set (live_bids m br h t) \<union> used = {..<m} \<and>
     (\<forall>i \<in> {h..<t}. br_ring br ! (i mod m) =
        buf_ring_entry_for (br_buf_size br) (unat (be_bid (br_ring br ! (i mod m)))))"

lemma length_live_bids [simp]: "length (live_bids m br h t) = t - h"
  by (simp add: live_bids_def)

lemma buf_inv_room:
  assumes "buf_inv m br h t used" "b \<in> used"
  shows "t - h < m" "b < m" "0 < m"
proof -
  have "set (live_bids m br h t) \<inter> used = {}" "set (live_bids m br h t) \<union> used = {..<m}" "distinct (live_bids m br h t)"
    using assms(1) by (simp_all add: buf_inv_def)
  moreover from this show "b < m" using assms(2) by auto
  ultimately show "t - h < m" using stack_has_room [of "live_bids m br h t" m b] assms(2) by auto
  then show "0 < m" by simp
qed

lemma buf_index:
  assumes "is_power_of_two m" "m \<le> 2 ^ 15"
  shows "unat (of_nat t AND (of_nat (m - 1) :: u16)) = t mod m"
proof -
  obtain e where e: "m = 2 ^ e" using assms(1) by (auto simp: is_power_of_two_iff)
  have "t mod m < 2 ^ 16" using assms by (intro less_le_trans [OF mod_less_divisor]) (auto simp: e)
  then show ?thesis unfolding e and_mask_of_nat by (simp add: unat_of_nat_lt)
qed

lemma distinct_positions:
  fixes h t i m :: nat
  assumes "h \<le> i" "i < t" "t - h < m"
  shows "i mod m \<noteq> t mod m"
proof
  assume "i mod m = t mod m"
  then have "m dvd t - i" using assms(2) by (metis less_imp_le_nat mod_eq_dvd_iff_nat)
  then show False using assms by (meson diff_le_mono2 le_less_trans nat_dvd_not_less zero_less_diff)
qed

lemma buf_return:
  assumes "buf_inv m br h t used" "unat bid \<in> used"
  shows "buf_inv m (return_buf_local br bid) h (Suc t) (used - {unat bid})"
proof -
  note room = buf_inv_room [OF assms]
  have i: "is_power_of_two m" "m \<le> 2 ^ 15" "length (br_ring br) = m" "br_mask br = of_nat (m - 1)"
    "br_local_tail br = of_nat t" "h \<le> t" "distinct (live_bids m br h t)" "set (live_bids m br h t) \<inter> used = {}"
    "set (live_bids m br h t) \<union> used = {..<m}"
    and e: "\<forall>i \<in> {h..<t}. br_ring br ! (i mod m) = buf_ring_entry_for (br_buf_size br) (unat (be_bid (br_ring br ! (i mod m))))"
    using assms(1) by (simp_all add: buf_inv_def)
  have "unat (of_nat (m - 1) :: u16) = m - 1" using i(2) by (intro unat_of_nat_lt) simp
  then have "\<not> br_mask br < bid" using room(2) i(4) by (simp add: word_less_nat_alt)
  moreover define entry where "entry = buf_ring_entry_for (br_buf_size br) (unat bid)"
  ultimately have r: "return_buf_local br bid = br\<lparr>br_ring := (br_ring br)[t mod m := entry], br_local_tail := of_nat (Suc t)\<rparr>"
    using i(5) buf_index [OF i(1,2), of t] i(4) by (simp add: return_buf_local_def Let_def buf_ring_entry_for_def add.commute)
  have old: "(br_ring br)[t mod m := entry] ! (j mod m) = br_ring br ! (j mod m)" if "j \<in> {h..<t}" for j
    using distinct_positions [of h j t m] that room(1) by simp
  have new: "(br_ring br)[t mod m := entry] ! (t mod m) = entry" using i(3) room(3) by simp
  have bid: "unat (be_bid entry) = unat bid" by (simp add: entry_def buf_ring_entry_for_def)
  have live: "live_bids m (return_buf_local br bid) h (Suc t) = live_bids m br h t @ [unat bid]"
    using i(6) old new bid by (simp add: live_bids_def r)
  have "\<forall>j \<in> {h..<Suc t}. br_ring (return_buf_local br bid) ! (j mod m) =
      buf_ring_entry_for (br_buf_size br) (unat (be_bid (br_ring (return_buf_local br bid) ! (j mod m))))"
  proof
    fix j
    assume j: "j \<in> {h..<Suc t}"
    show "br_ring (return_buf_local br bid) ! (j mod m) =
      buf_ring_entry_for (br_buf_size br) (unat (be_bid (br_ring (return_buf_local br bid) ! (j mod m))))"
    proof (cases "j = t")
      case True
      then show ?thesis using new bid by (simp add: r entry_def)
    next
      case False
      then have "j \<in> {h..<t}" using j by simp
      then show ?thesis using old [of j] e by (simp add: r)
    qed
  qed
  moreover have "set (live_bids m br h t @ [unat bid]) \<inter> (used - {unat bid}) = {}"
    "set (live_bids m br h t @ [unat bid]) \<union> (used - {unat bid}) = {..<m}" "distinct (live_bids m br h t @ [unat bid])"
    using i(7-9) assms(2) by auto
  moreover have f: "length (br_ring (return_buf_local br bid)) = m" "br_mask (return_buf_local br bid) = of_nat (m - 1)"
    "br_local_tail (return_buf_local br bid) = of_nat (Suc t)" "br_buf_size (return_buf_local br bid) = br_buf_size br"
    using i(3,4) by (simp_all add: r)
  ultimately show ?thesis unfolding buf_inv_def live f using i(1,2,6) by simp
qed

lemma buf_take:
  assumes "buf_inv m br h t used" "h < t"
  shows "buf_inv m br (Suc h) t (insert (unat (be_bid (br_ring br ! (h mod m)))) used)"
proof -
  have "live_bids m br h t = unat (be_bid (br_ring br ! (h mod m))) # live_bids m br (Suc h) t"
    using assms(2) by (simp add: live_bids_def upt_conv_Cons)
  then show ?thesis using assms by (auto simp: buf_inv_def)
qed

lemma buf_inv_bound:
  assumes "buf_inv m br h t used"
  shows "t - h \<le> m"
proof -
  have "card (set (live_bids m br h t)) \<le> card {..<m}"
    by (rule card_mono) (use assms in \<open>auto simp: buf_inv_def\<close>)
  moreover have "distinct (live_bids m br h t)" using assms by (simp add: buf_inv_def)
  ultimately show ?thesis by (simp add: distinct_card)
qed

lemma buf_ring_new_inv:
  assumes "buf_ring_new ra ba rg m sz = Inr br" "is_power_of_two m" "m \<le> 2 ^ 15"
  shows "buf_inv m br 0 m {}" "br_tail br = br_local_tail br" "br_buf_size br = sz" "length (br_bufs br) = sz * m"
proof -
  have br: "br = \<lparr>br_ring = map (buf_ring_entry_for sz) [0..<m], br_tail = of_nat m, br_bufs = replicate (sz * m) 0,
      br_buf_size = sz, br_mask = of_nat m - 1, br_local_tail = of_nat m\<rparr>"
    using assms(1) by (auto simp: buf_ring_new_def split: option.splits)
  then show "br_tail br = br_local_tail br" "br_buf_size br = sz" "length (br_bufs br) = sz * m" by simp_all
  have m: "0 < m" using assms(2) by (auto simp: is_power_of_two_iff)
  have b: "unat (of_nat i :: u16) = i" if "i < m" for i using that assms(3) by (intro unat_of_nat_lt) simp
  have "live_bids m br 0 m = map (\<lambda>i. i) [0..<m]" unfolding live_bids_def
    by (rule map_cong) (simp_all add: br buf_ring_entry_for_def b)
  then have live: "live_bids m br 0 m = [0..<m]" by simp
  have "\<forall>i \<in> {0..<m}. br_ring br ! (i mod m) = buf_ring_entry_for (br_buf_size br) (unat (be_bid (br_ring br ! (i mod m))))"
    by (simp add: br buf_ring_entry_for_def b)
  then show "buf_inv m br 0 m {}"
    using assms(2,3) m unfolding buf_inv_def live by (auto simp: br of_nat_diff)
qed

section \<open>A poll\<close>

definition poller_inv :: "nat \<Rightarrow> nat \<Rightarrow> 'r uring_poller \<Rightarrow> kernel \<Rightarrow> bool" where
  "poller_inv n m p k \<longleftrightarrow>
     sends_inv n (up_pool p) (k_sends k) \<and> (\<exists>t. buf_inv m (up_buf_ring p) (k_head k) t (k_bufs k))"

text \<open>What the delivery of a message reads of the poller.\<close>

definition poller_view :: "'r uring_poller \<Rightarrow> (bool \<times> nat \<times> nat) list \<times> byte list \<times> u16 \<times> nat" where
  "poller_view p =
     (map (\<lambda>e. (te_active e, te_dispatch_clientd e, te_destination_clientd e)) (up_transports p),
      br_bufs (up_buf_ring p), br_mask (up_buf_ring p), br_buf_size (up_buf_ring p))"

definition message_for :: "recv_parser \<Rightarrow> 'r uring_poller \<Rightarrow> cqe \<Rightarrow> uring_message option" where
  "message_for parse p c =
     (let tidx = unat (ud_transport_idx (cqe_user_data c))
      in if ud_op (cqe_user_data c) = OP_RECV \<and> 0 < sint (cqe_result c) \<and> transport_active p tidx
         then Option.bind (cqe_buffer c) (\<lambda>bid. recv_message_of parse p tidx bid (cqe_result c))
         else None)"

lemma view_transports:
  assumes "poller_view p = poller_view p'"
  shows "length (up_transports p) = length (up_transports p')"
    "i < length (up_transports p) \<Longrightarrow>
      te_active (up_transports p ! i) = te_active (up_transports p' ! i) \<and>
      te_dispatch_clientd (up_transports p ! i) = te_dispatch_clientd (up_transports p' ! i) \<and>
      te_destination_clientd (up_transports p ! i) = te_destination_clientd (up_transports p' ! i)"
proof -
  let ?f = "\<lambda>e. (te_active e, te_dispatch_clientd e, te_destination_clientd e)"
  have m: "map ?f (up_transports p) = map ?f (up_transports p')" using assms by (simp add: poller_view_def)
  then show l: "length (up_transports p) = length (up_transports p')" by (rule map_eq_imp_length_eq)
  show "te_active (up_transports p ! i) = te_active (up_transports p' ! i) \<and>
      te_dispatch_clientd (up_transports p ! i) = te_dispatch_clientd (up_transports p' ! i) \<and>
      te_destination_clientd (up_transports p ! i) = te_destination_clientd (up_transports p' ! i)"
    if "i < length (up_transports p)"
    using arg_cong [OF m, of "\<lambda>xs. xs ! i"] that l by simp
qed

lemma message_for_view:
  assumes "poller_view p = poller_view p'"
  shows "message_for parse p c = message_for parse p' c"
    "transport_active p i = transport_active p' i"
proof -
  note t = view_transports [OF assms]
  show a: "transport_active p i = transport_active p' i" for i using t by (auto simp: transport_active_def)
  have b: "buf_data (up_buf_ring p) bid len = buf_data (up_buf_ring p') bid len" for bid len
    using assms by (simp add: poller_view_def buf_data_def)
  have "recv_message_of parse p i bid ret = recv_message_of parse p' i bid ret" if "transport_active p i" for i bid ret
    using t(2) [of i] that b by (simp add: recv_message_of_def transport_active_def split: option.splits)
  then show "message_for parse p c = message_for parse p' c"
    using a by (simp add: message_for_def Let_def)
qed

lemma return_buf_view [simp]:
  "br_bufs (return_buf_local br bid) = br_bufs br" "br_mask (return_buf_local br bid) = br_mask br"
  "br_buf_size (return_buf_local br bid) = br_buf_size br" "br_tail (return_buf_local br bid) = br_tail br"
  by (simp_all add: return_buf_local_def Let_def)

lemma on_recv_buffer_effect:
  fixes st :: "'r poll_state"
  defines "p \<equiv> ps_poller st"
  shows "ps_poller (on_recv_buffer parse tidx ret buffer st) =
      (case buffer of None \<Rightarrow> p | Some bid \<Rightarrow> p\<lparr>up_buf_ring := return_buf_local (up_buf_ring p) bid\<rparr>)"
    "ps_messages (on_recv_buffer parse tidx ret buffer st) = ps_messages st @
      (case (if 0 < sint ret \<and> transport_active p tidx then Option.bind buffer (\<lambda>bid. recv_message_of parse p tidx bid ret) else None)
       of None \<Rightarrow> [] | Some m \<Rightarrow> [m])"
    "ps_bufs_returned (on_recv_buffer parse tidx ret buffer st) = (ps_bufs_returned st \<or> buffer \<noteq> None)"
    "ps_needs_submit (on_recv_buffer parse tidx ret buffer st) = ps_needs_submit st"
    "res_cq_overflows (ps_result (on_recv_buffer parse tidx ret buffer st)) = res_cq_overflows (ps_result st)"
    "res_messages_received (ps_result (on_recv_buffer parse tidx ret buffer st)) + length (ps_messages st) =
      res_messages_received (ps_result st) + length (ps_messages (on_recv_buffer parse tidx ret buffer st))"
  unfolding p_def
  by (auto simp: on_recv_buffer_def deliver_message_def count_recv_error_def Let_def split: option.splits)

lemma multishot_flag_view:
  "poller_view (p\<lparr>up_ring := ring, up_transports := (up_transports p)[i := (up_transports p ! i)\<lparr>te_multishot_active := b\<rparr>]\<rparr>) =
     poller_view p"
  by (cases "i < length (up_transports p)") (auto simp: poller_view_def list_eq_iff_nth_eq nth_list_update)

lemma submit_multishot_recv_effect:
  assumes "i < length (up_transports p)"
  shows "\<exists>p' e. submit_multishot_recv push p i = Some (p', e) \<and> up_pool p' = up_pool p \<and> up_buf_ring p' = up_buf_ring p \<and>
    poller_view p' = poller_view p"
  using assms multishot_flag_view [where p = p and i = i and b = True]
  by (auto simp: submit_multishot_recv_def Let_def split: option.splits)

lemma rearm_recv_effect:
  assumes "tidx < length (up_transports (ps_poller st))"
  shows "\<exists>st'. rearm_recv push tidx st = Some st' \<and> up_pool (ps_poller st') = up_pool (ps_poller st) \<and>
    up_buf_ring (ps_poller st') = up_buf_ring (ps_poller st) \<and> poller_view (ps_poller st') = poller_view (ps_poller st) \<and>
    ps_messages st' = ps_messages st \<and> ps_result st' = ps_result st \<and> ps_bufs_returned st' = ps_bufs_returned st"
proof -
  let ?p = "ps_poller st"
  let ?p1 = "?p\<lparr>up_transports := (up_transports ?p)[tidx := (up_transports ?p ! tidx)\<lparr>te_multishot_active := False\<rparr>]\<rparr>"
  have v: "poller_view ?p1 = poller_view ?p" using multishot_flag_view [where p = ?p and ring = "up_ring ?p" and i = tidx and b = False] by simp
  have "tidx < length (up_transports ?p1)" using assms by simp
  from submit_multishot_recv_effect [OF this, of push] obtain p' e where
    "submit_multishot_recv push ?p1 tidx = Some (p', e)" "up_pool p' = up_pool ?p1" "up_buf_ring p' = up_buf_ring ?p1"
    "poller_view p' = poller_view ?p1" by blast
  then show ?thesis using v by (simp add: rearm_recv_def Let_def)
qed

lemma restrict_UNIV [simp]: "f |` UNIV = f"
  by (simp add: restrict_map_def)

lemma on_cqe_inv:
  fixes st :: "'r poll_state"
  assumes "poller_inv n m (ps_poller st) k" "set_option (cqe_slot c) \<subseteq> dom (k_sends k)" "set_option (cqe_bid c) \<subseteq> k_bufs k"
    and "\<not> ps_bufs_returned st \<Longrightarrow> br_tail (up_buf_ring (ps_poller st)) = br_local_tail (up_buf_ring (ps_poller st))"
  shows "\<exists>st'. on_cqe push parse c st = Some st' \<and> poller_inv n m (ps_poller st') (k_after k c) \<and>
    poller_view (ps_poller st') = poller_view (ps_poller st) \<and>
    ps_messages st' = ps_messages st @ (case message_for parse (ps_poller st) c of None \<Rightarrow> [] | Some msg \<Rightarrow> [msg]) \<and>
    (\<not> ps_bufs_returned st' \<longrightarrow> br_tail (up_buf_ring (ps_poller st')) = br_local_tail (up_buf_ring (ps_poller st'))) \<and>
    res_cq_overflows (ps_result st') = res_cq_overflows (ps_result st) \<and>
    res_messages_received (ps_result st') + length (ps_messages st) = res_messages_received (ps_result st) + length (ps_messages st')"
proof -
  let ?op = "ud_op (cqe_user_data c)"
  consider (recv) "?op = OP_RECV" | (send) "?op = OP_SEND" | (other) "?op \<noteq> OP_RECV" "?op \<noteq> OP_SEND" by blast
  then show ?thesis
  proof cases
    case recv
    then have op: "cqe_slot c = None" "cqe_bid c = map_option unat (cqe_buffer c)"
      by (simp_all add: cqe_slot_def cqe_bid_def OP_RECV_def OP_SEND_def)
    let ?t = "unat (ud_transport_idx (cqe_user_data c))"
    define st1 where "st1 = on_recv_buffer parse ?t (cqe_result c) (cqe_buffer c) st"
    note e = on_recv_buffer_effect [of parse ?t "cqe_result c" "cqe_buffer c" st, folded st1_def]
    have inv: "poller_inv n m (ps_poller st1) (k_after k c)"
    proof (cases "cqe_buffer c")
      case None
      then show ?thesis using assms(1) unfolding e(1) by (simp add: poller_inv_def k_after_def op)
    next
      case (Some bid)
      obtain t where t: "buf_inv m (up_buf_ring (ps_poller st)) (k_head k) t (k_bufs k)"
        using assms(1) by (auto simp: poller_inv_def)
      have "unat bid \<in> k_bufs k" using assms(3) op Some by simp
      from buf_return [OF t this] show ?thesis using assms(1) Some unfolding e(1)
        by (auto simp: poller_inv_def k_after_def op)
    qed
    have view: "poller_view (ps_poller st1) = poller_view (ps_poller st)"
      unfolding e(1) by (simp add: poller_view_def split: option.splits)
    have msg: "ps_messages st1 = ps_messages st @ (case message_for parse (ps_poller st) c of None \<Rightarrow> [] | Some msg \<Rightarrow> [msg])"
      unfolding e(2) using recv by (simp add: message_for_def Let_def)
    have tail: "\<not> ps_bufs_returned st1 \<Longrightarrow> br_tail (up_buf_ring (ps_poller st1)) = br_local_tail (up_buf_ring (ps_poller st1))"
      using assms(4) e(3) unfolding e(1) by (simp split: option.splits)
    have step: "on_cqe push parse c st =
        (if \<not> cqe_more c \<and> transport_active (ps_poller st) ?t then rearm_recv push ?t st1 else Some st1)"
      using recv by (simp add: on_cqe_def on_recv_cqe_def Let_def st1_def)
    show ?thesis
    proof (cases "\<not> cqe_more c \<and> transport_active (ps_poller st) ?t")
      case True
      then have "?t < length (up_transports (ps_poller st1))"
        using message_for_view(2) [OF view, of ?t] by (simp add: transport_active_def)
      from rearm_recv_effect [OF this, of push] obtain st' where
        st': "rearm_recv push ?t st1 = Some st'" "up_pool (ps_poller st') = up_pool (ps_poller st1)"
        "up_buf_ring (ps_poller st') = up_buf_ring (ps_poller st1)" "poller_view (ps_poller st') = poller_view (ps_poller st1)"
        "ps_messages st' = ps_messages st1" "ps_result st' = ps_result st1" "ps_bufs_returned st' = ps_bufs_returned st1" by blast
      have "poller_inv n m (ps_poller st') (k_after k c)" using inv st'(2,3) by (simp add: poller_inv_def)
      then show ?thesis using step True st' view msg tail e(5,6) by (intro exI [of _ st']) auto
    next
      case False
      then show ?thesis using step inv view msg tail e(5,6) by (intro exI [of _ st1]) auto
    qed
  next
    case send
    then have op: "cqe_slot c = Some (unat (ud_slot_idx (cqe_user_data c)))" "cqe_bid c = None" "message_for parse (ps_poller st) c = None"
      by (simp_all add: cqe_slot_def cqe_bid_def message_for_def OP_RECV_def OP_SEND_def)
    from sends_complete [of n "up_pool (ps_poller st)" "k_sends k" "unat (ud_slot_idx (cqe_user_data c))"] assms(1,2) op(1)
    obtain pool where pool: "complete_send (up_pool (ps_poller st)) (unat (ud_slot_idx (cqe_user_data c))) = Some pool"
      "sends_inv n pool ((k_sends k) |` (- {unat (ud_slot_idx (cqe_user_data c))}))"
      by (auto simp: poller_inv_def)
    then show ?thesis using send assms(1,4) op
      by (auto simp: on_cqe_def on_send_cqe_def Let_def OP_SEND_def OP_RECV_def poller_inv_def k_after_def poller_view_def)
  next
    case other
    then have "cqe_slot c = None" "cqe_bid c = None" "message_for parse (ps_poller st) c = None"
      by (simp_all add: cqe_slot_def cqe_bid_def message_for_def)
    then show ?thesis using other assms(1,4) by (simp add: on_cqe_def k_after_def Let_def)
  qed
qed

lemma on_cqes_inv:
  fixes st :: "'r poll_state"
  assumes "poller_inv n m (ps_poller st) k" "owes k cs"
    and "\<not> ps_bufs_returned st \<Longrightarrow> br_tail (up_buf_ring (ps_poller st)) = br_local_tail (up_buf_ring (ps_poller st))"
  shows "\<exists>st'. on_cqes push parse cs st = Some st' \<and> poller_inv n m (ps_poller st') (foldl k_after k cs) \<and>
    poller_view (ps_poller st') = poller_view (ps_poller st) \<and>
    ps_messages st' = ps_messages st @ List.map_filter (message_for parse (ps_poller st)) cs \<and>
    (\<not> ps_bufs_returned st' \<longrightarrow> br_tail (up_buf_ring (ps_poller st')) = br_local_tail (up_buf_ring (ps_poller st'))) \<and>
    res_cq_overflows (ps_result st') = res_cq_overflows (ps_result st) \<and>
    res_messages_received (ps_result st') + length (ps_messages st) = res_messages_received (ps_result st) + length (ps_messages st')"
  using assms
proof (induction cs arbitrary: st k)
  case Nil
  then show ?case by (simp add: List.map_filter_simps)
next
  case (Cons c cs)
  have o: "set_option (cqe_slot c) \<subseteq> dom (k_sends k)" "set_option (cqe_bid c) \<subseteq> k_bufs k" "owes (k_after k c) cs"
    using Cons.prems(2) by simp_all
  from on_cqe_inv [OF Cons.prems(1) o(1,2) Cons.prems(3), of push parse] obtain st1 where
    s: "on_cqe push parse c st = Some st1" "poller_inv n m (ps_poller st1) (k_after k c)"
    "poller_view (ps_poller st1) = poller_view (ps_poller st)"
    "ps_messages st1 = ps_messages st @ (case message_for parse (ps_poller st) c of None \<Rightarrow> [] | Some msg \<Rightarrow> [msg])"
    "\<not> ps_bufs_returned st1 \<longrightarrow> br_tail (up_buf_ring (ps_poller st1)) = br_local_tail (up_buf_ring (ps_poller st1))"
    "res_cq_overflows (ps_result st1) = res_cq_overflows (ps_result st)"
    "res_messages_received (ps_result st1) + length (ps_messages st) = res_messages_received (ps_result st) + length (ps_messages st1)"
    by blast
  have eq: "message_for parse (ps_poller st1) = message_for parse (ps_poller st)"
    using message_for_view(1) [OF s(3)] by blast
  from Cons.IH [OF s(2) o(3)] s(5) obtain st2 where
    t: "on_cqes push parse cs st1 = Some st2" "poller_inv n m (ps_poller st2) (foldl k_after (k_after k c) cs)"
    "poller_view (ps_poller st2) = poller_view (ps_poller st1)"
    "ps_messages st2 = ps_messages st1 @ List.map_filter (message_for parse (ps_poller st1)) cs"
    "\<not> ps_bufs_returned st2 \<longrightarrow> br_tail (up_buf_ring (ps_poller st2)) = br_local_tail (up_buf_ring (ps_poller st2))"
    "res_cq_overflows (ps_result st2) = res_cq_overflows (ps_result st1)"
    "res_messages_received (ps_result st2) + length (ps_messages st1) = res_messages_received (ps_result st1) + length (ps_messages st2)"
    by blast
  have "ps_messages st2 = ps_messages st @ List.map_filter (message_for parse (ps_poller st)) (c # cs)"
    using t(4) s(4) eq by (simp add: List.map_filter_simps split: option.splits)
  then show ?case using s(1,3,6,7) t(1-3,5-7) by (intro exI [of _ st2]) auto
qed

text \<open>Every poll without overflow that finds at most a batch of completions the kernel owes.\<close>

lemma uring_poll_recv_inv:
  assumes "poller_inv n m p k" "br_tail (up_buf_ring p) = br_local_tail (up_buf_ring p)" "owes k cq" "length cq \<le> CQE_BATCH_SIZE"
  shows "\<exists>p' r. uring_poll_recv push submit parse 0 cq p = Some (p', [], List.map_filter (message_for parse p) cq, r) \<and>
    poller_inv n m p' (foldl k_after k cq) \<and> br_tail (up_buf_ring p') = br_local_tail (up_buf_ring p') \<and>
    poller_view p' = poller_view p \<and>
    (\<forall>res. r = Inr res \<longrightarrow> res_messages_received res = length (List.map_filter (message_for parse p) cq))"
proof -
  let ?st = "\<lparr>ps_poller = p, ps_messages = [], ps_result = poll_result_default, ps_bufs_returned = False, ps_needs_submit = False\<rparr>"
  have h: "harvest cq = (cq, [])" using assms(4) by (simp add: harvest_def)
  from on_cqes_inv [of n m ?st k cq push parse] assms obtain st where
    st: "on_cqes push parse cq ?st = Some st" "poller_inv n m (ps_poller st) (foldl k_after k cq)"
    "poller_view (ps_poller st) = poller_view p" "ps_messages st = List.map_filter (message_for parse p) cq"
    "\<not> ps_bufs_returned st \<longrightarrow> br_tail (up_buf_ring (ps_poller st)) = br_local_tail (up_buf_ring (ps_poller st))"
    "res_cq_overflows (ps_result st) = 0" "res_messages_received (ps_result st) = length (ps_messages st)"
    by (auto simp: poll_result_default_def)
  define p2 where "p2 = (if ps_bufs_returned st then (ps_poller st)\<lparr>up_buf_ring := publish_tail (up_buf_ring (ps_poller st))\<rparr> else ps_poller st)"
  have p2: "poller_inv n m p2 (foldl k_after k cq)" "br_tail (up_buf_ring p2) = br_local_tail (up_buf_ring p2)" "poller_view p2 = poller_view p"
    using st(2,3,5) by (auto simp: p2_def poller_inv_def buf_inv_def live_bids_def publish_tail_def poller_view_def)
  have "\<exists>ring r. uring_poll_recv push submit parse 0 cq p = Some (p2\<lparr>up_ring := ring\<rparr>, [], List.map_filter (message_for parse p) cq, r) \<and>
      (\<forall>res. r = Inr res \<longrightarrow> res = ps_result st)"
  proof (cases "ps_needs_submit st")
    case True
    obtain ring e where "submit (up_ring p2) = (ring, e)" by fastforce
    then show ?thesis using True st(1,4,6) by (cases e) (auto simp: uring_poll_recv_def h Let_def p2_def)
  next
    case False
    have "p2 = p2\<lparr>up_ring := up_ring p2\<rparr>" by simp
    then show ?thesis using False st(1,4,6)
      by (intro exI [of _ "up_ring p2"] exI [of _ "Inr (ps_result st)"]) (simp add: uring_poll_recv_def h Let_def p2_def)
  qed
  then obtain ring r where r: "uring_poll_recv push submit parse 0 cq p = Some (p2\<lparr>up_ring := ring\<rparr>, [], List.map_filter (message_for parse p) cq, r)"
    "\<forall>res. r = Inr res \<longrightarrow> res = ps_result st" by blast
  have "poller_inv n m (p2\<lparr>up_ring := ring\<rparr>) (foldl k_after k cq)" "poller_view (p2\<lparr>up_ring := ring\<rparr>) = poller_view p"
    using p2(1,3) by (simp_all add: poller_inv_def poller_view_def)
  then show ?thesis using r p2(2) st(4,7) by (intro exI [of _ "p2\<lparr>up_ring := ring\<rparr>"] exI [of _ r]) auto
qed

section \<open>Runs of poller and kernel\<close>

inductive uring_step ::
  "'r push \<Rightarrow> 'r submit_ring \<Rightarrow> recv_parser \<Rightarrow> 'r uring_poller \<times> kernel \<Rightarrow> 'r uring_poller \<times> kernel \<Rightarrow> bool"
  for push submit parse where
  step_send: "uring_submit_send push p t data dest = Some (p', None) \<Longrightarrow> transport_active p (t mod 2 ^ 16) \<Longrightarrow>
    ud = user_data_encode (of_nat (t mod 2 ^ 16)) OP_SEND (of_nat (last (sp_send_free (up_pool p)))) \<Longrightarrow>
    uring_step push submit parse (p, k) (p', k\<lparr>k_sends := (k_sends k)(unat (ud_slot_idx ud) \<mapsto> (data, dest))\<rparr>)"
| step_refused: "uring_submit_send push p t data dest = Some (p', Some NoSendSlot) \<Longrightarrow>
    uring_step push submit parse (p, k) (p', k)"
| step_fill: "of_nat (k_head k) \<noteq> br_tail (up_buf_ring p) \<Longrightarrow> length bufs = length (br_bufs (up_buf_ring p)) \<Longrightarrow>
    bid = be_bid (br_ring (up_buf_ring p) ! (k_head k mod length (br_ring (up_buf_ring p)))) \<Longrightarrow>
    uring_step push submit parse (p, k)
      (p\<lparr>up_buf_ring := (up_buf_ring p)\<lparr>br_bufs := bufs\<rparr>\<rparr>,
       k\<lparr>k_head := Suc (k_head k), k_bufs := insert (unat bid) (k_bufs k)\<rparr>)"
| step_poll: "uring_poll_recv push submit parse 0 cq p = Some (p', left, msgs, r) \<Longrightarrow> owes k cq \<Longrightarrow>
    length cq \<le> CQE_BATCH_SIZE \<Longrightarrow> uring_step push submit parse (p, k) (p', foldl k_after k cq)"
| step_add: "uring_add_transport push submit p recv_fd send_fd dispatch destination = Some (p', r) \<Longrightarrow>
    uring_step push submit parse (p, k) (p', k)"
| step_remove: "uring_step push submit parse (p, k) (uring_remove_transport push submit p i, k)"
| step_flush: "uring_step push submit parse (p, k) (fst (uring_flush submit p), k)"

definition kernel_init :: kernel where
  "kernel_init = \<lparr>k_sends = Map.empty, k_bufs = {}, k_head = 0\<rparr>"

definition uring_inv :: "nat \<Rightarrow> nat \<Rightarrow> 'r uring_poller \<times> kernel \<Rightarrow> bool" where
  "uring_inv n m s \<longleftrightarrow> n \<le> 2 ^ 16 \<and> poller_inv n m (fst s) (snd s) \<and>
     br_tail (up_buf_ring (fst s)) = br_local_tail (up_buf_ring (fst s))"

lemma frame_inv:
  assumes "uring_inv n m (p, k)" "up_pool p' = up_pool p" "up_buf_ring p' = up_buf_ring p"
  shows "uring_inv n m (p', k)"
  using assms by (simp add: uring_inv_def poller_inv_def)

lemma uring_step_inv:
  assumes "uring_step push submit parse s s'" "uring_inv n m s"
  shows "uring_inv n m s'"
  using assms
proof (induction rule: uring_step.induct)
  case (step_send p t data dest p' ud k)
  have inv: "n \<le> 2 ^ 16" "sends_inv n (up_pool p) (k_sends k)" using step_send.prems by (simp_all add: uring_inv_def poller_inv_def)
  obtain pool where a: "alloc_send (up_pool p) = Some (pool, last (sp_send_free (up_pool p)))"
    using step_send.hyps(1) by (auto simp: uring_submit_send_def alloc_send_def split: if_splits)
  let ?i = "last (sp_send_free (up_pool p))"
  note s1 = sends_submit(1) [OF inv(2) a, of data dest] and s = sends_submit(2,3) [OF inv(2) a]
  have "unat (of_nat ?i :: u16) = ?i" using s(1) inv(1) by (intro unat_of_nat_lt) simp
  then have ud: "unat (ud_slot_idx ud) = ?i" by (simp add: step_send.hyps(3) user_data_roundtrip)
  have "up_pool p' = pool\<lparr>sp_send_slots := (sp_send_slots pool)[?i := prepare_send (sp_send_slots pool ! ?i) data dest]\<rparr>"
    "up_buf_ring p' = up_buf_ring p"
    using step_send.hyps(1,2) a s
    by (auto simp: uring_submit_send_def submit_send_sqe_def Let_def transport_active_def split: option.splits if_splits)
  then show ?case using step_send.prems s1 by (simp add: uring_inv_def poller_inv_def ud)
next
  case (step_refused p t data dest p' k)
  then have "p' = p"
    by (auto simp: uring_submit_send_def submit_send_sqe_def Let_def split: option.splits if_splits)
  then show ?case using step_refused.prems by simp
next
  case (step_fill k p bufs bid)
  obtain t where t: "buf_inv m (up_buf_ring p) (k_head k) t (k_bufs k)"
    using step_fill.prems by (auto simp: uring_inv_def poller_inv_def)
  have "k_head k \<le> t" "br_local_tail (up_buf_ring p) = of_nat t" "length (br_ring (up_buf_ring p)) = m" using t by (simp_all add: buf_inv_def)
  moreover have "k_head k \<noteq> t" using step_fill.hyps(1) step_fill.prems calculation(2) by (auto simp: uring_inv_def)
  ultimately have "buf_inv m (up_buf_ring p) (Suc (k_head k)) t (insert (unat bid) (k_bufs k))"
    using buf_take [OF t] by (simp add: step_fill.hyps(3))
  then have "buf_inv m ((up_buf_ring p)\<lparr>br_bufs := bufs\<rparr>) (Suc (k_head k)) t (insert (unat bid) (k_bufs k))"
    by (simp add: buf_inv_def live_bids_def)
  then show ?case using step_fill.prems by (auto simp: uring_inv_def poller_inv_def)
next
  case (step_poll cq p p' left msgs r k)
  have "poller_inv n m p k" "br_tail (up_buf_ring p) = br_local_tail (up_buf_ring p)"
    using step_poll.prems by (simp_all add: uring_inv_def)
  from uring_poll_recv_inv [OF this step_poll.hyps(2,3), of push submit parse] step_poll.hyps(1) step_poll.prems
  show ?case by (auto simp: uring_inv_def)
next
  case (step_add p recv_fd send_fd dispatch destination p' r k)
  then have "up_pool p' = up_pool p \<and> up_buf_ring p' = up_buf_ring p"
    by (auto simp: uring_add_transport_def submit_multishot_recv_def Let_def split: option.splits if_splits prod.splits)
  then show ?case using frame_inv [OF step_add.prems, of p'] by blast
next
  case (step_remove p k i)
  show ?case by (rule frame_inv [OF step_remove]) (simp_all add: uring_remove_transport_def Let_def)
next
  case (step_flush p k)
  show ?case by (rule frame_inv [OF step_flush]) (simp_all add: uring_flush_def split: prod.splits)
qed

lemma uring_new_inv:
  assumes "uring_poller_new build ra ba rg ctx = Inr p" "uring_send_slots ctx \<le> 2 ^ 16"
  shows "uring_inv (uring_send_slots ctx) (uring_buf_ring_entries ctx) (p, kernel_init)"
proof -
  obtain ring br where p: "validate ctx = None"
    "buf_ring_new ra ba rg (uring_buf_ring_entries ctx) BUF_ENTRY_SIZE = Inr br"
    "p = \<lparr>up_ring = ring, up_buf_ring = br, up_pool = slot_pool_new 0 (uring_send_slots ctx), up_transports = []\<rparr>"
    using assms(1) by (auto simp: uring_poller_new_def split: option.splits sum.splits)
  note v = validated [OF p(1)]
  have "uring_buf_ring_entries ctx \<le> 2 ^ 15" using v(2) by simp
  note b = buf_ring_new_inv [OF p(2) v(1) this]
  have "sends_inv (uring_send_slots ctx) (slot_pool_new 0 (uring_send_slots ctx)) Map.empty"
    using slot_pool_new_inv(1) [OF assms(2), of 0]
    by (simp add: sends_inv_def slot_status_def slot_pool_new_def send_slot_new_def)
  then show ?thesis using assms(2) b(1,2) p(3) by (auto simp: uring_inv_def poller_inv_def kernel_init_def)
qed

lemma uring_reach_inv:
  assumes "(uring_step push submit parse)\<^sup>*\<^sup>* (p0, kernel_init) s"
    and "uring_poller_new build ra ba rg ctx = Inr p0" "uring_send_slots ctx \<le> 2 ^ 16"
  shows "uring_inv (uring_send_slots ctx) (uring_buf_ring_entries ctx) s"
  using assms(1) by (induction rule: rtranclp_induct) (auto intro: uring_new_inv [OF assms(2,3)] uring_step_inv)


text \<open>A new poller with the default configuration; one transport is added and one datagram sent.\<close>

definition accept_push :: "sqe list push" where
  "accept_push ring s = Some (ring @ [s])"

definition accept_submit :: "sqe list submit_ring" where
  "accept_submit ring = ([], None)"

definition whole_payload :: recv_parser where
  "whole_payload buf = Some ([], buf, 0)"

lemma sample_uring_run:
  "\<exists>p0 p k. uring_poller_new (\<lambda>n. Inr []) None None None driver_context_default = Inr p0 \<and>
    (uring_step accept_push accept_submit whole_payload)\<^sup>*\<^sup>* (p0, kernel_init) (p, k) \<and> k_sends k = [127 \<mapsto> ([1, 2], None)]"
proof -
  obtain br and p0 :: "sqe list uring_poller" where p0: "uring_poller_new (\<lambda>n. Inr []) None None None driver_context_default = Inr p0"
    "p0 = \<lparr>up_ring = [], up_buf_ring = br, up_pool = slot_pool_new 0 128, up_transports = []\<rparr>"
    using default_context_valid by (simp add: uring_poller_new_def buf_ring_new_def driver_context_default_def)
  let ?te = "\<lparr>te_recv_fd = 3, te_send_fd = 3, te_dispatch_clientd = 0, te_destination_clientd = 0,
      te_multishot_active = True, te_active = True\<rparr>"
  let ?p1 = "p0\<lparr>up_transports := [?te]\<rparr>"
  have add: "uring_add_transport accept_push accept_submit p0 3 3 0 0 = Some (?p1, Inr 0)"
    by (simp add: p0(2) uring_add_transport_def submit_multishot_recv_def accept_push_def accept_submit_def Let_def)
  have pool: "sp_send_free (slot_pool_new 0 128) = [0..<128]" "length (sp_send_slots (slot_pool_new 0 128)) = 128"
    using numbered [of 128] by (simp_all add: slot_pool_new_def)
  have free: "last (sp_send_free (up_pool ?p1)) = 127" "sp_send_free (up_pool ?p1) \<noteq> []"
    unfolding p0(2) uring_poller.simps pool(1) by (simp_all add: last_upt)
  have "\<exists>p2. uring_submit_send accept_push ?p1 0 [1, 2] None = Some (p2, None)"
    using free pool(2) by (simp add: p0(2) uring_submit_send_def alloc_send_def submit_send_sqe_def accept_push_def Let_def)
  then obtain p2 where p2: "uring_submit_send accept_push ?p1 0 [1, 2] None = Some (p2, None)" by blast
  let ?ud = "user_data_encode (of_nat (0 mod 2 ^ 16)) OP_SEND (of_nat (last (sp_send_free (up_pool ?p1))))"
  have "uring_step accept_push accept_submit whole_payload (?p1, kernel_init)
      (p2, kernel_init\<lparr>k_sends := (k_sends kernel_init)(unat (ud_slot_idx ?ud) \<mapsto> ([1, 2], None))\<rparr>)"
    by (rule uring_step.step_send [OF p2]) (simp_all add: transport_active_def)
  moreover have "unat (ud_slot_idx ?ud) = 127" unfolding user_data_roundtrip free(1) by simp
  ultimately have "(uring_step accept_push accept_submit whole_payload)\<^sup>*\<^sup>* (p0, kernel_init)
      (p2, kernel_init\<lparr>k_sends := [127 \<mapsto> ([1, 2], None)]\<rparr>)"
    using uring_step.step_add [OF add, of whole_payload kernel_init]
    by (auto simp: kernel_init_def intro: rtranclp.rtrancl_into_rtrancl)
  then show ?thesis using p0(1) by fastforce
qed


section \<open>Completions that are lost\<close>

lemma owes_append: "owes k (xs @ ys) \<longleftrightarrow> owes k xs \<and> owes (foldl k_after k xs) ys"
  by (induction xs arbitrary: k) auto

text \<open>
  C40: A poll that finds more completions than its batch holds loses one. The loop over the completion queue takes
  the first completion beyond the batch out of the queue before it notices that the batch is full: the
  completion is neither processed nor left for the next poll. If it was that of a send, its slot is never
  freed by it.
\<close>

theorem full_batch_loses_completion:
  assumes "uring_poller_new build ra ba rg ctx = Inr p0" "uring_send_slots ctx \<le> 2 ^ 16"
    and "(uring_step push submit parse)\<^sup>*\<^sup>* (p0, kernel_init) (p, k)"
    and "owes k (batch @ [c])" "length batch = CQE_BATCH_SIZE" "cqe_slot c = Some i"
  shows "\<exists>p' r. uring_poll_recv push submit parse 0 (batch @ c # rest) p =
      Some (p', rest, List.map_filter (message_for parse p) batch, r) \<and>
    i \<notin> set (sp_send_free (up_pool p')) \<and> ss_state (sp_send_slots (up_pool p') ! i) = InFlight"
proof -
  have inv: "poller_inv (uring_send_slots ctx) (uring_buf_ring_entries ctx) p k" "br_tail (up_buf_ring p) = br_local_tail (up_buf_ring p)"
    using uring_reach_inv [OF assms(3,1,2)] by (simp_all add: uring_inv_def)
  have o: "owes k batch" "i \<in> dom (k_sends (foldl k_after k batch))"
    using assms(4,6) by (simp_all add: owes_append)
  have len: "length batch \<le> CQE_BATCH_SIZE" using assms(5) by simp
  from uring_poll_recv_inv [OF inv o(1) len, of push submit parse] obtain p' r where
    p': "uring_poll_recv push submit parse 0 batch p = Some (p', [], List.map_filter (message_for parse p) batch, r)"
    "poller_inv (uring_send_slots ctx) (uring_buf_ring_entries ctx) p' (foldl k_after k batch)" by blast
  have h: "harvest batch = (batch, [])" "harvest (batch @ c # rest) = (batch, rest)"
    using assms(5) by (simp_all add: harvest_def)
  have "uring_poll_recv push submit parse 0 (batch @ c # rest) p =
      map_option (\<lambda>(p', left, msgs, r). (p', rest, msgs, r)) (uring_poll_recv push submit parse 0 batch p)"
    by (simp add: uring_poll_recv_def h Let_def split: option.splits prod.splits)
  moreover have s: "set (sp_send_free (up_pool p')) \<inter> dom (k_sends (foldl k_after k batch)) = {}"
    "set (sp_send_free (up_pool p')) \<union> dom (k_sends (foldl k_after k batch)) = {..<uring_send_slots ctx}"
    "\<forall>j < uring_send_slots ctx. slot_status (sp_send_slots (up_pool p') ! j) (k_sends (foldl k_after k batch) j)"
    using p'(2) by (simp_all add: poller_inv_def sends_inv_def)
  moreover have "i < uring_send_slots ctx" using s(2) o(2) by auto
  then have "ss_state (sp_send_slots (up_pool p') ! i) = InFlight" using s(3) o(2) by (fastforce simp: slot_status_def)
  ultimately show ?thesis using p'(1) o(2) by (intro exI [of _ p'] exI [of _ r]) auto
qed

definition lost_send :: cqe where
  "lost_send = \<lparr>cqe_user_data = user_data_encode 0 OP_SEND 127, cqe_result = 2, cqe_more = False, cqe_buffer = None\<rparr>"

definition idle_recv :: cqe where
  "idle_recv = \<lparr>cqe_user_data = user_data_encode 0 OP_RECV 0, cqe_result = 0, cqe_more = True, cqe_buffer = None\<rparr>"

theorem full_batch_loses_completion_witness:
  "\<exists>p p' msgs r. uring_poll_recv accept_push accept_submit whole_payload 0 (replicate 256 idle_recv @ lost_send # []) p =
      Some (p', [], msgs, r) \<and> 127 \<notin> set (sp_send_free (up_pool p'))"
proof -
  obtain p0 p k where r: "uring_poller_new (\<lambda>n. Inr []) None None None driver_context_default = Inr p0"
    "(uring_step accept_push accept_submit whole_payload)\<^sup>*\<^sup>* (p0, kernel_init) (p, k)" "k_sends k = [127 \<mapsto> ([1, 2], None)]"
    using sample_uring_run by blast
  have n: "uring_send_slots driver_context_default \<le> 2 ^ 16" by (simp add: driver_context_default_def)
  have c: "cqe_slot idle_recv = None" "cqe_bid idle_recv = None" "cqe_slot lost_send = Some 127" "cqe_bid lost_send = None"
    by (simp_all add: cqe_slot_def cqe_bid_def idle_recv_def lost_send_def user_data_roundtrip OP_RECV_def OP_SEND_def)
  have "foldl k_after k (replicate j idle_recv) = k \<and> owes k (replicate j idle_recv)" for j
    by (induction j) (simp_all add: k_after_def c)
  then have o: "owes k (replicate 256 idle_recv @ [lost_send])" using r(3) c by (simp add: owes_append)
  from full_batch_loses_completion [OF r(1) n r(2) o _ c(3), of "[]"] show ?thesis
    by (auto simp: CQE_BATCH_SIZE_def)
qed

text \<open>
  A poller with two send slots and one transport. After a reported overflow, the slots of sends that are still
  in flight are freed as well.
\<close>

definition two_slots :: "sqe list uring_poller" where
  "two_slots =
     \<lparr>up_ring = [],
      up_buf_ring = \<lparr>br_ring = [buf_ring_entry_for 0 0], br_tail = 1, br_bufs = [], br_buf_size = 0, br_mask = 0, br_local_tail = 1\<rparr>,
      up_pool = slot_pool_new 0 2,
      up_transports = [\<lparr>te_recv_fd = 3, te_send_fd = 3, te_dispatch_clientd = 0, te_destination_clientd = 0,
        te_multishot_active = True, te_active = True\<rparr>]\<rparr>"

definition send_done :: "u16 \<Rightarrow> cqe" where
  "send_done slot = \<lparr>cqe_user_data = user_data_encode 0 OP_SEND slot, cqe_result = 1, cqe_more = False, cqe_buffer = None\<rparr>"

text \<open>Submit one datagram, poll with a reported overflow and no completions, submit another.\<close>

definition after_recovery :: "sqe list uring_poller option" where
  "after_recovery =
     Option.bind (uring_submit_send accept_push two_slots 0 [1] None) (\<lambda>(p1, e1).
     Option.bind (uring_poll_recv accept_push accept_submit whole_payload 1 [] p1) (\<lambda>(p2, left, msgs, r).
     map_option fst (uring_submit_send accept_push p2 0 [2] None)))"

text \<open>
  Recovery after a completion-queue overflow frees slots that the kernel still reads. A datagram is sent, a
  poll reports an overflow, and the next datagram is put into the slot of the first one, whose send has not
  completed; both submissions name the same slot. When both sends complete, the second completion frees a slot
  that is already free: the debug assertion of the pool fails.
\<close>

theorem overflow_recovery_reuses_slot:
  "\<exists>p s1 s2. after_recovery = Some p \<and>
    up_ring p = [SendMsg 3 s1 (user_data_encode 0 OP_SEND 1), SendMsg 3 s2 (user_data_encode 0 OP_SEND 1)] \<and>
    ss_data s1 = [1] \<and> ss_data s2 = [2] \<and>
    uring_poll_recv accept_push accept_submit whole_payload 0 [send_done 1, send_done 1] p = None"
proof -
  have u: "upt 0 2 = [0, Suc 0]" by (simp add: upt_rec)
  show ?thesis
    by (simp add: after_recovery_def uring_submit_send_def alloc_send_def submit_send_sqe_def two_slots_def slot_pool_new_def u
        accept_push_def accept_submit_def Let_def uring_poll_recv_def harvest_def recover_leaked_send_slots_def
        prepare_send_def complete_send_def free_send_def send_slot_new_def send_done_def on_cqe_def on_send_cqe_def
        user_data_roundtrip OP_SEND_def OP_RECV_def poll_result_default_def CQE_BATCH_SIZE_def)
qed

text \<open>Two more ways in which a slot is lost: a send on a removed transport, and one that the full ring refuses.\<close>

lemma removed_transport_leaks:
  assumes "alloc_send (up_pool p) = Some (pool, i)" "t < length (up_transports p)" "t < 2 ^ 16" "\<not> te_active (up_transports p ! t)"
  shows "uring_submit_send push p t data dest = Some (p\<lparr>up_pool := pool\<rparr>, None)"
  using assms by (simp add: uring_submit_send_def submit_send_sqe_def Let_def)

lemma full_ring_leaks:
  assumes "sends_inv n (up_pool p) sends" "alloc_send (up_pool p) = Some (pool, i)"
    and "transport_active p t" "t < 2 ^ 16" "\<And>s. push (up_ring p) s = None"
  shows "\<exists>p'. uring_submit_send push p t data dest = Some (p', Some RingFull) \<and> up_ring p' = up_ring p \<and>
    i \<notin> set (sp_send_free (up_pool p')) \<and> ss_state (sp_send_slots (up_pool p') ! i) = InFlight"
proof -
  have inv: "send_pool_inv n (up_pool p)" using assms(1) by (simp add: sends_inv_def)
  have p: "set (sp_send_free pool) = set (sp_send_free (up_pool p)) - {i}" using send_pool.alloc_some [OF inv assms(2)] by simp
  note s = sends_submit(2,3) [OF assms(1,2)]
  show ?thesis using assms(2-5) p s
    by (auto simp: uring_submit_send_def submit_send_sqe_def Let_def transport_active_def prepare_send_def split: option.splits)
qed

end
