(* ===== verification/Channel.thy ===== *)
theory Channel
  imports Command
begin

text \<open>
  Channel URIs and socket addresses (\<^verbatim>\<open>src/src/media/channel.rs\<close>, and \<open>sockaddr_to_storage\<close> of
  \<^verbatim>\<open>src/src/client/aeron.rs\<close>).

  A string is the list of its Unicode scalar values; \<open>utf8_encode\<close> gives its bytes. Reading a textual address and
  asking the resolver of the operating system are the arguments \<open>parse_addr\<close>, \<open>parse_ip\<close> and \<open>dns\<close>.
\<close>

section \<open>Strings\<close>

type_synonym rust_str = "nat list"

definition lit :: "string \<Rightarrow> rust_str" where
  "lit s = map of_char s"

definition scalar_value :: "nat \<Rightarrow> bool" where
  "scalar_value c \<longleftrightarrow> c < 1114112 \<and> \<not> (55296 \<le> c \<and> c < 57344)"

fun utf8_char :: "nat \<Rightarrow> byte list" where
  "utf8_char c =
     (if c < 128 then [of_nat c]
      else if c < 2048 then [of_nat (192 + c div 64), of_nat (128 + c mod 64)]
      else if c < 65536 then [of_nat (224 + c div 4096), of_nat (128 + c div 64 mod 64), of_nat (128 + c mod 64)]
      else [of_nat (240 + c div 262144), of_nat (128 + c div 4096 mod 64), of_nat (128 + c div 64 mod 64),
            of_nat (128 + c mod 64)])"

definition utf8_encode :: "rust_str \<Rightarrow> byte list" where
  "utf8_encode s = concat (map utf8_char s)"

definition is_whitespace :: "nat \<Rightarrow> bool" where
  "is_whitespace c \<longleftrightarrow> 9 \<le> c \<and> c \<le> 13 \<or> 8192 \<le> c \<and> c \<le> 8202 \<or>
     c \<in> {32, 133, 160, 5760, 8232, 8233, 8239, 8287, 12288}"

definition str_trim :: "rust_str \<Rightarrow> rust_str" where
  "str_trim s = rev (dropWhile is_whitespace (rev (dropWhile is_whitespace s)))"

fun split_on :: "nat \<Rightarrow> rust_str \<Rightarrow> rust_str list" where
  "split_on d [] = [[]]"
| "split_on d (c # cs) =
     (if c = d then [] # split_on d cs
      else case split_on d cs of w # ws \<Rightarrow> (c # w) # ws | [] \<Rightarrow> [[c]])"

fun split_once :: "nat \<Rightarrow> rust_str \<Rightarrow> (rust_str \<times> rust_str) option" where
  "split_once d [] = None"
| "split_once d (c # cs) = (if c = d then Some ([], cs) else map_option (\<lambda>(k, v). (c # k, v)) (split_once d cs))"

fun digits_value :: "rust_str \<Rightarrow> nat \<Rightarrow> nat option" where
  "digits_value [] n = Some n"
| "digits_value (c # cs) n = (if 48 \<le> c \<and> c \<le> 57 then digits_value cs (10 * n + (c - 48)) else None)"

definition parse_nat :: "rust_str \<Rightarrow> nat option" where
  "parse_nat s = (if s = [] then None else digits_value s 0)"

text \<open>\<open>str::parse\<close> for \<open>u8\<close> and for \<open>i64\<close>: an optional sign, at least one digit, and the range of the type.\<close>

definition parse_u8 :: "rust_str \<Rightarrow> u8 option" where
  "parse_u8 s =
     (case parse_nat (if s \<noteq> [] \<and> hd s = 43 then tl s else s) of
        None \<Rightarrow> None
      | Some n \<Rightarrow> if n < 256 then Some (of_nat n) else None)"

definition parse_i64 :: "rust_str \<Rightarrow> i64 option" where
  "parse_i64 s =
     (if s \<noteq> [] \<and> hd s = 45
      then (case parse_nat (tl s) of None \<Rightarrow> None | Some n \<Rightarrow> if n \<le> 2 ^ 63 then Some (- of_nat n) else None)
      else (case parse_nat (if s \<noteq> [] \<and> hd s = 43 then tl s else s) of
              None \<Rightarrow> None
            | Some n \<Rightarrow> if n < 2 ^ 63 then Some (of_nat n) else None))"

section \<open>Addresses\<close>

datatype ip_addr = IpV4 "byte list" | IpV6 "byte list"

text \<open>Octets and port, for IPv6 also flow information and scope.\<close>

datatype socket_addr = SockV4 "byte list" u16 | SockV6 "byte list" u16 i32 i32

fun addr_wf :: "socket_addr \<Rightarrow> bool" where
  "addr_wf (SockV4 octets port) \<longleftrightarrow> length octets = 4"
| "addr_wf (SockV6 octets port flow scope) \<longleftrightarrow> length octets = 16"

fun addr_is_multicast :: "socket_addr \<Rightarrow> bool" where
  "addr_is_multicast (SockV4 octets port) \<longleftrightarrow> 224 \<le> octets ! 0 \<and> octets ! 0 \<le> 239"
| "addr_is_multicast (SockV6 octets port flow scope) \<longleftrightarrow> octets ! 0 = 255"

definition UNSPECIFIED_V4 :: socket_addr where "UNSPECIFIED_V4 = SockV4 (replicate 4 0) 0"
definition UNSPECIFIED_V6 :: socket_addr where "UNSPECIFIED_V6 = SockV6 (replicate 16 0) 0 0 0"

definition be_bytes16 :: "u16 \<Rightarrow> byte list" where
  "be_bytes16 w = rev (le_bytes 2 w)"

fun sockaddr_to_storage :: "socket_addr \<Rightarrow> sockaddr_storage" where
  "sockaddr_to_storage (SockV4 octets port) =
     le_bytes 2 (2 :: u16) @ be_bytes16 port @ octets @ replicate 120 0"
| "sockaddr_to_storage (SockV6 octets port flow scope) =
     le_bytes 2 (10 :: u16) @ be_bytes16 port @ replicate 4 0 @ octets @ replicate 104 0"

lemma sockaddr_to_storage_length:
  "addr_wf a \<Longrightarrow> length (sockaddr_to_storage a) = 128"
  by (cases a) (simp_all add: be_bytes16_def)

section \<open>Channels\<close>

record udp_channel =
  uc_remote_data :: socket_addr
  uc_local_data :: socket_addr
  uc_remote_control :: socket_addr
  uc_local_control :: socket_addr
  uc_interface_addr :: "ip_addr option"
  uc_multicast_ttl :: "u8 option"
  uc_is_multicast :: bool
  uc_is_manual_control_mode :: bool
  uc_is_dynamic_control_mode :: bool
  uc_is_response :: bool
  uc_tag :: "i64 option"
  uc_params :: "rust_str \<rightharpoonup> rust_str"

datatype channel_error = InvalidUri rust_str | MissingParam rust_str | Resolve rust_str

definition insert_part :: "(rust_str \<rightharpoonup> rust_str) \<Rightarrow> rust_str \<Rightarrow> (rust_str \<rightharpoonup> rust_str)" where
  "insert_part params part =
     (case split_once 61 part of None \<Rightarrow> params | Some (k, v) \<Rightarrow> params(str_trim k \<mapsto> str_trim v))"

definition parse_params :: "rust_str \<Rightarrow> (rust_str \<rightharpoonup> rust_str)" where
  "parse_params query = foldl insert_part Map.empty (split_on 124 query)"

text \<open>The resolver gives an error text or a list of addresses.\<close>

definition resolve_addr ::
  "(rust_str \<Rightarrow> socket_addr option) \<Rightarrow> (rust_str \<Rightarrow> rust_str + socket_addr list) \<Rightarrow> rust_str \<Rightarrow> channel_error + socket_addr" where
  "resolve_addr parse_addr dns s =
     (case parse_addr s of
        Some addr \<Rightarrow> Inr addr
      | None \<Rightarrow>
          (case dns s of
             Inl e \<Rightarrow> Inl (Resolve (s @ lit '': '' @ e))
           | Inr [] \<Rightarrow> Inl (Resolve (lit ''no addresses for '' @ s))
           | Inr (addr # addrs) \<Rightarrow> Inr addr))"

definition build_channel ::
  "(rust_str \<Rightarrow> ip_addr option) \<Rightarrow> (rust_str \<rightharpoonup> rust_str) \<Rightarrow> socket_addr \<Rightarrow> socket_addr \<Rightarrow> udp_channel" where
  "build_channel parse_ip params remote_data remote_control =
     (let local_data = (case remote_data of SockV4 o' p \<Rightarrow> UNSPECIFIED_V4 | SockV6 o' p f s \<Rightarrow> UNSPECIFIED_V6);
          control_mode = params (lit ''control-mode'')
      in \<lparr>uc_remote_data = remote_data, uc_local_data = local_data, uc_remote_control = remote_control,
          uc_local_control = local_data, uc_interface_addr = Option.bind (params (lit ''interface'')) parse_ip,
          uc_multicast_ttl = Option.bind (params (lit ''ttl'')) parse_u8,
          uc_is_multicast = addr_is_multicast remote_data,
          uc_is_manual_control_mode = (control_mode = Some (lit ''manual'')),
          uc_is_dynamic_control_mode = (control_mode = Some (lit ''dynamic'')),
          uc_is_response = (params (lit ''response'') = Some (lit ''true'')),
          uc_tag = Option.bind (params (lit ''tag'')) parse_i64, uc_params = params\<rparr>)"

definition channel_parse ::
  "(rust_str \<Rightarrow> socket_addr option) \<Rightarrow> (rust_str \<Rightarrow> rust_str + socket_addr list) \<Rightarrow> (rust_str \<Rightarrow> ip_addr option) \<Rightarrow>
   rust_str \<Rightarrow> channel_error + udp_channel" where
  "channel_parse parse_addr dns parse_ip uri =
     (if take 10 uri \<noteq> lit ''aeron:udp?'' then Inl (InvalidUri uri)
      else
        let params = parse_params (drop 10 uri)
        in case params (lit ''endpoint'') of
             None \<Rightarrow> Inl (MissingParam (lit ''endpoint''))
           | Some endpoint \<Rightarrow>
               (case resolve_addr parse_addr dns endpoint of
                  Inl e \<Rightarrow> Inl e
                | Inr remote_data \<Rightarrow>
                    (case params (lit ''control'') of
                       None \<Rightarrow> Inr (build_channel parse_ip params remote_data remote_data)
                     | Some c \<Rightarrow>
                         (case resolve_addr parse_addr dns c of
                            Inl e \<Rightarrow> Inl e
                          | Inr remote_control \<Rightarrow> Inr (build_channel parse_ip params remote_data remote_control)))))"

section \<open>Parameters are read back\<close>

fun render_params :: "(rust_str \<times> rust_str) list \<Rightarrow> rust_str" where
  "render_params [] = []"
| "render_params [(k, v)] = k @ 61 # v"
| "render_params ((k, v) # ps) = k @ 61 # v @ 124 # render_params ps"

definition plain :: "rust_str \<Rightarrow> bool" where
  "plain s \<longleftrightarrow> 124 \<notin> set s \<and> str_trim s = s"

lemma split_on_plain: "124 \<notin> set s \<Longrightarrow> split_on 124 s = [s]"
  by (induction s) auto

lemma split_on_append: "124 \<notin> set s \<Longrightarrow> split_on 124 (s @ 124 # t) = s # split_on 124 t"
  by (induction s) auto

lemma split_once_key: "61 \<notin> set k \<Longrightarrow> split_once 61 (k @ 61 # v) = Some (k, v)"
  by (induction k) auto

lemma insert_rendered: "plain k \<Longrightarrow> plain v \<Longrightarrow> 61 \<notin> set k \<Longrightarrow> insert_part m (k @ 61 # v) = m(k \<mapsto> v)"
  by (simp add: insert_part_def split_once_key plain_def)

lemma fold_rendered:
  assumes "list_all (\<lambda>(k, v). plain k \<and> plain v \<and> 61 \<notin> set k) ps" "ps \<noteq> []"
  shows "foldl insert_part m (split_on 124 (render_params ps)) = m ++ map_of (rev ps)"
  using assms
proof (induction ps arbitrary: m rule: render_params.induct)
  case (2 k v)
  have "124 \<notin> set (k @ 61 # v)" using 2 by (simp add: plain_def)
  then show ?case using 2 insert_rendered [of k v m] by (auto simp: split_on_plain map_add_def)
next
  case (3 k v p ps)
  have "124 \<notin> set (k @ 61 # v)" using "3.prems" by (simp add: plain_def)
  from split_on_append [OF this, of "render_params (p # ps)"] "3.prems" insert_rendered [of k v m]
  have "foldl insert_part m (split_on 124 (render_params ((k, v) # p # ps))) =
      foldl insert_part (m(k \<mapsto> v)) (split_on 124 (render_params (p # ps)))" by simp
  also have "\<dots> = m(k \<mapsto> v) ++ map_of (rev (p # ps))" by (rule "3.IH") (use "3.prems" in simp_all)
  also have "\<dots> = m ++ map_of (rev ((k, v) # p # ps))"
    by (rule ext) (simp add: map_add_def split: option.splits)
  finally show ?case .
qed simp

lemma render_plain_params:
  assumes "list_all (\<lambda>(k, v). plain k \<and> plain v \<and> 61 \<notin> set k) ps" "ps \<noteq> []" "distinct (map fst ps)"
  shows "parse_params (render_params ps) = map_of ps"
  using fold_rendered [OF assms(1,2), of Map.empty] map_of_inject_set [of "rev ps" ps] assms(3)
  by (simp add: parse_params_def rev_map [symmetric])


definition sample_params :: "(rust_str \<times> rust_str) list" where
  "sample_params = [(lit ''endpoint'', lit ''127.0.0.1:40123''), (lit ''ttl'', lit ''4'')]"

definition sample_addr :: "rust_str \<Rightarrow> socket_addr option" where
  "sample_addr s = (if s = lit ''127.0.0.1:40123'' then Some (SockV4 [127, 0, 0, 1] 40123) else None)"


section \<open>Texts are valid UTF-8\<close>

lemma byte_of_nat:
  assumes "n < 256" "k < 256"
  shows "(of_nat n :: byte) < of_nat k \<longleftrightarrow> n < k" "(of_nat n :: byte) = of_nat k \<longleftrightarrow> n = k"
  using assms by (simp_all add: word_less_nat_alt word_unat_eq_iff unat_of_nat)

lemma byte_of_nat_numeral:
  assumes "n < 256" "numeral k < (256 :: nat)"
  shows "(of_nat n :: byte) < numeral k \<longleftrightarrow> n < numeral k" "(numeral k :: byte) \<le> of_nat n \<longleftrightarrow> numeral k \<le> n"
    "(of_nat n :: byte) = numeral k \<longleftrightarrow> n = numeral k"
  using byte_of_nat [OF assms] by (simp_all add: not_less [symmetric])

lemma utf8_two:
  assumes "194 \<le> a" "a < 224" "128 \<le> b" "b < 192"
  shows "utf8_valid (of_nat a # of_nat b # rest) \<longleftrightarrow> utf8_valid rest"
  using assms by (simp add: byte_of_nat_numeral utf8_cont_def)

lemma utf8_three:
  assumes "224 \<le> a" "a < 240" "128 \<le> b" "b < 192" "128 \<le> c" "c < 192" "a = 224 \<Longrightarrow> 160 \<le> b" "a = 237 \<Longrightarrow> b < 160"
  shows "utf8_valid (of_nat a # of_nat b # of_nat c # rest) \<longleftrightarrow> utf8_valid rest"
  using assms by (simp add: byte_of_nat_numeral utf8_cont_def)

lemma utf8_four:
  assumes "240 \<le> a" "a < 245" "128 \<le> b" "b < 192" "128 \<le> c" "c < 192" "128 \<le> d" "d < 192"
    "a = 240 \<Longrightarrow> 144 \<le> b" "a = 244 \<Longrightarrow> b < 144"
  shows "utf8_valid (of_nat a # of_nat b # of_nat c # of_nat d # rest) \<longleftrightarrow> utf8_valid rest"
  using assms by (simp add: byte_of_nat_numeral utf8_cont_def)

lemma utf8_valid_char:
  assumes "scalar_value c"
  shows "utf8_valid (utf8_char c @ rest) \<longleftrightarrow> utf8_valid rest"
proof -
  have c: "c < 1114112" "\<not> (55296 \<le> c \<and> c < 57344)" using assms by (simp_all add: scalar_value_def)
  define q r where "q = c div 64" and "r = c mod 64"
  have c_eq: "c = 64 * q + r" "r < 64" by (simp_all add: q_def r_def)
  define q1 r1 where "q1 = q div 64" and "r1 = q mod 64"
  have q_eq: "q = 64 * q1 + r1" "r1 < 64" by (simp_all add: q1_def r1_def)
  define q2 r2 where "q2 = q1 div 64" and "r2 = q1 mod 64"
  have q1_eq: "q1 = 64 * q2 + r2" "r2 < 64" by (simp_all add: q2_def r2_def)
  have d: "c div 4096 = q1" "c div 262144 = q2"
    by (simp_all add: q2_def q1_def q_def div_mult2_eq [symmetric])
  consider "c < 128" | "128 \<le> c" "c < 2048" | "2048 \<le> c" "c < 65536" | "65536 \<le> c" by linarith
  then show ?thesis
  proof cases
    case 1
    then show ?thesis by (simp add: byte_of_nat_numeral)
  next
    case 2
    have "2 \<le> q" "q < 32" using c_eq 2 by linarith+
    then have "utf8_valid (of_nat (192 + q) # of_nat (128 + r) # rest) \<longleftrightarrow> utf8_valid rest"
      using c_eq(2) by (intro utf8_two) linarith+
    then show ?thesis using 2 by (simp add: q_def r_def del: utf8_valid.simps of_nat_add)
  next
    case 3
    have "q1 < 16" "q1 = 0 \<Longrightarrow> 32 \<le> r1" "q1 = 13 \<Longrightarrow> r1 < 32" using c_eq q_eq 3 c(2) by linarith+
    then have "utf8_valid (of_nat (224 + q1) # of_nat (128 + r1) # of_nat (128 + r) # rest) \<longleftrightarrow> utf8_valid rest"
      using c_eq(2) q_eq(2) by (intro utf8_three) linarith+
    then show ?thesis using 3 by (simp add: d r_def r1_def q_def del: utf8_valid.simps of_nat_add)
  next
    case 4
    have "q2 < 5" "q2 = 0 \<Longrightarrow> 16 \<le> r2" "q2 = 4 \<Longrightarrow> r2 < 16" using c_eq q_eq q1_eq 4 c(1) by linarith+
    then have "utf8_valid (of_nat (240 + q2) # of_nat (128 + r2) # of_nat (128 + r1) # of_nat (128 + r) # rest) \<longleftrightarrow>
        utf8_valid rest"
      using c_eq(2) q_eq(2) q1_eq(2) by (intro utf8_four) linarith+
    then show ?thesis using 4 by (simp add: d r_def r1_def q_def r2_def del: utf8_valid.simps of_nat_add)
  qed
qed

lemma utf8_valid_encode: "list_all scalar_value s \<Longrightarrow> utf8_valid (utf8_encode s)"
  by (induction s) (simp_all add: utf8_encode_def utf8_valid_char del: utf8_char.simps)

end
