(* ===== verification/Spec2Isabelle.thy ===== *)
theory Spec2Isabelle
  imports Publication_Delivery Subscription_Delivery Sender_Delivery Conductor Uring_Poller Channel
begin

text \<open>
  A verification development for \<^verbatim>\<open>aeron-rs\<close>, an Aeron-style UDP messaging transport.

  \<^bold>\<open>Theories.\<close>
  \<^item> \<open>Prelude\<close>: machine integers, byte buffers, outcomes and their lemmas.
  \<^item> \<open>Frame\<close>: the wire frames of \<^verbatim>\<open>src/src/frame.rs\<close>.
  \<^item> \<open>Term_Buffer\<close>: the four-partition term buffers of \<^verbatim>\<open>src/src/media/term_buffer.rs\<close>.
\<close>

end
